(* ===== verification/Prelude.thy ===== *)
theory Prelude
  imports Main "HOL-Library.Word" "HOL-Library.List_Lexorder"
begin

text \<open>
  The vocabulary shared by every component.

  \<^item> Byte strings (\<open>Vec<u8>\<close>, \<open>&[u8]\<close>, \<open>[u8; 32]\<close>) are lists of \<^typ>\<open>8 word\<close>; the order on
    lists is the lexicographic one, which is Rust's \<open>Ord\<close> on slices.
  \<^item> A fallible call (\<open>Result<T, E>\<close>) is a sum with the error on the left.
  \<^item> A loop that follows identifiers stored in a database need not end on arbitrary contents,
    so a computation has an outer \<open>option\<close>: \<open>None\<close> is "does not return" (it loops or panics).
    A reader is such a value; a stateful computation also returns the state it leaves, on the
    error path too, because a Rust method keeps the mutations made before the \<open>?\<close> that
    returned.
\<close>

unbundle bit_operations_syntax

section \<open>Types\<close>

type_synonym u8 = "8 word"
type_synonym u32 = "32 word"
type_synonym bytes = "u8 list"
type_synonym ('e, 'a) reader = "('e + 'a) option"
type_synonym ('s, 'e, 'a) comp = "'s \<Rightarrow> (('e + 'a) \<times> 's) option"

named_theorems comp_simps \<open>evaluation rules of the computation combinators\<close>
named_theorems order_simps \<open>facts on the key ranges of tree nodes\<close>

section \<open>Readers and stateful computations\<close>

definition ok :: "'a \<Rightarrow> ('e, 'a) reader" where
  "ok a = Some (Inr a)"

definition bindr :: "('e, 'a) reader \<Rightarrow> ('a \<Rightarrow> ('e, 'b) reader) \<Rightarrow> ('e, 'b) reader" where
  "bindr m f = (case m of None \<Rightarrow> None | Some r \<Rightarrow> (case r of Inl e \<Rightarrow> Some (Inl e) | Inr a \<Rightarrow> f a))"

definition ret :: "'a \<Rightarrow> ('s, 'e, 'a) comp" where
  "ret a = (\<lambda>s. Some (Inr a, s))"

definition bindc :: "('s, 'e, 'a) comp \<Rightarrow> ('a \<Rightarrow> ('s, 'e, 'b) comp) \<Rightarrow> ('s, 'e, 'b) comp" where
  "bindc m f = (\<lambda>s. case m s of None \<Rightarrow> None
      | Some rs \<Rightarrow> (case fst rs of Inl e \<Rightarrow> Some (Inl e, snd rs) | Inr a \<Rightarrow> f a (snd rs)))"

text \<open>
  A panic (an index or a range out of bounds) unwinds and returns nothing, so it is \<open>None\<close> as well.
\<close>

definition panic :: "('s, 'e, 'a) comp" where
  "panic = (\<lambda>s. None)"

definition liftr :: "('s \<Rightarrow> ('e, 'a) reader) \<Rightarrow> ('s, 'e, 'a) comp" where
  "liftr m = (\<lambda>s. map_option (\<lambda>r. (r, s)) (m s))"

text \<open>
  \<open>Vec::with_capacity(n)\<close> before the rest of a computation: it panics when \<open>n\<close> elements of the given size need more than
  \<open>isize::MAX\<close> bytes. A pair of byte vectors takes 48 bytes.
\<close>

definition with_capacity :: "nat \<Rightarrow> nat \<Rightarrow> ('e, 'a) reader \<Rightarrow> ('e, 'a) reader" where
  "with_capacity element_size n m = (if n * element_size \<ge> 2 ^ 63 then None else m)"

lemma bindr_with_capacity [simp]: "bindr (with_capacity k n m) f = with_capacity k n (bindr m f)"
  by (simp add: with_capacity_def bindr_def)

lemma with_capacity_0 [simp]: "with_capacity k 0 m = m"
  by (simp add: with_capacity_def)

lemma ok_eq_iff [simp]: "ok a = ok b \<longleftrightarrow> a = b"
  by (simp add: ok_def)

lemma bindr_simps [simp, comp_simps]:
  "bindr None f = None" "bindr (Some (Inl e)) f = Some (Inl e)" "bindr (Some (Inr a)) f = f a"
  "bindr (ok a) f = f a"
  by (simp_all add: bindr_def ok_def)

lemma bindr_Some_Inr_iff:
  "bindr m f = Some (Inr b) \<longleftrightarrow> (\<exists>a. m = Some (Inr a) \<and> f a = Some (Inr b))"
  by (auto simp: bindr_def split: option.splits sum.splits)

lemma bindc_ret [simp, comp_simps]: "bindc (ret a) f s = f a s"
  by (simp add: bindc_def ret_def)

lemma bindc_Inr [simp, comp_simps]: "m s = Some (Inr a, s') \<Longrightarrow> bindc m f s = f a s'"
  by (simp add: bindc_def)

lemma bindc_Inl [simp, comp_simps]: "m s = Some (Inl e, s') \<Longrightarrow> bindc m f s = Some (Inl e, s')"
  by (simp add: bindc_def)

lemma ret_apply [simp, comp_simps]: "ret a s = Some (Inr a, s)"
  by (simp add: ret_def)

lemma liftr_apply [simp, comp_simps]:
  "m s = Some r \<Longrightarrow> liftr m s = Some (r, s)" "m s = None \<Longrightarrow> liftr m s = None"
  by (simp_all add: liftr_def)

text \<open>The combinators are monotone, so recursive definitions may call through them.\<close>

lemma bindr_mono [partial_function_mono]:
  assumes "mono_option m" and "\<And>a. mono_option (\<lambda>f. g a f)"
  shows "mono_option (\<lambda>f. bindr (m f) (\<lambda>a. g a f))"
proof (rule monotoneI, goal_cases)
  case (1 f h)
  have "option_ord (m f) (m h)" using assms(1) 1 by (rule monotoneD [of _ _ _ f h])
  then have m: "m f = None \<or> m f = m h" by (auto simp: flat_ord_def)
  have g: "option_ord (g a f) (g a h)" for a
    using assms(2) 1 by (rule monotoneD [of _ _ _ f h])
  from m show ?case
    by (elim disjE) (auto simp: bindr_def g flat_ord_def [of None None]
        flat_ord_def [of None "Some _"] split: option.split sum.split)
qed

lemma bindc_mono [partial_function_mono]:
  assumes "mono_option (\<lambda>f. m f s)" and "\<And>a s'. mono_option (\<lambda>f. g a f s')"
  shows "mono_option (\<lambda>f. bindc (m f) (\<lambda>a. g a f) s)"
proof (rule monotoneI, goal_cases)
  case (1 f h)
  have "option_ord (m f s) (m h s)" using assms(1) 1 by (rule monotoneD [of _ _ _ f h])
  then have m: "m f s = None \<or> m f s = m h s" by (auto simp: flat_ord_def)
  have g: "option_ord (g a f s') (g a h s')" for a s'
    using assms(2) 1 by (rule monotoneD [of _ _ _ f h])
  from m show ?case
    by (elim disjE) (auto simp: bindc_def g flat_ord_def [of None None]
        flat_ord_def [of None "Some _"] split: option.split sum.split)
qed

text \<open>A loop over a list whose body may fail or not return.\<close>

primrec foldm :: "('x \<Rightarrow> 'a \<Rightarrow> ('e, 'a) reader) \<Rightarrow> 'x list \<Rightarrow> 'a \<Rightarrow> ('e, 'a) reader" where
  "foldm f [] a = ok a"
| "foldm f (x # xs) a = bindr (f x a) (foldm f xs)"

lemma foldm_mono [partial_function_mono]:
  assumes "\<And>x a. mono_option (\<lambda>f. g f x a)"
  shows "mono_option (\<lambda>f. foldm (g f) xs a)"
  by (induction xs arbitrary: a) (auto intro!: bindr_mono assms option.const_mono)

section \<open>Fixed-width integers as bytes\<close>

text \<open>\<open>u32::to_be_bytes\<close> and \<open>u32::from_be_bytes\<close>.\<close>

definition u32_to_be_bytes :: "u32 \<Rightarrow> bytes" where
  "u32_to_be_bytes w =
     [ucast (drop_bit 24 w), ucast (drop_bit 16 w), ucast (drop_bit 8 w), ucast w]"

definition u32_from_be_bytes :: "bytes \<Rightarrow> u32" where
  "u32_from_be_bytes bs = foldl (\<lambda>acc b. push_bit 8 acc OR ucast b) 0 bs"

lemma length_u32_to_be_bytes [simp]: "length (u32_to_be_bytes w) = 4"
  by (simp add: u32_to_be_bytes_def)

lemma u32_from_to_be_bytes [simp]: "u32_from_be_bytes (u32_to_be_bytes w) = w"
proof (rule bit_word_eqI)
  fix n :: nat
  assume "n < LENGTH(32)"
  then have "n < 8 \<or> (8 \<le> n \<and> n < 16) \<or> (16 \<le> n \<and> n < 24) \<or> (24 \<le> n \<and> n < 32)" by auto
  then show "bit (u32_from_be_bytes (u32_to_be_bytes w)) n \<longleftrightarrow> bit w n"
    by (auto simp: u32_from_be_bytes_def u32_to_be_bytes_def bit_simps)
qed

lemma u32_to_from_be_bytes:
  assumes "length bs = 4"
  shows "u32_to_be_bytes (u32_from_be_bytes bs) = bs"
proof -
  obtain a b c d where bs: "bs = [a, b, c, d]"
    using assms by (auto simp: numeral_eq_Suc length_Suc_conv)
  let ?w = "push_bit 8 (push_bit 8 (push_bit 8 (ucast a) OR ucast b) OR ucast c) OR (ucast d :: u32)"
  have "ucast (drop_bit 24 ?w) = a" "ucast (drop_bit 16 ?w) = b" "ucast (drop_bit 8 ?w) = c" "ucast ?w = d"
    by (rule bit_word_eqI, simp add: bit_simps, (auto dest: bit_imp_le_length; fail)?)+
  then show ?thesis by (simp add: bs u32_to_be_bytes_def u32_from_be_bytes_def)
qed

text \<open>The big-endian order is the numeric one.\<close>

lemma u32_be_value:
  fixes w :: u32
  shows "unat w = unat (ucast (drop_bit 24 w) :: u8) * 2 ^ 24 + unat (ucast (drop_bit 16 w) :: u8) * 2 ^ 16
    + unat (ucast (drop_bit 8 w) :: u8) * 2 ^ 8 + unat (ucast w :: u8)"
proof -
  have "unat w = unat w div 2 ^ 8 * 256 + unat w mod 256" by simp
  moreover have "unat w div 2 ^ 8 = unat w div 2 ^ 16 * 256 + unat w div 2 ^ 8 mod 256"
    using div_mult_mod_eq [of "unat w div 2 ^ 8" 256] by (simp add: div_mult2_eq [symmetric])
  moreover have "unat w div 2 ^ 16 = unat w div 2 ^ 24 * 256 + unat w div 2 ^ 16 mod 256"
    using div_mult_mod_eq [of "unat w div 2 ^ 16" 256] by (simp add: div_mult2_eq [symmetric])
  moreover have "x = a * 256 + p \<Longrightarrow> a = b * 256 + q \<Longrightarrow> b = c * 256 + r \<Longrightarrow>
      x = c * 2 ^ 24 + r * 2 ^ 16 + q * 2 ^ 8 + p" for x a b c p q r :: nat by simp
  ultimately have "unat w = unat w div 2 ^ 24 * 2 ^ 24 + unat w div 2 ^ 16 mod 256 * 2 ^ 16
      + unat w div 2 ^ 8 mod 256 * 2 ^ 8 + unat w mod 256" by metis
  moreover have "unat w div 2 ^ 24 < 256" using unsigned_less [of w] by (simp add: div_less_iff_less_mult)
  then have "unat w div 2 ^ 24 mod 256 = unat w div 2 ^ 24" by (rule mod_less)
  ultimately show ?thesis
    by (simp add: unat_drop_bit_eq drop_bit_eq_div [where 'a = nat] unsigned_ucast_eq take_bit_eq_mod)
qed

lemma u32_to_be_bytes_less: "u32_to_be_bytes v < u32_to_be_bytes w \<longleftrightarrow> v < w"
proof -
  have b: "unat (x :: u8) < 256" for x using unsigned_less [of x] by simp
  have "v < w \<longleftrightarrow> unat v < unat w" by (simp add: word_less_nat_alt)
  moreover note u32_be_value [of v] u32_be_value [of w]
    b [of "ucast (drop_bit 24 v)"] b [of "ucast (drop_bit 16 v)"] b [of "ucast (drop_bit 8 v)"] b [of "ucast v"]
    b [of "ucast (drop_bit 24 w)"] b [of "ucast (drop_bit 16 w)"] b [of "ucast (drop_bit 8 w)"] b [of "ucast w"]
  ultimately show ?thesis
    unfolding u32_to_be_bytes_def by (simp add: word_less_nat_alt word_unat_eq_iff) linarith
qed

lemma u32_to_be_bytes_inj: "u32_to_be_bytes v = u32_to_be_bytes w \<longleftrightarrow> v = w"
  by (metis u32_from_to_be_bytes)

section \<open>Lists\<close>

text \<open>
  \<open>slice::binary_search\<close> on a slice sorted without duplicates: \<open>Inr i\<close> is \<open>Ok(i)\<close>, the
  position of the key, and \<open>Inl i\<close> is \<open>Err(i)\<close>, the position where it would be inserted.
  \<open>slice::partition_point\<close> is the length of the prefix that satisfies the predicate.
\<close>

definition partition_point :: "('a \<Rightarrow> bool) \<Rightarrow> 'a list \<Rightarrow> nat" where
  "partition_point P xs = length (takeWhile P xs)"

definition binary_search :: "'a::linorder list \<Rightarrow> 'a \<Rightarrow> nat + nat" where
  "binary_search xs x = (let i = partition_point (\<lambda>y. y < x) xs in
     if i < length xs \<and> xs ! i = x then Inr i else Inl i)"

text \<open>\<open>Vec::insert\<close> and \<open>Vec::remove\<close>.\<close>

definition list_insert_at :: "nat \<Rightarrow> 'a \<Rightarrow> 'a list \<Rightarrow> 'a list" where
  "list_insert_at i x xs = take i xs @ x # drop i xs"

definition list_remove_at :: "nat \<Rightarrow> 'a list \<Rightarrow> 'a list" where
  "list_remove_at i xs = take i xs @ drop (Suc i) xs"

lemma filter_sorted_eq_takeWhile:
  "sorted_wrt (<) (map f xs) \<Longrightarrow> takeWhile (\<lambda>x. f x < k) xs = filter (\<lambda>x. f x < (k::'a::linorder)) xs"
proof (induction xs)
  case (Cons x xs)
  then show ?case
    by (fastforce simp: filter_empty_conv intro: sym)
qed simp

lemma filter_sorted_eq_dropWhile:
  "sorted_wrt (<) (map f xs) \<Longrightarrow> dropWhile (\<lambda>x. f x < k) xs = filter (\<lambda>x. (k::'a::linorder) \<le> f x) xs"
proof (induction xs)
  case (Cons x xs)
  then show ?case
    by (cases "f x < k") (fastforce simp: not_less intro: sym filter_id_conv [THEN iffD2])+
qed simp

lemma sorted_wrt_less_filter: "sorted_wrt (<) (map f xs) \<Longrightarrow> sorted_wrt (<) (map f (filter P xs))"
  by (induction xs) auto

lemma sorted_wrt_less_distinct: "sorted_wrt (<) (xs :: 'a::linorder list) \<Longrightarrow> distinct xs"
  using strict_sorted_iff by blast

lemma append_less_append [simp]: "p @ xs < p @ ys \<longleftrightarrow> xs < (ys :: 'a::order list)"
  by (induction p) simp_all

lemma ball_take: "\<forall>x\<in>set xs. P x \<Longrightarrow> \<forall>x\<in>set (take n xs). P x"
  by (meson in_set_takeD)

lemma ball_drop: "\<forall>x\<in>set xs. P x \<Longrightarrow> \<forall>x\<in>set (drop n xs). P x"
  by (meson in_set_dropD)

end
