(* ===== verification/Tree_Node.thy ===== *)
theory Tree_Node
  imports Prelude
begin

text \<open>
  The data of \<^verbatim>\<open>src/runtime/tree_db.rs\<close>: the nodes of the persistent Merkle B+ tree, their
  identifiers, the keys under which the tree stores its nodes and metadata in RocksDB, the
  search inside a node, and the third-party services the code calls.

  Those services (the RocksDB handle, SHA-256, the Borsh codec) are the fields of the record
  \<open>env\<close>, passed to every operation that uses them. What the code relies on is stated by
  \<open>env_ok\<close>: a database is a finite map, reads return what was written, a batch is applied in
  order, an iterator lists the map in key order, and decoding inverts encoding.
\<close>

section \<open>Nodes\<close>

record leaf_entry =
  le_key :: bytes
  le_value :: "bytes option"

record leaf_node =
  entries :: "leaf_entry list"
  next_leaf :: "bytes option"

record internal_node =
  sep_keys :: "bytes list"
  children :: "bytes list"

datatype bptree_node = Leaf leaf_node | Internal internal_node

datatype mutation_outcome = Node bytes | Split bytes bytes bytes

definition default_leaf :: leaf_node where
  "default_leaf = \<lparr>entries = [], next_leaf = None\<rparr>"

definition default_internal :: internal_node where
  "default_internal = \<lparr>sep_keys = [], children = []\<rparr>"

definition MAX_LEAF_ENTRIES :: nat where
  "MAX_LEAF_ENTRIES = 128"

definition MAX_INTERNAL_KEYS :: nat where
  "MAX_INTERNAL_KEYS = 128"

definition NODE_PAGE_BYTES :: nat where
  "NODE_PAGE_BYTES = 16 * 1024"

section \<open>Third-party services\<close>

typedecl rocks_error

datatype batch_op = BPut bytes bytes | BDelete bytes

datatype direction = Forward | Reverse

datatype iter_mode = IterEnd | IterFrom bytes direction

record 'db env =
  db_get :: "'db \<Rightarrow> bytes \<Rightarrow> rocks_error + bytes option"
  db_multi_get :: "'db \<Rightarrow> bytes list \<Rightarrow> (rocks_error + bytes option) list"
  db_put :: "'db \<Rightarrow> bytes \<Rightarrow> bytes \<Rightarrow> (rocks_error + unit) \<times> 'db"
  db_delete :: "'db \<Rightarrow> bytes \<Rightarrow> (rocks_error + unit) \<times> 'db"
  db_write :: "'db \<Rightarrow> batch_op list \<Rightarrow> (rocks_error + unit) \<times> 'db"
  db_iterator :: "'db \<Rightarrow> iter_mode \<Rightarrow> (rocks_error + bytes \<times> bytes) list"
  sha256 :: "bytes \<Rightarrow> bytes"
  borsh_to_vec :: "bptree_node \<Rightarrow> bytes"
  borsh_try_from_slice :: "bytes \<Rightarrow> bptree_node option"

text \<open>What a batch does to the map a database holds, and the map as an ordered list.\<close>

fun batch_effect :: "batch_op \<Rightarrow> (bytes \<rightharpoonup> bytes) \<Rightarrow> (bytes \<rightharpoonup> bytes)" where
  "batch_effect (BPut k v) m = m(k \<mapsto> v)"
| "batch_effect (BDelete k) m = m(k := None)"

definition map_entries :: "(bytes \<rightharpoonup> bytes) \<Rightarrow> (bytes \<times> bytes) list" where
  "map_entries m = map (\<lambda>k. (k, the (m k))) (sorted_list_of_set (dom m))"

fun iter_entries :: "(bytes \<rightharpoonup> bytes) \<Rightarrow> iter_mode \<Rightarrow> (bytes \<times> bytes) list" where
  "iter_entries m IterEnd = rev (map_entries m)"
| "iter_entries m (IterFrom k Forward) = filter (\<lambda>e. k \<le> fst e) (map_entries m)"
| "iter_entries m (IterFrom k Reverse) = rev (filter (\<lambda>e. fst e \<le> k) (map_entries m))"

text \<open>
  The documented behaviour the code relies on, when no I/O error occurs: \<open>C db\<close> is the map
  the database \<open>db\<close> holds.
\<close>

definition rocks_reads :: "('db, 'z) env_scheme \<Rightarrow> ('db \<Rightarrow> bytes \<rightharpoonup> bytes) \<Rightarrow> bool" where
  "rocks_reads E C \<longleftrightarrow> (\<forall>db k. db_get E db k = Inr (C db k))
     \<and> (\<forall>db ks. db_multi_get E db ks = map (\<lambda>k. Inr (C db k)) ks)
     \<and> (\<forall>db md. db_iterator E db md = map Inr (iter_entries (C db) md))
     \<and> (\<forall>db. finite (dom (C db)))"

definition rocks_writes :: "('db, 'z) env_scheme \<Rightarrow> ('db \<Rightarrow> bytes \<rightharpoonup> bytes) \<Rightarrow> bool" where
  "rocks_writes E C \<longleftrightarrow>
     (\<forall>db k v. fst (db_put E db k v) = Inr () \<and> C (snd (db_put E db k v)) = (C db)(k \<mapsto> v))
     \<and> (\<forall>db k. fst (db_delete E db k) = Inr () \<and> C (snd (db_delete E db k)) = (C db)(k := None))
     \<and> (\<forall>db ops. fst (db_write E db ops) = Inr ()
          \<and> C (snd (db_write E db ops)) = fold batch_effect ops (C db))"

definition borsh_inverse :: "('db, 'z) env_scheme \<Rightarrow> bool" where
  "borsh_inverse E \<longleftrightarrow> (\<forall>n. borsh_try_from_slice E (borsh_to_vec E n) = Some n)"

definition env_ok :: "('db, 'z) env_scheme \<Rightarrow> ('db \<Rightarrow> bytes \<rightharpoonup> bytes) \<Rightarrow> bool" where
  "env_ok E C \<longleftrightarrow> rocks_reads E C \<and> rocks_writes E C \<and> borsh_inverse E"

named_theorems env_simps \<open>what a lawful environment returns\<close>

lemma env_ok_get [env_simps]: "env_ok E C \<Longrightarrow> db_get E db k = Inr (C db k)"
  by (simp add: env_ok_def rocks_reads_def)

lemma env_ok_multi_get [env_simps]:
  "env_ok E C \<Longrightarrow> db_multi_get E db ks = map (\<lambda>k. Inr (C db k)) ks"
  by (simp add: env_ok_def rocks_reads_def)

lemma env_ok_iterator [env_simps]:
  "env_ok E C \<Longrightarrow> db_iterator E db md = map Inr (iter_entries (C db) md)"
  by (simp add: env_ok_def rocks_reads_def)

lemma env_ok_finite [env_simps]: "env_ok E C \<Longrightarrow> finite (dom (C db))"
  by (simp add: env_ok_def rocks_reads_def)

lemma env_ok_put [env_simps]:
  "env_ok E C \<Longrightarrow> fst (db_put E db k v) = Inr ()"
  "env_ok E C \<Longrightarrow> C (snd (db_put E db k v)) = (C db)(k \<mapsto> v)"
  by (simp_all add: env_ok_def rocks_writes_def)

lemma env_ok_delete [env_simps]:
  "env_ok E C \<Longrightarrow> fst (db_delete E db k) = Inr ()"
  "env_ok E C \<Longrightarrow> C (snd (db_delete E db k)) = (C db)(k := None)"
  by (simp_all add: env_ok_def rocks_writes_def)

lemma env_ok_write [env_simps]:
  "env_ok E C \<Longrightarrow> fst (db_write E db ops) = Inr ()"
  "env_ok E C \<Longrightarrow> C (snd (db_write E db ops)) = fold batch_effect ops (C db)"
  by (simp_all add: env_ok_def rocks_writes_def)

lemma env_ok_borsh [env_simps]:
  "env_ok E C \<Longrightarrow> borsh_try_from_slice E (borsh_to_vec E n) = Some n"
  by (simp add: env_ok_def borsh_inverse_def)

section \<open>Identifiers, pages and database keys\<close>

definition hash_node :: "('db, 'z) env_scheme \<Rightarrow> bptree_node \<Rightarrow> bytes" where
  "hash_node E node = sha256 E (borsh_to_vec E node)"

definition encode_node_page :: "('db, 'z) env_scheme \<Rightarrow> bptree_node \<Rightarrow> bytes" where
  "encode_node_page E node = borsh_to_vec E node"

definition decode_node_page :: "('db, 'z) env_scheme \<Rightarrow> bytes \<Rightarrow> bptree_node option" where
  "decode_node_page E bs = (case borsh_try_from_slice E bs of
       Some node \<Rightarrow> Some node
     | None \<Rightarrow>
         (if length bs = NODE_PAGE_BYTES then
            (if length bs < 4 then None
             else let payload_len = unat (u32_from_be_bytes (take 4 bs)) in
               if payload_len + 4 > NODE_PAGE_BYTES then None
               else borsh_try_from_slice E (take payload_len (drop 4 bs)))
          else None))"

definition empty_root_id :: "('db, 'z) env_scheme \<Rightarrow> bytes" where
  "empty_root_id E = hash_node E (Leaf default_leaf)"

definition ascii :: "string \<Rightarrow> bytes" where
  "ascii s = map of_char s"

definition ROOT_PREFIX :: bytes where
  "ROOT_PREFIX = ascii ''__espo_bptree:''"

definition NODE_PREFIX :: bytes where
  "NODE_PREFIX = ascii ''__espo_bptree:node:''"

definition META_ACTIVE_ROOT :: bytes where
  "META_ACTIVE_ROOT = ascii ''__espo_bptree:meta:active_root''"

definition META_ACTIVE_BLOCK :: bytes where
  "META_ACTIVE_BLOCK = ascii ''__espo_bptree:meta:active_block''"

definition META_PINNED_ROOT :: bytes where
  "META_PINNED_ROOT = ascii ''__espo_bptree:meta:pinned_root''"

definition META_PIN_UNTIL_HEIGHT :: bytes where
  "META_PIN_UNTIL_HEIGHT = ascii ''__espo_bptree:meta:pin_until_height''"

definition BLOCK_ROOT_PREFIX :: bytes where
  "BLOCK_ROOT_PREFIX = ascii ''__espo_bptree:block:''"

definition HEIGHT_BLOCK_PREFIX :: bytes where
  "HEIGHT_BLOCK_PREFIX = ascii ''__espo_bptree:height:''"

definition BLOCK_HEIGHT_PREFIX :: bytes where
  "BLOCK_HEIGHT_PREFIX = ascii ''__espo_bptree:block_height:''"

definition BLOCK_PARENT_PREFIX :: bytes where
  "BLOCK_PARENT_PREFIX = ascii ''__espo_bptree:parent:''"

definition node_key :: "bytes \<Rightarrow> bytes" where
  "node_key i = NODE_PREFIX @ i"

definition block_root_key :: "bytes \<Rightarrow> bytes" where
  "block_root_key h = BLOCK_ROOT_PREFIX @ h"

definition height_block_key :: "u32 \<Rightarrow> bytes" where
  "height_block_key height = HEIGHT_BLOCK_PREFIX @ u32_to_be_bytes height"

definition block_height_key :: "bytes \<Rightarrow> bytes" where
  "block_height_key h = BLOCK_HEIGHT_PREFIX @ h"

definition block_parent_key :: "bytes \<Rightarrow> bytes" where
  "block_parent_key h = BLOCK_PARENT_PREFIX @ h"

text \<open>\<open>slice::starts_with\<close>.\<close>

definition starts_with :: "bytes \<Rightarrow> bytes \<Rightarrow> bool" where
  "starts_with k p \<longleftrightarrow> take (length p) k = p"

definition decode_height_block_key :: "bytes \<Rightarrow> u32 option" where
  "decode_height_block_key k =
     (if length k \<noteq> length HEIGHT_BLOCK_PREFIX + 4 \<or> \<not> starts_with k HEIGHT_BLOCK_PREFIX then None
      else Some (u32_from_be_bytes (drop (length HEIGHT_BLOCK_PREFIX) k)))"

definition is_tree_internal_key :: "bytes \<Rightarrow> bool" where
  "is_tree_internal_key full_key \<longleftrightarrow> starts_with full_key ROOT_PREFIX"

lemmas prefix_defs = ROOT_PREFIX_def NODE_PREFIX_def META_ACTIVE_ROOT_def META_ACTIVE_BLOCK_def
  META_PINNED_ROOT_def META_PIN_UNTIL_HEIGHT_def BLOCK_ROOT_PREFIX_def HEIGHT_BLOCK_PREFIX_def
  BLOCK_HEIGHT_PREFIX_def BLOCK_PARENT_PREFIX_def ascii_def

lemmas key_defs = node_key_def block_root_key_def height_block_key_def block_height_key_def
  block_parent_key_def

text \<open>The key spaces of the tree are disjoint, and each key determines what it is the key of.\<close>

lemma node_key_neq [simp]:
  "node_key i \<noteq> META_ACTIVE_ROOT" "node_key i \<noteq> META_ACTIVE_BLOCK"
  "node_key i \<noteq> META_PINNED_ROOT" "node_key i \<noteq> META_PIN_UNTIL_HEIGHT"
  "node_key i \<noteq> block_root_key h" "node_key i \<noteq> height_block_key n"
  "node_key i \<noteq> block_height_key h" "node_key i \<noteq> block_parent_key h"
  "META_ACTIVE_ROOT \<noteq> node_key i" "META_ACTIVE_BLOCK \<noteq> node_key i"
  "META_PINNED_ROOT \<noteq> node_key i" "META_PIN_UNTIL_HEIGHT \<noteq> node_key i"
  "block_root_key h \<noteq> node_key i" "height_block_key n \<noteq> node_key i"
  "block_height_key h \<noteq> node_key i" "block_parent_key h \<noteq> node_key i"
  by (simp_all add: key_defs prefix_defs)

lemma meta_keys_neq [simp]:
  "META_ACTIVE_ROOT \<noteq> META_ACTIVE_BLOCK" "META_ACTIVE_ROOT \<noteq> META_PINNED_ROOT"
  "META_ACTIVE_ROOT \<noteq> META_PIN_UNTIL_HEIGHT" "META_ACTIVE_BLOCK \<noteq> META_PINNED_ROOT"
  "META_ACTIVE_BLOCK \<noteq> META_PIN_UNTIL_HEIGHT" "META_PINNED_ROOT \<noteq> META_PIN_UNTIL_HEIGHT"
  "META_ACTIVE_BLOCK \<noteq> META_ACTIVE_ROOT" "META_PINNED_ROOT \<noteq> META_ACTIVE_ROOT"
  "META_PIN_UNTIL_HEIGHT \<noteq> META_ACTIVE_ROOT" "META_PINNED_ROOT \<noteq> META_ACTIVE_BLOCK"
  "META_PIN_UNTIL_HEIGHT \<noteq> META_ACTIVE_BLOCK" "META_PIN_UNTIL_HEIGHT \<noteq> META_PINNED_ROOT"
  by (simp_all add: prefix_defs)

lemma block_keys_neq_meta [simp]:
  "block_root_key h \<noteq> META_ACTIVE_ROOT" "block_root_key h \<noteq> META_ACTIVE_BLOCK"
  "block_root_key h \<noteq> META_PINNED_ROOT" "block_root_key h \<noteq> META_PIN_UNTIL_HEIGHT"
  "height_block_key n \<noteq> META_ACTIVE_ROOT" "height_block_key n \<noteq> META_ACTIVE_BLOCK"
  "height_block_key n \<noteq> META_PINNED_ROOT" "height_block_key n \<noteq> META_PIN_UNTIL_HEIGHT"
  "block_height_key h \<noteq> META_ACTIVE_ROOT" "block_height_key h \<noteq> META_ACTIVE_BLOCK"
  "block_height_key h \<noteq> META_PINNED_ROOT" "block_height_key h \<noteq> META_PIN_UNTIL_HEIGHT"
  "block_parent_key h \<noteq> META_ACTIVE_ROOT" "block_parent_key h \<noteq> META_ACTIVE_BLOCK"
  "block_parent_key h \<noteq> META_PINNED_ROOT" "block_parent_key h \<noteq> META_PIN_UNTIL_HEIGHT"
  by (simp_all add: key_defs prefix_defs)

lemmas block_keys_neq_meta_sym [simp] = block_keys_neq_meta [symmetric]

lemma block_keys_neq [simp]:
  "block_root_key g \<noteq> height_block_key n" "block_root_key g \<noteq> block_height_key h"
  "block_root_key g \<noteq> block_parent_key h" "height_block_key n \<noteq> block_height_key h"
  "height_block_key n \<noteq> block_parent_key h" "block_height_key g \<noteq> block_parent_key h"
  by (simp_all add: key_defs prefix_defs)

lemmas block_keys_neq_sym [simp] = block_keys_neq [symmetric]

lemma keys_inj [simp]:
  "node_key i = node_key j \<longleftrightarrow> i = j" "block_root_key g = block_root_key h \<longleftrightarrow> g = h"
  "height_block_key m = height_block_key n \<longleftrightarrow> m = n"
  "block_height_key g = block_height_key h \<longleftrightarrow> g = h"
  "block_parent_key g = block_parent_key h \<longleftrightarrow> g = h"
  by (simp_all add: key_defs u32_to_be_bytes_inj)

lemma starts_with_append [simp]: "starts_with (p @ s) p"
  by (simp add: starts_with_def)

lemma starts_with_iff: "starts_with k p \<longleftrightarrow> (\<exists>s. k = p @ s)"
  by (metis append_take_drop_id starts_with_append starts_with_def)

lemma decode_height_block_key_height [simp]: "decode_height_block_key (height_block_key n) = Some n"
  by (simp add: decode_height_block_key_def height_block_key_def)

lemma is_tree_internal_key_keys [simp]:
  "is_tree_internal_key (node_key i)" "is_tree_internal_key (block_root_key h)"
  "is_tree_internal_key (height_block_key n)" "is_tree_internal_key META_ACTIVE_ROOT"
  by (simp_all add: is_tree_internal_key_def starts_with_def key_defs prefix_defs)

lemma decode_encode_node_page [simp]:
  "env_ok E C \<Longrightarrow> decode_node_page E (encode_node_page E n) = Some n"
  by (simp add: decode_node_page_def encode_node_page_def env_simps)

end
