(* ===== verification/Tree_Search.thy ===== *)
theory Tree_Search
  imports Tree_Node
begin

text \<open>
  The two searches of \<^verbatim>\<open>src/runtime/tree_db.rs\<close> that every traversal rests on: the binary
  search for the child of an internal node (\<open>child_index_for_key\<close>) and the exclusive upper end of
  a prefix (\<open>prefix_end_exclusive\<close>).

  The contract of the child search is the locale \<open>child_search\<close>; the clients (the lookup, the
  mutation and the range scans) use only its consequences, and the loop of the source is an
  interpretation of it.
\<close>

section \<open>Choosing a child\<close>

function child_index_loop :: "bytes list \<Rightarrow> bytes \<Rightarrow> nat \<Rightarrow> nat \<Rightarrow> nat" where
  "child_index_loop ks k lo hi =
     (if lo < hi then
        let mid = (lo + hi) div 2 in
        if k < ks ! mid then child_index_loop ks k lo mid
        else child_index_loop ks k (mid + 1) hi
      else lo)"
  by pat_completeness auto
termination
  by (relation "measure (\<lambda>(ks, k, lo, hi). hi - lo)") (auto simp: Let_def)

declare child_index_loop.simps [simp del]

definition child_index_for_key :: "bytes list \<Rightarrow> bytes \<Rightarrow> nat" where
  "child_index_for_key ks k = child_index_loop ks k 0 (length ks)"

text \<open>The contract: the first separator greater than the key.\<close>

locale child_search =
  fixes search :: "bytes list \<Rightarrow> bytes \<Rightarrow> nat"
  assumes search_le: "search ks k \<le> length ks"
    and search_left: "sorted_wrt (<) ks \<Longrightarrow> i < search ks k \<Longrightarrow> ks ! i \<le> k"
    and search_right: "sorted_wrt (<) ks \<Longrightarrow> search ks k \<le> i \<Longrightarrow> i < length ks \<Longrightarrow> k < ks ! i"
begin

lemma search_takeWhile:
  assumes "sorted_wrt (<) ks"
  shows "takeWhile (\<lambda>s. s \<le> k) ks = take (search ks k) ks"
proof (rule takeWhile_eq_take_P_nth)
  show "ks ! i \<le> k" if "i < search ks k" "i < length ks" for i
    using that assms by (simp add: search_left)
  show "\<not> ks ! search ks k \<le> k" if "search ks k < length ks"
    using that assms by (simp add: search_right not_le)
qed

lemma search_split:
  assumes "sorted_wrt (<) ks"
  shows "\<forall>s\<in>set (take (search ks k) ks). s \<le> k" "\<forall>s\<in>set (drop (search ks k) ks). k < s"
proof -
  show "\<forall>s\<in>set (take (search ks k) ks). s \<le> k"
    using assms by (auto simp: in_set_conv_nth search_left)
  show "\<forall>s\<in>set (drop (search ks k) ks). k < s"
  proof
    fix s
    assume "s \<in> set (drop (search ks k) ks)"
    then obtain i where "i < length ks - search ks k" "s = ks ! (search ks k + i)"
      by (auto simp: in_set_conv_nth)
    then show "k < s" using assms by (simp add: search_right)
  qed
qed

text \<open>Keys in increasing order choose children in increasing order.\<close>

lemma search_mono:
  assumes "sorted_wrt (<) ks" "k \<le> k'"
  shows "search ks k \<le> search ks k'"
proof (rule ccontr)
  assume "\<not> search ks k \<le> search ks k'"
  then have lt: "search ks k' < search ks k" by simp
  then have "search ks k' < length ks" using search_le [of ks k] by simp
  then have "k' < ks ! search ks k'" using assms(1) by (simp add: search_right)
  moreover have "ks ! search ks k' \<le> k" using assms(1) lt by (simp add: search_left)
  ultimately show False using assms(2) by simp
qed

end

lemma child_index_loop_unfold:
  "lo < hi \<Longrightarrow> k < ks ! ((lo + hi) div 2) \<Longrightarrow>
     child_index_loop ks k lo hi = child_index_loop ks k lo ((lo + hi) div 2)"
  "lo < hi \<Longrightarrow> \<not> k < ks ! ((lo + hi) div 2) \<Longrightarrow>
     child_index_loop ks k lo hi = child_index_loop ks k ((lo + hi) div 2 + 1) hi"
  "\<not> lo < hi \<Longrightarrow> child_index_loop ks k lo hi = lo"
  by (subst child_index_loop.simps, simp add: Let_def)+

lemma child_index_loop_bounds:
  "lo \<le> hi \<Longrightarrow> lo \<le> child_index_loop ks k lo hi \<and> child_index_loop ks k lo hi \<le> hi"
proof (induction ks k lo hi rule: child_index_loop.induct)
  case (1 ks k lo hi)
  let ?m = "(lo + hi) div 2"
  show ?case
  proof (cases "lo < hi")
    case True
    then have m: "lo \<le> ?m" "?m < hi" by auto
    show ?thesis
    proof (cases "k < ks ! ?m")
      case less: True
      from 1(1) [OF True refl less] m show ?thesis
        by (auto simp: child_index_loop_unfold(1) [OF True less])
    next
      case False
      from 1(2) [OF True refl False] m show ?thesis
        by (auto simp: child_index_loop_unfold(2) [OF True False])
    qed
  next
    case False
    with 1 show ?thesis by (simp add: child_index_loop_unfold(3))
  qed
qed

lemma child_index_loop_correct:
  assumes "sorted_wrt (<) ks" "lo \<le> hi" "hi \<le> length ks"
    and "\<And>i. i < lo \<Longrightarrow> ks ! i \<le> k" "\<And>i. hi \<le> i \<Longrightarrow> i < length ks \<Longrightarrow> k < ks ! i"
  shows "(\<forall>i<child_index_loop ks k lo hi. ks ! i \<le> k)
    \<and> (\<forall>i. child_index_loop ks k lo hi \<le> i \<and> i < length ks \<longrightarrow> k < ks ! i)"
  using assms
proof (induction ks k lo hi rule: child_index_loop.induct)
  case (1 ks k lo hi)
  let ?m = "(lo + hi) div 2"
  have mono: "ks ! i \<le> ks ! j" if "i \<le> j" "j < length ks" for i j
    using sorted_wrt_nth_less [OF 1(3)] that by (cases "i = j") (auto intro: less_imp_le)
  show ?case
  proof (cases "lo < hi")
    case True
    then have m: "lo \<le> ?m" "?m < hi" by auto
    show ?thesis
    proof (cases "k < ks ! ?m")
      case less: True
      have "k < ks ! i" if "?m \<le> i" "i < length ks" for i
        using less mono [OF that] by (rule less_le_trans)
      then show ?thesis
        unfolding child_index_loop_unfold(1) [OF True less]
        by (intro 1(1) [OF True refl less 1(3) m(1)]) (use m(2) 1(5,6) in auto)
    next
      case False
      have "ks ! i \<le> k" if "i < ?m + 1" for i
        using False mono [of i ?m] m 1(5) that by simp
      then show ?thesis
        unfolding child_index_loop_unfold(2) [OF True False]
        by (intro 1(2) [OF True refl False 1(3)]) (use m(2) 1(5,7) in auto)
    qed
  next
    case False
    with 1(4) have "lo = hi" by simp
    then show ?thesis using 1(6,7) by (simp add: child_index_loop_unfold(3))
  qed
qed

lemma child_index_for_key_correct:
  assumes "sorted_wrt (<) ks"
  shows "(\<forall>i<child_index_for_key ks k. ks ! i \<le> k)
    \<and> (\<forall>i. child_index_for_key ks k \<le> i \<and> i < length ks \<longrightarrow> k < ks ! i)"
  unfolding child_index_for_key_def by (rule child_index_loop_correct) (simp_all add: assms)

interpretation cs: child_search child_index_for_key
proof
  fix ks k
  show "child_index_for_key ks k \<le> length ks"
    using child_index_loop_bounds [of 0 "length ks" ks k] by (simp add: child_index_for_key_def)
next
  fix ks k i
  assume "sorted_wrt (<) ks" "i < child_index_for_key ks k"
  then show "ks ! i \<le> k"
    using child_index_for_key_correct [of ks k] by simp
next
  fix ks k i
  assume "sorted_wrt (<) ks" "child_index_for_key ks k \<le> i" "i < length ks"
  then show "k < ks ! i"
    using child_index_for_key_correct [of ks k] by simp
qed

section \<open>The end of a prefix\<close>

text \<open>\<open>u8::saturating_add\<close>.\<close>

definition u8_saturating_add :: "u8 \<Rightarrow> u8 \<Rightarrow> u8" where
  "u8_saturating_add a b = (if unat a + unat b < 256 then a + b else 255)"

fun prefix_end_loop :: "bytes \<Rightarrow> nat \<Rightarrow> bytes option" where
  "prefix_end_loop p 0 = None"
| "prefix_end_loop p (Suc i) =
     (if p ! i \<noteq> 255 then Some (take (i + 1) (p[i := u8_saturating_add (p ! i) 1]))
      else prefix_end_loop p i)"

definition prefix_end_exclusive :: "bytes \<Rightarrow> bytes option" where
  "prefix_end_exclusive prefix = prefix_end_loop prefix (length prefix)"

lemma u8_top: "c \<le> (255 :: u8)"
  by unat_arith simp

lemma u8_saturating_add_1: "b \<noteq> 255 \<Longrightarrow> u8_saturating_add b 1 = b + 1"
  using u8_top [of b] by (simp add: u8_saturating_add_def word_le_nat_alt) unat_arith

lemma u8_less_succ: "b \<noteq> (255 :: u8) \<Longrightarrow> c < b + 1 \<longleftrightarrow> c \<le> b"
  by unat_arith auto

lemma prefix_end_loop_Cons:
  "prefix_end_loop (b # p) (Suc i) = (case prefix_end_loop p i of
      Some e \<Rightarrow> Some (b # e)
    | None \<Rightarrow> if b \<noteq> 255 then Some [b + 1] else None)"
  by (induction i) (auto simp: u8_saturating_add_1)

lemma prefix_end_Nil: "prefix_end_exclusive [] = None"
  by (simp add: prefix_end_exclusive_def)

lemma prefix_end_Cons:
  "prefix_end_exclusive (b # p) = (case prefix_end_exclusive p of
      Some e \<Rightarrow> Some (b # e) | None \<Rightarrow> if b \<noteq> 255 then Some [b + 1] else None)"
  by (simp add: prefix_end_exclusive_def prefix_end_loop_Cons del: prefix_end_loop.simps)

definition below :: "bytes option \<Rightarrow> bytes \<Rightarrow> bool" where
  "below hi k \<longleftrightarrow> (case hi of None \<Rightarrow> True | Some e \<Rightarrow> k < e)"

lemma below_simps [simp]: "below None k" "below (Some e) k \<longleftrightarrow> k < e"
  by (simp_all add: below_def)

lemma below_trans: "k \<le> k' \<Longrightarrow> below hi k' \<Longrightarrow> below hi k"
  by (cases hi) auto

lemma prefix_end_range: "starts_with k p \<longleftrightarrow> p \<le> k \<and> below (prefix_end_exclusive p) k"
proof (induction p arbitrary: k)
  case Nil
  then show ?case by (simp add: starts_with_def prefix_end_Nil)
next
  case (Cons b p)
  show ?case
  proof (cases k)
    case Nil
    then show ?thesis by (simp add: starts_with_def)
  next
    case (Cons c k')
    have sw: "starts_with k (b # p) \<longleftrightarrow> c = b \<and> starts_with k' p"
      by (auto simp: Cons starts_with_def)
    show ?thesis
    proof (cases "prefix_end_exclusive p")
      case None
      with Cons.IH [of k'] have "starts_with k' p \<longleftrightarrow> p \<le> k'" by simp
      with None sw show ?thesis
        using u8_top [of c] by (auto simp: Cons prefix_end_Cons u8_less_succ)
    next
      case (Some e)
      with Cons.IH [of k'] have "starts_with k' p \<longleftrightarrow> p \<le> k' \<and> k' < e" by simp
      with Some sw show ?thesis
        by (auto simp: Cons prefix_end_Cons)
    qed
  qed
qed

end
