(* ===== verification/Ordered_Kv.thy ===== *)
theory Ordered_Kv
  imports Tree_Search
begin

text \<open>
  The contract of a versioned ordered key-value structure, and what follows from it alone.

  The contents of a version are its live entries in strictly increasing key order, and a write
  (\<open>Some v\<close>) or delete (\<open>None\<close>) of one key acts on that list as \<open>kv_apply\<close>. The locale
  \<open>ordered_kv\<close> states this; its clients obtain lookups, batches with last-write-wins semantics
  and prefix scans. The B+ tree of \<open>Tree_Spec\<close> interprets it.
\<close>

type_synonym kvs = "(bytes \<times> bytes) list"
type_synonym change = "bytes \<times> bytes option"

abbreviation sorted_kvs :: "kvs \<Rightarrow> bool" where
  "sorted_kvs xs \<equiv> sorted_wrt (<) (map fst xs)"

definition kv_apply :: "bytes \<Rightarrow> bytes option \<Rightarrow> kvs \<Rightarrow> kvs" where
  "kv_apply k v xs = filter (\<lambda>e. fst e < k) xs @ (case v of None \<Rightarrow> [] | Some w \<Rightarrow> [(k, w)])
     @ filter (\<lambda>e. k < fst e) xs"

definition kv_changes :: "change list \<Rightarrow> (bytes \<rightharpoonup> bytes) \<Rightarrow> (bytes \<rightharpoonup> bytes)" where
  "kv_changes cs m = foldl (\<lambda>m c. m(fst c := snd c)) m cs"

definition kv_range :: "bytes \<Rightarrow> bytes option \<Rightarrow> kvs \<Rightarrow> kvs" where
  "kv_range lo hi xs = filter (\<lambda>e. lo \<le> fst e \<and> below hi (fst e)) xs"

lemma kv_apply_append:
  assumes "\<forall>e\<in>set xs. fst e < k" "\<forall>e\<in>set zs. k < fst e"
  shows "kv_apply k v (xs @ ys @ zs) = xs @ kv_apply k v ys @ zs"
proof -
  have "\<forall>e\<in>set xs. \<not> k < fst e" "\<forall>e\<in>set zs. \<not> fst e < k" using assms by (auto dest: order.asym)
  with assms show ?thesis by (simp add: kv_apply_def)
qed

lemma kv_apply_id:
  assumes "sorted_kvs xs" "map_of xs k = v"
  shows "kv_apply k v xs = xs"
  using assms
proof (induction xs)
  case (Cons x xs)
  obtain k' w where x: "x = (k', w)" by (cases x)
  have gt: "\<forall>e\<in>set xs. k' < fst e" using Cons.prems(1) by (auto simp: x)
  consider "k' < k" | "k' = k" | "k < k'" by (rule linorder_cases)
  then show ?case
  proof cases
    case 1
    then show ?thesis using Cons by (auto simp: x kv_apply_def)
  next
    case 2
    with gt have "filter (\<lambda>e. fst e < k) xs = []" "filter (\<lambda>e. k < fst e) xs = xs"
      by (auto simp: filter_empty_conv dest: order.asym)
    with 2 Cons.prems(2) show ?thesis by (auto simp: x kv_apply_def)
  next
    case 3
    with gt have all: "\<forall>e\<in>set xs. k < fst e" by (auto dest: order.strict_trans)
    then have "map_of xs k = None" by (force simp: map_of_eq_None_iff)
    with 3 Cons.prems(2) have "v = None" by (auto simp: x)
    moreover have "filter (\<lambda>e. fst e < k) xs = []" "filter (\<lambda>e. k < fst e) xs = xs"
      using all by (auto simp: filter_empty_conv dest: order.asym)
    ultimately show ?thesis using 3 by (auto simp: x kv_apply_def)
  qed
qed (auto simp: kv_apply_def)

lemma sorted_kv_apply: "sorted_kvs xs \<Longrightarrow> sorted_kvs (kv_apply k v xs)"
  by (auto simp: kv_apply_def sorted_wrt_append sorted_wrt_less_filter dest: order.strict_trans
      split: option.split)

lemma map_of_filter_key: "map_of (filter (\<lambda>e. P (fst e)) xs) k = (if P k then map_of xs k else None)"
  by (induction xs) auto

lemma map_of_kv_apply: "map_of (kv_apply k v xs) = (map_of xs)(k := v)"
proof
  fix j
  show "map_of (kv_apply k v xs) j = ((map_of xs)(k := v)) j"
    using map_of_filter_key [of "\<lambda>x. x < k" xs j] map_of_filter_key [of "\<lambda>x. k < x" xs j]
    by (cases j k rule: linorder_cases; cases v)
      (auto simp: kv_apply_def map_add_def dest: order.asym split: option.split)
qed

lemma kv_changes_Nil [simp]: "kv_changes [] m = m"
  by (simp add: kv_changes_def)

lemma kv_changes_Cons [simp]: "kv_changes (c # cs) m = kv_changes cs (m(fst c := snd c))"
  by (simp add: kv_changes_def)

lemma kv_changes_append [simp]: "kv_changes (cs @ ds) m = kv_changes ds (kv_changes cs m)"
  by (simp add: kv_changes_def)

lemma sorted_kvs_eqI:
  assumes "sorted_kvs xs" "sorted_kvs ys" "map_of xs = map_of ys"
  shows "xs = ys"
proof -
  have "distinct (map fst xs)" "distinct (map fst ys)"
    using assms(1,2) by (simp_all add: strict_sorted_iff)
  with assms(3) have eq: "set xs = set ys" by (simp add: map_of_inject_set)
  have "inj_on fst (set xs \<union> set ys)"
    using \<open>distinct (map fst xs)\<close> by (simp add: eq distinct_map)
  then show ?thesis
    using assms(1,2) eq map_sorted_distinct_set_unique [of fst xs ys]
    by (auto simp: strict_sorted_iff)
qed

locale ordered_kv =
  fixes inv :: "'v \<Rightarrow> bool"
    and live :: "'v \<Rightarrow> kvs"
    and apply1 :: "bytes \<Rightarrow> bytes option \<Rightarrow> 'v \<Rightarrow> 'v"
  assumes sorted_live: "inv t \<Longrightarrow> sorted_kvs (live t)"
    and inv_apply1: "inv t \<Longrightarrow> inv (apply1 k v t)"
    and live_apply1: "inv t \<Longrightarrow> live (apply1 k v t) = kv_apply k v (live t)"
begin

definition lookup :: "'v \<Rightarrow> (bytes \<rightharpoonup> bytes)" where
  "lookup t = map_of (live t)"

definition apply_all :: "change list \<Rightarrow> 'v \<Rightarrow> 'v" where
  "apply_all cs t = foldl (\<lambda>t c. apply1 (fst c) (snd c) t) t cs"

lemma lookup_apply1: "inv t \<Longrightarrow> lookup (apply1 k v t) = (lookup t)(k := v)"
  by (simp add: lookup_def live_apply1 map_of_kv_apply)

lemma inv_apply_all: "inv t \<Longrightarrow> inv (apply_all cs t)"
  by (induction cs arbitrary: t) (simp_all add: apply_all_def inv_apply1)

lemma lookup_apply_all: "inv t \<Longrightarrow> lookup (apply_all cs t) = kv_changes cs (lookup t)"
  by (induction cs arbitrary: t) (simp_all add: apply_all_def inv_apply1 lookup_apply1)

text \<open>Two versions with the same lookups have the same entries, in the same order.\<close>

lemma lookup_determines_live: "inv t \<Longrightarrow> inv u \<Longrightarrow> lookup t = lookup u \<Longrightarrow> live t = live u"
  by (simp add: lookup_def sorted_kvs_eqI sorted_live)

text \<open>A scan of the range that \<open>prefix_end_exclusive\<close> delimits finds exactly the prefixed keys.\<close>

lemma prefix_range:
  "kv_range p (prefix_end_exclusive p) (live t) = filter (\<lambda>e. starts_with (fst e) p) (live t)"
  by (simp add: kv_range_def prefix_end_range)

end

end
