(* ===== verification/Tree_Leaf.thy ===== *)
theory Tree_Leaf
  imports Ordered_Kv
begin

text \<open>
  The leaf case of \<open>mutate_node\<close> in \<^verbatim>\<open>src/runtime/tree_db.rs\<close>: inserting, replacing or removing
  one key in the sorted entries of a leaf, and dropping the tombstones that old versions of the
  program left there. On the live entries (those with a value) the edit is \<open>kv_apply\<close>.
\<close>

section \<open>Writing one key in a leaf\<close>

definition leaf_edit :: "bytes \<Rightarrow> bytes option \<Rightarrow> leaf_entry list \<Rightarrow> bool \<times> leaf_entry list" where
  "leaf_edit key value es = (case binary_search (map le_key es) key of
       Inr idx \<Rightarrow> (case value of
           Some v \<Rightarrow> if le_value (es ! idx) \<noteq> Some v
             then (True, es[idx := (es ! idx)\<lparr>le_value := Some v\<rparr>]) else (False, es)
         | None \<Rightarrow> (True, list_remove_at idx es))
     | Inl idx \<Rightarrow> (case value of
           Some v \<Rightarrow> (True, list_insert_at idx \<lparr>le_key = key, le_value = Some v\<rparr> es)
         | None \<Rightarrow> (False, es)))"

definition leaf_write :: "bytes \<Rightarrow> bytes option \<Rightarrow> leaf_entry list \<Rightarrow> bool \<times> leaf_entry list" where
  "leaf_write key value es = (let r = leaf_edit key value es in
     if list_ex (\<lambda>e. le_value e = None) (snd r)
     then (True, filter (\<lambda>e. le_value e \<noteq> None) (snd r)) else r)"

fun live :: "leaf_entry list \<Rightarrow> kvs" where
  "live [] = []"
| "live (e # es) = (case le_value e of None \<Rightarrow> live es | Some v \<Rightarrow> (le_key e, v) # live es)"

lemma live_append [simp]: "live (es @ fs) = live es @ live fs"
  by (induction es) (auto split: option.split)

lemma live_filter_some [simp]: "live (filter (\<lambda>e. le_value e \<noteq> None) es) = live es"
  by (induction es) (auto split: option.split)

lemma live_filter_key: "live (filter (\<lambda>e. P (le_key e)) es) = filter (\<lambda>e. P (fst e)) (live es)"
  by (induction es) (auto split: option.split)

lemma set_live: "set (live es) = {(k, v). \<lparr>le_key = k, le_value = Some v\<rparr> \<in> set es}"
proof (induction es)
  case (Cons e es)
  then show ?case by (cases e) (auto split: option.split)
qed simp

lemma live_keys: "fst ` set (live es) \<subseteq> le_key ` set es"
  by (induction es) (auto split: option.splits)

lemma sorted_live: "sorted_wrt (<) (map le_key es) \<Longrightarrow> sorted_kvs (live es)"
proof (induction es)
  case (Cons e es)
  then show ?case using live_keys [of es] by (fastforce split: option.split)
qed simp

text \<open>A sorted leaf around a key: the smaller entries, the entry itself if present, the greater ones.\<close>

lemma leaf_split:
  fixes k :: bytes
  assumes "sorted_wrt (<) (map le_key es)"
  defines "i \<equiv> partition_point (\<lambda>y. y < k) (map le_key es)"
  shows "take i es = filter (\<lambda>e. le_key e < k) es"
    and "drop i es = filter (\<lambda>e. k \<le> le_key e) es"
proof -
  have i: "i = length (takeWhile (\<lambda>e. le_key e < k) es)"
    by (simp add: i_def partition_point_def takeWhile_map comp_def)
  show "take i es = filter (\<lambda>e. le_key e < k) es"
    unfolding i filter_sorted_eq_takeWhile [OF assms(1), symmetric]
    by (rule takeWhile_eq_take [symmetric])
  show "drop i es = filter (\<lambda>e. k \<le> le_key e) es"
    unfolding i filter_sorted_eq_dropWhile [OF assms(1), symmetric]
    by (rule dropWhile_eq_drop [symmetric])
qed

lemma leaf_search:
  assumes "sorted_wrt (<) (map le_key es)"
  obtains (found) A e B where "es = A @ e # B" "le_key e = k" "\<forall>x\<in>set A. le_key x < k"
      "\<forall>x\<in>set B. k < le_key x" "binary_search (map le_key es) k = Inr (length A)"
  | (absent) A B where "es = A @ B" "\<forall>x\<in>set A. le_key x < k" "\<forall>x\<in>set B. k < le_key x"
      "binary_search (map le_key es) k = Inl (length A)"
proof -
  define i where "i = partition_point (\<lambda>y. y < k) (map le_key es)"
  define A where "A = take i es"
  define R where "R = drop i es"
  have es: "es = A @ R" by (simp add: A_def R_def)
  have len: "length A = i"
    using length_takeWhile_le [of "\<lambda>y. y < k" "map le_key es"]
    by (simp add: A_def i_def partition_point_def)
  have A: "\<forall>x\<in>set A. le_key x < k" and R: "\<forall>x\<in>set R. k \<le> le_key x"
    using leaf_split [OF assms, of k] by (auto simp: A_def R_def i_def)
  have bs: "binary_search (map le_key es) k =
      (if R \<noteq> [] \<and> le_key (hd R) = k then Inr (length A) else Inl (length A))"
    unfolding binary_search_def Let_def i_def [symmetric]
    by (auto simp: es len [symmetric] nth_append hd_conv_nth)
  show ?thesis
  proof (cases R)
    case Nil
    with absent [of A "[]"] es A bs show ?thesis by simp
  next
    case (Cons e B)
    then have "\<forall>x\<in>set B. le_key e < le_key x"
      using assms by (simp add: es sorted_wrt_append)
    then have "k \<noteq> le_key e \<Longrightarrow> \<forall>x\<in>set (e # B). k < le_key x"
      and "k = le_key e \<Longrightarrow> \<forall>x\<in>set B. k < le_key x"
      using R Cons by (auto simp: order.strict_iff_order [of k "le_key e"] dest: order.strict_trans1)
    with found [of A e B] absent [of A "e # B"] es A bs Cons show ?thesis
      by (cases "le_key e = k") auto
  qed
qed

text \<open>What the edit does to the three parts, and what the compaction of tombstones adds.\<close>

lemma leaf_edit_shape:
  assumes "sorted_wrt (<) (map le_key es)"
  obtains A M N B where "es = A @ M @ B" "snd (leaf_edit k v es) = A @ N @ B"
    "\<forall>x\<in>set A. le_key x < k" "\<forall>x\<in>set B. k < le_key x"
    "M = [] \<or> (\<exists>e. M = [e] \<and> le_key e = k)"
    "N = (case v of None \<Rightarrow> [] | Some w \<Rightarrow> [\<lparr>le_key = k, le_value = Some w\<rparr>])"
  using assms
proof (cases rule: leaf_search [where k = k])
  case (found A e B)
  have "\<lparr>le_key = k, le_value = Some w\<rparr> = e\<lparr>le_value := Some w\<rparr>" for w
    using found(2) by (cases e) simp
  then have "snd (leaf_edit k v es)
      = A @ (case v of None \<Rightarrow> [] | Some w \<Rightarrow> [\<lparr>le_key = k, le_value = Some w\<rparr>]) @ B"
    unfolding leaf_edit_def found(5)
    by (cases e) (auto simp: found(1) list_remove_at_def list_update_append split: option.split)
  with found that [of A "[e]" B] show thesis by simp
next
  case (absent A B)
  then have "snd (leaf_edit k v es)
      = A @ (case v of None \<Rightarrow> [] | Some w \<Rightarrow> [\<lparr>le_key = k, le_value = Some w\<rparr>]) @ B"
    unfolding leaf_edit_def absent(4)
    by (auto simp: absent(1) list_insert_at_def split: option.split)
  with absent that [of A "[]" B] show thesis by simp
qed

lemma snd_leaf_write: "snd (leaf_write k v es) = filter (\<lambda>e. le_value e \<noteq> None) (snd (leaf_edit k v es))"
  by (auto simp: leaf_write_def Let_def list_ex_iff intro!: filter_True [symmetric])

lemma leaf_write_unchanged: "\<not> fst (leaf_write k v es) \<Longrightarrow> snd (leaf_write k v es) = es"
  by (auto simp: leaf_write_def leaf_edit_def Let_def split: sum.splits option.splits if_splits)

lemma live_leaf_write:
  assumes "sorted_wrt (<) (map le_key es)"
  shows "live (snd (leaf_write k v es)) = kv_apply k v (live es)"
proof -
  from assms obtain A M N B where es: "es = A @ M @ B" "snd (leaf_edit k v es) = A @ N @ B"
    and AB: "\<forall>x\<in>set A. le_key x < k" "\<forall>x\<in>set B. k < le_key x"
    and M: "M = [] \<or> (\<exists>e. M = [e] \<and> le_key e = k)"
    and N: "N = (case v of None \<Rightarrow> [] | Some w \<Rightarrow> [\<lparr>le_key = k, le_value = Some w\<rparr>])"
    by (rule leaf_edit_shape [where k = k and v = v])
  have "\<forall>e\<in>set (live A). fst e < k" "\<forall>e\<in>set (live B). k < fst e"
    using AB live_keys [of A] live_keys [of B] by auto
  then have "kv_apply k v (live A @ live M @ live B) = live A @ kv_apply k v (live M) @ live B"
    by (rule kv_apply_append)
  moreover have "kv_apply k v (live M) = live N"
    using M by (auto simp: N kv_apply_def split: option.split)
  ultimately show ?thesis
    unfolding snd_leaf_write live_filter_some es(2) by (simp add: es(1))
qed

lemma leaf_write_keys:
  assumes "sorted_wrt (<) (map le_key es)"
  shows "le_key ` set (snd (leaf_write k v es)) \<subseteq> insert k (le_key ` set es)"
  using assms by (rule leaf_edit_shape [where k = k and v = v])
    (auto simp: snd_leaf_write split: option.splits)

lemma length_leaf_write:
  assumes "sorted_wrt (<) (map le_key es)"
  shows "length (snd (leaf_write k v es)) \<le> Suc (length es)"
  using assms
proof (rule leaf_edit_shape [where k = k and v = v])
  fix A M N B
  assume "es = A @ M @ B" "snd (leaf_edit k v es) = A @ N @ B"
    "N = (case v of None \<Rightarrow> [] | Some w \<Rightarrow> [\<lparr>le_key = k, le_value = Some w\<rparr>])"
  then have "length (snd (leaf_edit k v es)) \<le> Suc (length es)" by (auto split: option.split)
  then show ?thesis unfolding snd_leaf_write by (rule order_trans [OF length_filter_le])
qed

lemma sorted_leaf_write:
  assumes "sorted_wrt (<) (map le_key es)"
  shows "sorted_wrt (<) (map le_key (snd (leaf_write k v es)))"
  using assms
proof (rule leaf_edit_shape [where k = k and v = v])
  fix A M N B
  assume "es = A @ M @ B" "snd (leaf_edit k v es) = A @ N @ B"
    "\<forall>x\<in>set A. le_key x < k" "\<forall>x\<in>set B. k < le_key x"
    "N = (case v of None \<Rightarrow> [] | Some w \<Rightarrow> [\<lparr>le_key = k, le_value = Some w\<rparr>])"
  with assms have "sorted_wrt (<) (map le_key (snd (leaf_edit k v es)))"
    by (auto simp: sorted_wrt_append split: option.split)
  then show ?thesis unfolding snd_leaf_write by (rule sorted_wrt_less_filter)
qed

end
