(* ===== verification/Tree_Spec.thy ===== *)
theory Tree_Spec
  imports Tree_Leaf
begin

text \<open>
  The B+ tree of \<^verbatim>\<open>src/runtime/tree_db.rs\<close> as a value: the specification the stored nodes
  refine.

  A \<open>btree\<close> is what the nodes reachable from a root identifier spell out. \<open>t_mutate\<close> and
  \<open>t_apply\<close> are the mutation on that value. This theory proves that they keep the tree ordered
  (separators delimit their children), balanced (all leaves at one depth) and within its fan-out
  limits, and that they act on the live entries as \<open>kv_apply\<close>. The Merkle identifier of a tree
  (\<open>root_id\<close>) and the nodes it consists of (\<open>tree_nodes\<close>) connect it to the store.
\<close>

section \<open>Trees and their identifiers\<close>

datatype btree = TLeaf "leaf_entry list" "bytes option" | TInner "bytes list" "btree list"

datatype t_outcome = TNode btree | TSplit btree btree bytes

fun node_of :: "(bptree_node \<Rightarrow> bytes) \<Rightarrow> btree \<Rightarrow> bptree_node" where
  "node_of H (TLeaf es nx) = Leaf \<lparr>entries = es, next_leaf = nx\<rparr>"
| "node_of H (TInner ks ts) = Internal \<lparr>sep_keys = ks, children = map (\<lambda>t. H (node_of H t)) ts\<rparr>"

definition root_id :: "(bptree_node \<Rightarrow> bytes) \<Rightarrow> btree \<Rightarrow> bytes" where
  "root_id H t = H (node_of H t)"

fun subtrees :: "btree \<Rightarrow> btree list" where
  "subtrees (TLeaf es nx) = [TLeaf es nx]"
| "subtrees (TInner ks ts) = TInner ks ts # concat (map subtrees ts)"

definition tree_nodes :: "(bptree_node \<Rightarrow> bytes) \<Rightarrow> btree \<Rightarrow> bptree_node set" where
  "tree_nodes H t = node_of H ` set (subtrees t)"

fun outcome_trees :: "t_outcome \<Rightarrow> btree list" where
  "outcome_trees (TNode t) = [t]"
| "outcome_trees (TSplit l r s) = [l, r]"

definition outcome_nodes :: "(bptree_node \<Rightarrow> bytes) \<Rightarrow> t_outcome \<Rightarrow> bptree_node set" where
  "outcome_nodes H out = (\<Union>t\<in>set (outcome_trees out). tree_nodes H t)"

fun outcome_ids :: "(bptree_node \<Rightarrow> bytes) \<Rightarrow> t_outcome \<Rightarrow> mutation_outcome" where
  "outcome_ids H (TNode t) = Node (root_id H t)"
| "outcome_ids H (TSplit l r s) = Split (root_id H l) (root_id H r) s"

fun t_entries :: "btree \<Rightarrow> leaf_entry list" where
  "t_entries (TLeaf es nx) = es"
| "t_entries (TInner ks ts) = concat (map t_entries ts)"

definition t_live :: "btree \<Rightarrow> kvs" where
  "t_live t = live (t_entries t)"

definition outcome_live :: "t_outcome \<Rightarrow> kvs" where
  "outcome_live out = concat (map t_live (outcome_trees out))"

section \<open>The mutation\<close>

definition t_leaf :: "(bptree_node \<Rightarrow> bytes) \<Rightarrow> leaf_entry list \<Rightarrow> bytes option \<Rightarrow> t_outcome" where
  "t_leaf H es nx = (if length es \<le> MAX_LEAF_ENTRIES then TNode (TLeaf es nx)
     else let mid = length es div 2; r = TLeaf (drop mid es) nx in
       TSplit (TLeaf (take mid es) (Some (root_id H r))) r (le_key (es ! mid)))"

definition t_inner :: "bytes list \<Rightarrow> btree list \<Rightarrow> t_outcome" where
  "t_inner ks ts = (if length ks \<le> MAX_INTERNAL_KEYS then TNode (TInner ks ts)
     else let mid = length ks div 2 in
       TSplit (TInner (take mid ks) (take (mid + 1) ts))
         (TInner (drop (mid + 1) ks) (drop (mid + 1) ts)) (ks ! mid))"

lemma size_nth_child [termination_simp]: "i < length ts \<Longrightarrow> size (ts ! i) < Suc (size_list size ts)"
  by (simp add: less_Suc_eq_le) (rule size_list_estimation' [of "ts ! i"], simp_all)

fun t_mutate :: "(bptree_node \<Rightarrow> bytes) \<Rightarrow> bytes \<Rightarrow> bytes option \<Rightarrow> btree \<Rightarrow> t_outcome" where
  "t_mutate H k v (TLeaf es nx) =
     (if \<not> fst (leaf_write k v es) then TNode (TLeaf es nx)
      else t_leaf H (snd (leaf_write k v es)) nx)"
| "t_mutate H k v (TInner ks ts) =
     (let i = child_index_for_key ks k in
      if i < length ts then
        (case t_mutate H k v (ts ! i) of
           TNode c \<Rightarrow> if c = ts ! i then TNode (TInner ks ts) else t_inner ks (ts[i := c])
         | TSplit l r s \<Rightarrow>
             t_inner (list_insert_at i s ks) (list_insert_at (Suc i) r (ts[i := l])))
      else TNode (TInner ks ts))"

definition t_apply :: "(bptree_node \<Rightarrow> bytes) \<Rightarrow> bytes \<Rightarrow> bytes option \<Rightarrow> btree \<Rightarrow> btree" where
  "t_apply H k v t = (case t_mutate H k v t of TNode t' \<Rightarrow> t' | TSplit l r s \<Rightarrow> TInner [s] [l, r])"

section \<open>Order\<close>

text \<open>
  The children of an internal node, each between the separators around it: from \<open>lo\<close>
  (inclusive) to \<open>hi\<close> (exclusive, \<open>None\<close> for no bound).
\<close>

fun chain :: "(bytes \<Rightarrow> bytes option \<Rightarrow> 'a \<Rightarrow> bool) \<Rightarrow> bytes \<Rightarrow> bytes option \<Rightarrow> bytes list \<Rightarrow> 'a list \<Rightarrow> bool"
where
  "chain P lo hi [] [t] \<longleftrightarrow> P lo hi t"
| "chain P lo hi (k # ks) (t # ts) \<longleftrightarrow> lo < k \<and> below hi k \<and> P lo (Some k) t \<and> chain P k hi ks ts"
| "chain P lo hi _ _ \<longleftrightarrow> False"

lemma chain_cong [fundef_cong]:
  "ks = ks' \<Longrightarrow> ts = ts' \<Longrightarrow> lo = lo' \<Longrightarrow> hi = hi' \<Longrightarrow>
   (\<And>l h t. t \<in> set ts' \<Longrightarrow> P l h t = Q l h t) \<Longrightarrow> chain P lo hi ks ts = chain Q lo' hi' ks' ts'"
  by (induction P lo hi ks ts arbitrary: ks' ts' lo' rule: chain.induct) auto

fun ordered :: "bytes \<Rightarrow> bytes option \<Rightarrow> btree \<Rightarrow> bool" where
  "ordered lo hi (TLeaf es nx) \<longleftrightarrow> sorted_wrt (<) (map le_key es)
     \<and> (\<forall>e\<in>set es. lo \<le> le_key e \<and> below hi (le_key e))"
| "ordered lo hi (TInner ks ts) \<longleftrightarrow> chain ordered lo hi ks ts"

lemma chain_length: "chain P lo hi ks ts \<Longrightarrow> length ts = Suc (length ks)"
  by (induction P lo hi ks ts rule: chain.induct) auto

lemma chain_seps: "chain P lo hi ks ts \<Longrightarrow> sorted_wrt (<) ks \<and> (\<forall>k\<in>set ks. lo < k \<and> below hi k)"
  by (induction P lo hi ks ts rule: chain.induct) (auto dest: order.strict_trans)

lemma chain_member:
  "chain P lo hi ks ts \<Longrightarrow> t \<in> set ts \<Longrightarrow> \<exists>l h. P l h t \<and> lo \<le> l \<and> (\<forall>k. below h k \<longrightarrow> below hi k)"
proof (induction P lo hi ks ts rule: chain.induct)
  case (2 P lo hi k ks u ts)
  show ?case
  proof (cases "t = u")
    case True
    have "\<forall>k'. below (Some k) k' \<longrightarrow> below hi k'"
      using 2(2) by (auto intro: below_trans less_imp_le)
    with True 2(2) show ?thesis by (intro exI [of _ lo] exI [of _ "Some k"]) simp
  next
    case False
    with 2(1) [OF _] 2(2,3) obtain l h where lh: "P l h t" "k \<le> l" "\<forall>k. below h k \<longrightarrow> below hi k"
      by auto
    moreover have "lo \<le> l" using 2(2) lh(2) by (auto intro: order.trans less_imp_le)
    ultimately show ?thesis by (intro exI conjI)
  qed
qed auto

text \<open>Splitting a node at a separator.\<close>

lemma chain_append:
  assumes "length us = Suc (length ls)"
  shows "chain P lo hi (ls @ s # rs) (us @ vs) \<longleftrightarrow>
    lo < s \<and> below hi s \<and> chain P lo (Some s) ls us \<and> chain P s hi rs vs"
  using assms
proof (induction ls arbitrary: lo us)
  case Nil
  then obtain u where "us = [u]" by (cases us) auto
  then show ?case by auto
next
  case (Cons l ls)
  then obtain u us' where us: "us = u # us'" "length us' = Suc (length ls)" by (cases us) auto
  show ?case
    by (auto simp: us Cons.IH [OF us(2)] intro: below_trans less_imp_le dest: order.strict_trans)
qed

text \<open>The child at position \<open>length ls\<close>: its bounds, and what may replace it.\<close>

definition focus_lo :: "bytes \<Rightarrow> bytes list \<Rightarrow> bytes" where
  "focus_lo lo ls = last (lo # ls)"

definition focus_hi :: "bytes option \<Rightarrow> bytes list \<Rightarrow> bytes option" where
  "focus_hi hi rs = (case rs of [] \<Rightarrow> hi | r # _ \<Rightarrow> Some r)"

lemma focus_lo_simps [simp]: "focus_lo lo [] = lo" "focus_lo lo (l # ls) = focus_lo l ls"
  by (simp_all add: focus_lo_def)

lemma focus_hi_simps [simp]: "focus_hi hi [] = hi" "focus_hi hi (r # rs) = Some r"
  by (simp_all add: focus_hi_def)

lemma chain_focus:
  "length us = length ls \<Longrightarrow> chain P lo hi (ls @ rs) (us @ c # vs) \<Longrightarrow>
     P (focus_lo lo ls) (focus_hi hi rs) c"
proof (induction us ls arbitrary: lo rule: list_induct2)
  case Nil
  then show ?case by (cases rs; cases vs) auto
qed auto

lemma chain_replace:
  "length us = length ls \<Longrightarrow> chain P lo hi (ls @ rs) (us @ c # vs) \<Longrightarrow>
     P (focus_lo lo ls) (focus_hi hi rs) d \<Longrightarrow> chain P lo hi (ls @ rs) (us @ d # vs)"
proof (induction us ls arbitrary: lo rule: list_induct2)
  case Nil
  then show ?case by (cases rs; cases vs) auto
qed auto

lemma chain_replace_split:
  "length us = length ls \<Longrightarrow> chain P lo hi (ls @ rs) (us @ c # vs) \<Longrightarrow>
     focus_lo lo ls < s \<Longrightarrow> below (focus_hi hi rs) s \<Longrightarrow>
     P (focus_lo lo ls) (Some s) l \<Longrightarrow> P s (focus_hi hi rs) r \<Longrightarrow>
     chain P lo hi (ls @ s # rs) (us @ l # r # vs)"
proof (induction us ls arbitrary: lo rule: list_induct2)
  case Nil
  then show ?case by (cases rs; cases vs) (auto intro: below_trans less_imp_le dest: order.strict_trans)
next
  case (Cons u us k ls)
  then show ?case by (auto intro: below_trans less_imp_le)
qed

lemma focus_bounds:
  assumes "lo \<le> k" "below hi k" "\<forall>s\<in>set ls. s \<le> k" "\<forall>s\<in>set rs. k < s"
  shows "focus_lo lo ls \<le> k" "below (focus_hi hi rs) k"
proof -
  show "focus_lo lo ls \<le> k" using assms(1,3) by (induction ls arbitrary: lo) auto
  show "below (focus_hi hi rs) k" using assms(2,4) by (cases rs) auto
qed

text \<open>The children chosen for a key, and where the other children's entries lie.\<close>

lemma ordered_entries_range: "ordered lo hi t \<Longrightarrow> e \<in> set (t_entries t) \<Longrightarrow> lo \<le> le_key e \<and> below hi (le_key e)"
proof (induction t arbitrary: lo hi)
  case (TInner ks ts)
  then obtain t where t: "t \<in> set ts" "e \<in> set (t_entries t)" by auto
  with TInner.prems obtain l h where "ordered l h t" "lo \<le> l" "\<forall>k. below h k \<longrightarrow> below hi k"
    using chain_member [of ordered lo hi ks ts t] by auto
  with TInner.IH [OF t(1), of l h] t(2) show ?case by auto
qed auto

lemma chain_left_entries:
  "length us = length ls \<Longrightarrow> chain ordered lo hi (ls @ rs) (us @ vs) \<Longrightarrow> \<forall>s\<in>set ls. s \<le> k \<Longrightarrow>
     u \<in> set us \<Longrightarrow> e \<in> set (t_entries u) \<Longrightarrow> le_key e < k"
proof (induction us ls arbitrary: lo rule: list_induct2)
  case (Cons w us s ls)
  then show ?case
    using ordered_entries_range [of lo "Some s" w e] by (auto intro: order.strict_trans2)
qed simp

lemma chain_right_entries:
  assumes "length us = length ls" "chain ordered lo hi (ls @ rs) (us @ c # vs)" "\<forall>s\<in>set rs. k < s"
    and "u \<in> set vs" "e \<in> set (t_entries u)"
  shows "k < le_key e"
proof -
  have "length vs = length rs" using chain_length [OF assms(2)] assms(1) by simp
  with assms(4) obtain r rs' where rs: "rs = r # rs'" by (cases rs) auto
  have "chain ordered r hi rs' vs"
    using assms(1,2) chain_append [of "us @ [c]" ls ordered lo hi r rs' vs] by (simp add: rs)
  with assms(4) obtain l h where "ordered l h u" "r \<le> l" 
    using chain_member [of ordered r hi rs' vs u] by blast
  with assms(5) have "r \<le> le_key e" using ordered_entries_range [of l h u e] by auto
  with assms(3) show ?thesis by (auto simp: rs intro: order.strict_trans2)
qed

lemma chain_child:
  fixes k :: bytes
  assumes "chain P lo hi ks ts"
  defines "i \<equiv> child_index_for_key ks k"
  shows "i < length ts" "length (take i ts) = i" "length (take i ks) = i"
    and "ts = take i ts @ ts ! i # drop (Suc i) ts" "ks = take i ks @ drop i ks"
    and "\<forall>s\<in>set (take i ks). s \<le> k" "\<forall>s\<in>set (drop i ks). k < s"
proof -
  have le: "i \<le> length ks" by (simp add: i_def cs.search_le)
  with chain_length [OF assms(1)] show len: "i < length ts" by simp
  then show "length (take i ts) = i" "ts = take i ts @ ts ! i # drop (Suc i) ts"
    by (simp_all add: id_take_nth_drop)
  show "length (take i ks) = i" "ks = take i ks @ drop i ks" using le by simp_all
  have "sorted_wrt (<) ks" using chain_seps [OF assms(1)] by simp
  then show "\<forall>s\<in>set (take i ks). s \<le> k" "\<forall>s\<in>set (drop i ks). k < s"
    unfolding i_def by (rule cs.search_split)+
qed

lemma sorted_entries_concat:
  "chain ordered lo hi ks ts \<Longrightarrow> \<forall>t\<in>set ts. sorted_wrt (<) (map le_key (t_entries t)) \<Longrightarrow>
     sorted_wrt (<) (map le_key (concat (map t_entries ts)))"
proof (induction "ordered :: bytes \<Rightarrow> bytes option \<Rightarrow> btree \<Rightarrow> bool" lo hi ks ts rule: chain.induct)
  case (2 lo hi k ks t ts)
  have "le_key e < le_key f" if "e \<in> set (t_entries t)" "u \<in> set ts" "f \<in> set (t_entries u)" for e u f
  proof -
    from 2 that have "le_key e < k" using ordered_entries_range [of lo "Some k" t e] by simp
    moreover from 2 that obtain l h where "ordered l h u" "k \<le> l"
      using chain_member [of ordered k hi ks ts u] by auto
    then have "k \<le> le_key f" using that ordered_entries_range [of l h u f] by auto
    ultimately show ?thesis by simp
  qed
  with 2 show ?case by (auto simp: sorted_wrt_append)
qed auto

lemma sorted_t_entries: "ordered lo hi t \<Longrightarrow> sorted_wrt (<) (map le_key (t_entries t))"
proof (induction t arbitrary: lo hi)
  case (TInner ks ts)
  have "\<forall>t\<in>set ts. sorted_wrt (<) (map le_key (t_entries t))"
    using TInner.IH chain_member [of ordered lo hi ks ts] TInner.prems by (metis ordered.simps(2))
  with TInner.prems show ?case using sorted_entries_concat by simp
qed simp

section \<open>Balance and fan-out\<close>

fun balanced :: "nat \<Rightarrow> btree \<Rightarrow> bool" where
  "balanced n (TLeaf es nx) \<longleftrightarrow> n = 0"
| "balanced n (TInner ks ts) \<longleftrightarrow> n > 0 \<and> (\<forall>t\<in>set ts. balanced (n - 1) t)"

fun sized :: "btree \<Rightarrow> bool" where
  "sized (TLeaf es nx) \<longleftrightarrow> length es \<le> MAX_LEAF_ENTRIES"
| "sized (TInner ks ts) \<longleftrightarrow> ks \<noteq> [] \<and> length ks \<le> MAX_INTERNAL_KEYS \<and> (\<forall>t\<in>set ts. sized t)"

definition t_inv :: "btree \<Rightarrow> bool" where
  "t_inv t \<longleftrightarrow> ordered [] None t \<and> (\<exists>n. balanced n t) \<and> sized t"

text \<open>What a mutation of a node may return.\<close>

fun outcome_ordered :: "bytes \<Rightarrow> bytes option \<Rightarrow> t_outcome \<Rightarrow> bool" where
  "outcome_ordered lo hi (TNode t) \<longleftrightarrow> ordered lo hi t"
| "outcome_ordered lo hi (TSplit l r s) \<longleftrightarrow>
     lo < s \<and> below hi s \<and> ordered lo (Some s) l \<and> ordered s hi r"

lemma t_leaf_ordered:
  assumes "ordered lo hi (TLeaf es nx)"
  shows "outcome_ordered lo hi (t_leaf H es nx)"
proof (cases "length es \<le> MAX_LEAF_ENTRIES")
  case False
  let ?m = "length es div 2"
  have m: "0 < ?m" "?m < length es" using False by (auto simp: MAX_LEAF_ENTRIES_def)
  have es: "es = take ?m es @ es ! ?m # drop (Suc ?m) es" by (rule id_take_nth_drop [OF m(2)])
  have srt: "sorted_wrt (<) (map le_key (take ?m es @ es ! ?m # drop (Suc ?m) es))"
    using assms es by simp
  have "es ! 0 \<in> set (take ?m es)" using m by (auto simp: in_set_conv_nth intro!: exI [of _ 0])
  then have "le_key (es ! 0) < le_key (es ! ?m)" using srt by (simp add: sorted_wrt_append)
  moreover have "lo \<le> le_key (es ! 0)" "below hi (le_key (es ! ?m))"
    using assms m in_set_takeD [OF \<open>es ! 0 \<in> set (take ?m es)\<close>] by auto
  moreover have "\<forall>e\<in>set (drop ?m es). le_key (es ! ?m) \<le> le_key e"
    using srt m(2) by (auto simp: Cons_nth_drop_Suc [symmetric] sorted_wrt_append intro: less_imp_le)
  moreover have "\<forall>e\<in>set (take ?m es). le_key e < le_key (es ! ?m)"
    using srt by (simp add: sorted_wrt_append)
  ultimately show ?thesis
    using assms False unfolding t_leaf_def Let_def
    by (auto simp: take_map [symmetric] drop_map [symmetric] sorted_wrt_take sorted_wrt_drop
        dest: in_set_takeD in_set_dropD)
qed (use assms in \<open>simp add: t_leaf_def\<close>)

lemma t_inner_ordered:
  assumes "chain ordered lo hi ks ts"
  shows "outcome_ordered lo hi (t_inner ks ts)"
proof (cases "length ks \<le> MAX_INTERNAL_KEYS")
  case False
  let ?m = "length ks div 2"
  have m: "?m < length ks" using False by (auto simp: MAX_INTERNAL_KEYS_def)
  have "length (take (?m + 1) ts) = Suc (length (take ?m ks))"
    using chain_length [OF assms] m by simp
  from chain_append [OF this, of ordered lo hi "ks ! ?m" "drop (?m + 1) ks" "drop (?m + 1) ts"]
  show ?thesis
    using assms False m by (simp add: t_inner_def Let_def id_take_nth_drop [symmetric])
qed (use assms in \<open>simp add: t_inner_def\<close>)

section \<open>The mutation keeps the invariants\<close>

lemma list_insert_child:
  assumes "i < length ts"
  shows "ts[i := c] = take i ts @ c # drop (Suc i) ts"
    and "list_insert_at (Suc i) r (ts[i := l]) = take i ts @ l # r # drop (Suc i) ts"
  using assms by (simp_all add: upd_conv_take_nth_drop list_insert_at_def take_Suc_conv_app_nth)

lemma t_mutate_ordered:
  "ordered lo hi t \<Longrightarrow> lo \<le> k \<Longrightarrow> below hi k \<Longrightarrow> outcome_ordered lo hi (t_mutate H k v t)"
proof (induction t arbitrary: lo hi)
  case (TLeaf es nx)
  then have "ordered lo hi (TLeaf (snd (leaf_write k v es)) nx)"
    using sorted_leaf_write [of es k v] leaf_write_keys [of es k v] by auto
  with TLeaf show ?case by (simp add: t_leaf_ordered)
next
  case (TInner ks ts)
  let ?i = "child_index_for_key ks k"
  from TInner.prems have ch: "chain ordered lo hi ks ts" by simp
  note c = chain_child [OF ch, of k]
  have ch': "chain ordered lo hi (take ?i ks @ drop ?i ks) (take ?i ts @ ts ! ?i # drop (Suc ?i) ts)"
    using ch c(4,5) by simp
  have len: "length (take ?i ts) = length (take ?i ks)" using c(2,3) by simp
  note fb = focus_bounds [OF TInner.prems(2,3) c(6,7)]
  have out: "outcome_ordered (focus_lo lo (take ?i ks)) (focus_hi hi (drop ?i ks)) (t_mutate H k v (ts ! ?i))"
    using TInner.IH [OF nth_mem [OF c(1)] chain_focus [OF len ch'] fb] .
  show ?case
  proof (cases "t_mutate H k v (ts ! ?i)")
    case (TNode d)
    with out have "chain ordered lo hi ks (ts[?i := d])"
      using chain_replace [OF len ch', of d] c(1,5) by (simp add: list_insert_child)
    with TNode c(1) TInner.prems(1) show ?thesis by (simp add: Let_def t_inner_ordered)
  next
    case (TSplit l r s)
    with out have "chain ordered lo hi (list_insert_at ?i s ks) (list_insert_at (Suc ?i) r (ts[?i := l]))"
      using chain_replace_split [OF len ch', of s l r] c(1)
      unfolding list_insert_child(2) [OF c(1)] by (simp add: list_insert_at_def)
    with TSplit c(1) show ?thesis by (simp add: Let_def t_inner_ordered)
  qed
qed

lemma outcome_live_t_leaf [simp]: "outcome_live (t_leaf H es nx) = live es"
  by (simp add: t_leaf_def outcome_live_def t_live_def Let_def flip: live_append)

lemma outcome_live_t_inner [simp]: "outcome_live (t_inner ks ts) = concat (map t_live ts)"
proof -
  have "live (concat (map t_entries us)) = concat (map t_live us)" for us
    by (induction us) (simp_all add: t_live_def)
  then have "t_live (TInner ls us) = concat (map t_live us)" for ls us by (simp add: t_live_def)
  then show ?thesis
    by (simp add: t_inner_def outcome_live_def Let_def flip: concat_append map_append)
qed

lemma t_live_simps: "t_live (TLeaf es nx) = live es" "t_live (TInner ks ts) = concat (map t_live ts)"
  using outcome_live_t_inner [of "[]" ts] by (simp_all add: t_live_def t_inner_def outcome_live_def)

lemma outcome_live_simps [simp]:
  "outcome_live (TNode t) = t_live t" "outcome_live (TSplit l r s) = t_live l @ t_live r"
  by (simp_all add: outcome_live_def)

lemma t_live_key: "e \<in> set (t_live t) \<Longrightarrow> \<exists>x\<in>set (t_entries t). le_key x = fst e"
  using live_keys [of "t_entries t"] by (fastforce simp: t_live_def image_subset_iff)

lemma t_mutate_live: "ordered lo hi t \<Longrightarrow> outcome_live (t_mutate H k v t) = kv_apply k v (t_live t)"
proof (induction t arbitrary: lo hi)
  case (TLeaf es nx)
  then have "live (snd (leaf_write k v es)) = kv_apply k v (live es)" by (simp add: live_leaf_write)
  then show ?case using leaf_write_unchanged [of k v es] by (auto simp: t_live_simps)
next
  case (TInner ks ts)
  let ?i = "child_index_for_key ks k"
  from TInner.prems have ch: "chain ordered lo hi ks ts" by simp
  note c = chain_child [OF ch, of k]
  have ch': "chain ordered lo hi (take ?i ks @ drop ?i ks) (take ?i ts @ ts ! ?i # drop (Suc ?i) ts)"
    using ch c(4,5) by simp
  have len: "length (take ?i ts) = length (take ?i ks)" using c(2,3) by simp
  have IH: "outcome_live (t_mutate H k v (ts ! ?i)) = kv_apply k v (t_live (ts ! ?i))"
    using TInner.IH [OF nth_mem [OF c(1)] chain_focus [OF len ch']] .
  let ?L = "concat (map t_live (take ?i ts))" and ?R = "concat (map t_live (drop (Suc ?i) ts))"
  have "\<forall>e\<in>set ?L. fst e < k"
    using chain_left_entries [OF len ch' c(6)] by (auto dest!: t_live_key)
  moreover have "\<forall>e\<in>set ?R. k < fst e"
    using chain_right_entries [OF len ch' c(7)] by (auto dest!: t_live_key)
  ultimately have app: "kv_apply k v (?L @ t_live (ts ! ?i) @ ?R)
      = ?L @ outcome_live (t_mutate H k v (ts ! ?i)) @ ?R"
    by (simp add: kv_apply_append IH)
  have whole: "t_live (TInner ks ts) = ?L @ t_live (ts ! ?i) @ ?R"
    unfolding t_live_simps by (subst c(4)) simp
  show ?case
  proof (cases "t_mutate H k v (ts ! ?i)")
    case (TNode d)
    then have "concat (map t_live (ts[?i := d])) = kv_apply k v (t_live (TInner ks ts))"
      using app unfolding whole list_insert_child(1) [OF c(1)] by simp
    with TNode c(1) IH show ?thesis by (auto simp: Let_def list_update_id t_live_simps)
  next
    case (TSplit l r s)
    then have "concat (map t_live (list_insert_at (Suc ?i) r (ts[?i := l])))
        = kv_apply k v (t_live (TInner ks ts))"
      using app unfolding whole list_insert_child(2) [OF c(1)] by simp
    with TSplit c(1) show ?thesis by (simp add: Let_def)
  qed
qed

lemma t_leaf_balanced: "t \<in> set (outcome_trees (t_leaf H es nx)) \<Longrightarrow> balanced 0 t"
  by (auto simp: t_leaf_def Let_def split: if_splits)

lemma t_inner_balanced:
  assumes "\<forall>t\<in>set ts. balanced n t" "t \<in> set (outcome_trees (t_inner ks ts))"
  shows "balanced (Suc n) t"
  using assms(2) ball_take [OF assms(1)] ball_drop [OF assms(1)] assms(1)
  by (auto simp: t_inner_def Let_def split: if_splits)

lemma t_mutate_balanced: "balanced n t \<Longrightarrow> u \<in> set (outcome_trees (t_mutate H k v t)) \<Longrightarrow> balanced n u"
proof (induction t arbitrary: n u)
  case (TLeaf es nx)
  then show ?case by (auto dest: t_leaf_balanced split: if_splits)
next
  case (TInner ks ts)
  let ?i = "child_index_for_key ks k"
  from TInner.prems obtain m where n: "n = Suc m" "\<forall>t\<in>set ts. balanced m t" by (cases n) auto
  show ?case
  proof (cases "?i < length ts")
    case True
    have sub: "\<forall>t\<in>set (outcome_trees (t_mutate H k v (ts ! ?i))). balanced m t"
      using TInner.IH [OF nth_mem [OF True]] n True by auto
    have rest: "\<forall>t\<in>set (take ?i ts) \<union> set (drop (Suc ?i) ts). balanced m t"
      using ball_take [OF n(2)] ball_drop [OF n(2)] by (simp add: ball_Un)
    show ?thesis
    proof (cases "t_mutate H k v (ts ! ?i)")
      case (TNode d)
      with sub rest have "\<forall>t\<in>set (ts[?i := d]). balanced m t"
        by (auto simp: list_insert_child [OF True])
      with TNode TInner.prems True n show ?thesis
        by (auto simp: Let_def n dest: t_inner_balanced split: if_splits)
    next
      case (TSplit l r s)
      with sub rest have "\<forall>t\<in>set (list_insert_at (Suc ?i) r (ts[?i := l])). balanced m t"
        unfolding list_insert_child(2) [OF True] by auto
      with TSplit TInner.prems True n show ?thesis
        by (auto simp: Let_def n dest: t_inner_balanced)
    qed
  qed (use TInner.prems in \<open>auto simp: Let_def\<close>)
qed

lemma t_leaf_sized:
  "length es \<le> Suc MAX_LEAF_ENTRIES \<Longrightarrow> t \<in> set (outcome_trees (t_leaf H es nx)) \<Longrightarrow> sized t"
  by (auto simp: t_leaf_def Let_def MAX_LEAF_ENTRIES_def split: if_splits)

lemma t_inner_sized:
  assumes "\<forall>t\<in>set ts. sized t" "ks \<noteq> []" "length ks \<le> Suc MAX_INTERNAL_KEYS"
    and "t \<in> set (outcome_trees (t_inner ks ts))"
  shows "sized t"
proof (cases "length ks \<le> MAX_INTERNAL_KEYS")
  case False
  then have len: "length ks = 129" using assms(3) by (simp add: MAX_INTERNAL_KEYS_def)
  have "take 64 ks \<noteq> []" "drop 65 ks \<noteq> []" "length (take 64 ks) \<le> 128" "length (drop 65 ks) \<le> 128"
    using len by auto
  with assms(4) ball_take [OF assms(1)] ball_drop [OF assms(1)] False len show ?thesis
    by (auto simp: t_inner_def Let_def MAX_INTERNAL_KEYS_def)
qed (use assms in \<open>auto simp: t_inner_def\<close>)

lemma t_mutate_sized:
  "ordered lo hi t \<Longrightarrow> sized t \<Longrightarrow> u \<in> set (outcome_trees (t_mutate H k v t)) \<Longrightarrow> sized u"
proof (induction t arbitrary: lo hi u)
  case (TLeaf es nx)
  then have "length (snd (leaf_write k v es)) \<le> Suc MAX_LEAF_ENTRIES"
    using length_leaf_write [of es k v] by simp
  with TLeaf show ?case by (auto dest: t_leaf_sized split: if_splits)
next
  case (TInner ks ts)
  let ?i = "child_index_for_key ks k"
  from TInner.prems have ch: "chain ordered lo hi ks ts" by simp
  note c = chain_child [OF ch, of k]
  obtain l h where "ordered l h (ts ! ?i)" using chain_member [OF ch nth_mem [OF c(1)]] by blast
  then have sub: "\<forall>t\<in>set (outcome_trees (t_mutate H k v (ts ! ?i))). sized t"
    using TInner.IH [OF nth_mem [OF c(1)]] TInner.prems(2) c(1) by auto
  have rest: "\<forall>t\<in>set (take ?i ts) \<union> set (drop (Suc ?i) ts). sized t"
    using TInner.prems(2) ball_take [of ts sized] ball_drop [of ts sized] by (simp add: ball_Un)
  show ?case
  proof (cases "t_mutate H k v (ts ! ?i)")
    case (TNode d)
    with sub rest have "\<forall>t\<in>set (ts[?i := d]). sized t"
      by (auto simp: list_insert_child [OF c(1)])
    then have "\<forall>t\<in>set (outcome_trees (t_inner ks (ts[?i := d]))). sized t"
      using t_inner_sized [of "ts[?i := d]" ks] TInner.prems(2) by simp
    with TNode TInner.prems(2,3) c(1) show ?thesis by (auto simp: Let_def split: if_splits)
  next
    case (TSplit l r s)
    with sub rest have "\<forall>t\<in>set (list_insert_at (Suc ?i) r (ts[?i := l])). sized t"
      unfolding list_insert_child(2) [OF c(1)] by auto
    moreover have "length (list_insert_at ?i s ks) \<le> Suc MAX_INTERNAL_KEYS" "list_insert_at ?i s ks \<noteq> []"
      using TInner.prems(2) by (auto simp: list_insert_at_def)
    ultimately have "\<forall>t\<in>set (outcome_trees (t_inner (list_insert_at ?i s ks)
        (list_insert_at (Suc ?i) r (ts[?i := l])))). sized t"
      using t_inner_sized by blast
    with TSplit TInner.prems(3) c(1) show ?thesis by (simp add: Let_def)
  qed
qed

lemma t_inv_t_apply: "t_inv t \<Longrightarrow> t_inv (t_apply H k v t)"
proof -
  assume "t_inv t"
  then obtain n where t: "ordered [] None t" "balanced n t" "sized t" by (auto simp: t_inv_def)
  note o = t_mutate_ordered [OF t(1), of k H v] and b = t_mutate_balanced [OF t(2), of _ H k v]
    and s = t_mutate_sized [OF t(1,3), of _ H k v]
  show ?thesis
  proof (cases "t_mutate H k v t")
    case (TNode t')
    with o b s show ?thesis by (auto simp: t_inv_def t_apply_def)
  next
    case (TSplit l r sep)
    with o b s have "ordered [] None (TInner [sep] [l, r])" "balanced (Suc n) (TInner [sep] [l, r])"
      "sized (TInner [sep] [l, r])" by (auto simp: MAX_INTERNAL_KEYS_def)
    with TSplit show ?thesis by (auto simp: t_inv_def t_apply_def)
  qed
qed

lemma t_live_t_apply: "ordered lo hi t \<Longrightarrow> t_live (t_apply H k v t) = kv_apply k v (t_live t)"
  using t_mutate_live [of lo hi t H k v] by (auto simp: t_apply_def t_live_simps split: t_outcome.split)

interpretation bt: ordered_kv t_inv t_live "t_apply H" for H
proof
  fix t assume "t_inv t"
  then show "sorted_kvs (t_live t)"
    using sorted_t_entries sorted_live by (auto simp: t_inv_def t_live_def)
next
  fix t k v assume "t_inv t"
  then show "t_inv (t_apply H k v t)" by (rule t_inv_t_apply)
  from \<open>t_inv t\<close> show "t_live (t_apply H k v t) = kv_apply k v (t_live t)"
    by (auto simp: t_inv_def intro: t_live_t_apply)
qed

definition empty_tree :: btree where
  "empty_tree = TLeaf [] None"

lemma t_inv_empty [simp]: "t_inv empty_tree"
  by (auto simp: t_inv_def empty_tree_def)

lemma t_live_empty [simp]: "t_live empty_tree = []"
  by (simp add: empty_tree_def t_live_simps)

end
