(* ===== verification/Tree_Store.thy ===== *)
theory Tree_Store
  imports Tree_Spec
begin

text \<open>
  The node store of \<^verbatim>\<open>src/runtime/tree_db.rs\<close> and the copy-on-write mutation over it: loading and
  storing content-addressed nodes, directly in RocksDB or in the pending map of a batch, the
  recursive \<open>mutate_node\<close> and \<open>apply_single\<close>.

  The state is the database together with the batch context, if there is one
  (\<open>Option<&mut BatchWriteContext>\<close>). \<open>mutate_node\<close> follows identifiers read from the database,
  so it is a \<^theory_text>\<open>partial_function\<close>; the refinement theorem shows that it returns, and that
  what it returns is the mutation of \<open>Tree_Spec\<close>, whenever the nodes of the tree are stored and
  SHA-256 does not collide on the nodes concerned.
\<close>

section \<open>Operations\<close>

record batch_write_context =
  pending_nodes :: "(bytes \<times> bptree_node) list"
  ops_since_gc :: nat

type_synonym 'db store = "'db \<times> batch_write_context option"

definition default_batch :: batch_write_context where
  "default_batch = \<lparr>pending_nodes = [], ops_since_gc = 0\<rparr>"

definition load_node :: "('db, 'z) env_scheme \<Rightarrow> 'db \<Rightarrow> bytes \<Rightarrow> rocks_error + bptree_node" where
  "load_node E db i = (case db_get E db (node_key i) of
       Inl e \<Rightarrow> Inl e
     | Inr None \<Rightarrow> Inr (Leaf default_leaf)
     | Inr (Some bs) \<Rightarrow> (case decode_node_page E bs of
           Some node \<Rightarrow> Inr node
         | None \<Rightarrow> Inr (Leaf default_leaf)))"

definition load_leaf :: "('db, 'z) env_scheme \<Rightarrow> 'db \<Rightarrow> bytes \<Rightarrow> rocks_error + leaf_node" where
  "load_leaf E db i = (case load_node E db i of
       Inl e \<Rightarrow> Inl e | Inr (Leaf leaf) \<Rightarrow> Inr leaf | Inr (Internal _) \<Rightarrow> Inr default_leaf)"

definition load_internal :: "('db, 'z) env_scheme \<Rightarrow> 'db \<Rightarrow> bytes \<Rightarrow> rocks_error + internal_node" where
  "load_internal E db i = (case load_node E db i of
       Inl e \<Rightarrow> Inl e | Inr (Internal node) \<Rightarrow> Inr node | Inr (Leaf _) \<Rightarrow> Inr default_internal)"

definition load_node_with_ctx ::
  "('db, 'z) env_scheme \<Rightarrow> bytes \<Rightarrow> ('db store, rocks_error, bptree_node) comp" where
  "load_node_with_ctx E i s = (case snd s of
       Some ctx \<Rightarrow> (case map_of (pending_nodes ctx) i of
           Some node \<Rightarrow> Some (Inr node, s)
         | None \<Rightarrow> Some (load_node E (fst s) i, s))
     | None \<Rightarrow> Some (load_node E (fst s) i, s))"

definition store_node_with_ctx ::
  "('db, 'z) env_scheme \<Rightarrow> bptree_node \<Rightarrow> ('db store, rocks_error, bytes) comp" where
  "store_node_with_ctx E node s = (let i = hash_node E node in
     case snd s of
       Some ctx \<Rightarrow> Some (Inr i, (fst s, Some (if map_of (pending_nodes ctx) i = None
           then ctx\<lparr>pending_nodes := (i, node) # pending_nodes ctx\<rparr> else ctx)))
     | None \<Rightarrow> (case db_get E (fst s) (node_key i) of
           Inl e \<Rightarrow> Some (Inl e, s)
         | Inr (Some _) \<Rightarrow> Some (Inr i, s)
         | Inr None \<Rightarrow> (let w = db_put E (fst s) (node_key i) (encode_node_page E node) in
             (case fst w of Inl e \<Rightarrow> Some (Inl e, (snd w, None)) | Inr _ \<Rightarrow> Some (Inr i, (snd w, None))))))"

partial_function (option) mutate_node ::
  "('db, 'z) env_scheme \<Rightarrow> bytes \<Rightarrow> bytes \<Rightarrow> bytes option \<Rightarrow> 'db store
     \<Rightarrow> ((rocks_error + mutation_outcome) \<times> 'db store) option" where
  "mutate_node E node_id key value s =
     bindc (load_node_with_ctx E node_id) (\<lambda>node s. case node of
       Leaf leaf \<Rightarrow>
         (let w = leaf_write key value (entries leaf) in
          if \<not> fst w then ret (Node node_id) s
          else if length (snd w) \<le> MAX_LEAF_ENTRIES then
            bindc (store_node_with_ctx E (Leaf (leaf\<lparr>entries := snd w\<rparr>))) (\<lambda>new_id. ret (Node new_id)) s
          else
            (let mid = length (snd w) div 2;
                 right_entries = drop mid (snd w);
                 left_entries = take mid (snd w);
                 separator = le_key (right_entries ! 0) in
             bindc (store_node_with_ctx E
                 (Leaf \<lparr>entries = right_entries, next_leaf = next_leaf leaf\<rparr>)) (\<lambda>right_id.
             bindc (store_node_with_ctx E
                 (Leaf \<lparr>entries = left_entries, next_leaf = Some right_id\<rparr>)) (\<lambda>left_id.
             ret (Split left_id right_id separator))) s))
     | Internal internal \<Rightarrow>
         (if children internal = [] then ret (Node node_id) s
          else let idx = child_index_for_key (sep_keys internal) key in
          if \<not> idx < length (children internal) then ret (Node node_id) s
          else
            bindc (mutate_node E (children internal ! idx) key value) (\<lambda>child s.
              (let unchanged = (child = Node (children internal ! idx));
                   ks = (case child of Node _ \<Rightarrow> sep_keys internal
                     | Split l r sep \<Rightarrow> list_insert_at idx sep (sep_keys internal));
                   cs = (case child of Node new_child \<Rightarrow> (children internal)[idx := new_child]
                     | Split l r sep \<Rightarrow> list_insert_at (Suc idx) r ((children internal)[idx := l])) in
               if unchanged then ret (Node node_id) s
               else if length ks \<le> MAX_INTERNAL_KEYS then
                 bindc (store_node_with_ctx E (Internal \<lparr>sep_keys = ks, children = cs\<rparr>))
                   (\<lambda>new_id. ret (Node new_id)) s
               else
                 (let mid = length ks div 2 in
                  if length cs < mid + 1 then panic s else
                  bindc (store_node_with_ctx E (Internal
                      \<lparr>sep_keys = take mid ks, children = take (mid + 1) cs\<rparr>)) (\<lambda>left_id.
                  bindc (store_node_with_ctx E (Internal
                      \<lparr>sep_keys = drop (mid + 1) ks, children = drop (mid + 1) cs\<rparr>)) (\<lambda>right_id.
                  ret (Split left_id right_id (ks ! mid)))) s))) s)) s"

definition apply_single ::
  "('db, 'z) env_scheme \<Rightarrow> bytes \<Rightarrow> bytes \<Rightarrow> bytes option \<Rightarrow> ('db store, rocks_error, bytes) comp" where
  "apply_single E root key value = bindc (mutate_node E root key value) (\<lambda>res. case res of
       Node i \<Rightarrow> ret i
     | Split left right separator \<Rightarrow>
         store_node_with_ctx E (Internal \<lparr>sep_keys = [separator], children = [left, right]\<rparr>))"

section \<open>What a store holds\<close>

definition db_node :: "('db, 'z) env_scheme \<Rightarrow> ('db \<Rightarrow> bytes \<rightharpoonup> bytes) \<Rightarrow> 'db \<Rightarrow> bytes \<rightharpoonup> bptree_node" where
  "db_node E C db i = (case C db (node_key i) of None \<Rightarrow> None | Some bs \<Rightarrow> decode_node_page E bs)"

definition pending :: "'db store \<Rightarrow> bytes \<rightharpoonup> bptree_node" where
  "pending s = (case snd s of None \<Rightarrow> Map.empty | Some ctx \<Rightarrow> map_of (pending_nodes ctx))"

text \<open>Every node of the tree is in the database.\<close>

definition stored :: "('db, 'z) env_scheme \<Rightarrow> ('db \<Rightarrow> bytes \<rightharpoonup> bytes) \<Rightarrow> 'db \<Rightarrow> btree \<Rightarrow> bool" where
  "stored E C db t \<longleftrightarrow> (\<forall>n\<in>tree_nodes (hash_node E) t. db_node E C db (hash_node E n) = Some n)"

text \<open>
  Every node of the tree is pending, or it and everything below it is in the database. Without a
  batch this is \<open>stored\<close>.
\<close>

definition backed :: "('db, 'z) env_scheme \<Rightarrow> ('db \<Rightarrow> bytes \<rightharpoonup> bytes) \<Rightarrow> 'db store \<Rightarrow> btree \<Rightarrow> bool" where
  "backed E C s t \<longleftrightarrow> (\<forall>u\<in>set (subtrees t).
     pending s (root_id (hash_node E) u) = Some (node_of (hash_node E) u) \<or> stored E C (fst s) u)"

text \<open>
  SHA-256 does not collide on the nodes of \<open>T\<close>: no two of them have one identifier, and an
  identifier already used in the database or in the batch is used for the same node.
\<close>

definition collision_free ::
  "('db, 'z) env_scheme \<Rightarrow> ('db \<Rightarrow> bytes \<rightharpoonup> bytes) \<Rightarrow> 'db store \<Rightarrow> bptree_node set \<Rightarrow> bool" where
  "collision_free E C s T \<longleftrightarrow> inj_on (hash_node E) T
     \<and> (\<forall>n\<in>T. C (fst s) (node_key (hash_node E n)) = None \<or> db_node E C (fst s) (hash_node E n) = Some n)
     \<and> (\<forall>i n. pending s i = Some n \<longrightarrow> i = hash_node E n \<and> n \<in> T)"

text \<open>
  No node that was stored is lost or changed, and nothing but nodes is written.
\<close>

definition db_extends :: "('db, 'z) env_scheme \<Rightarrow> ('db \<Rightarrow> bytes \<rightharpoonup> bytes) \<Rightarrow> 'db \<Rightarrow> 'db \<Rightarrow> bool" where
  "db_extends E C db db' \<longleftrightarrow> (\<forall>i n. db_node E C db i = Some n \<longrightarrow> db_node E C db' i = Some n)
     \<and> (\<forall>k. (\<forall>i. k \<noteq> node_key i) \<longrightarrow> C db' k = C db k)"

text \<open>In a batch nodes are only added to the pending ones, and the database is not written.\<close>

definition extends :: "('db, 'z) env_scheme \<Rightarrow> ('db \<Rightarrow> bytes \<rightharpoonup> bytes) \<Rightarrow> 'db store \<Rightarrow> 'db store \<Rightarrow> bool" where
  "extends E C s s' \<longleftrightarrow> db_extends E C (fst s) (fst s')
     \<and> pending s \<subseteq>\<^sub>m pending s' \<and> (snd s = None \<longleftrightarrow> snd s' = None) \<and> (snd s \<noteq> None \<longrightarrow> fst s' = fst s)"

subsection \<open>Nodes of trees\<close>

lemma tree_nodes_simps [simp]:
  "tree_nodes H (TLeaf es nx) = {node_of H (TLeaf es nx)}"
  "tree_nodes H (TInner ks ts) = insert (node_of H (TInner ks ts)) (\<Union>t\<in>set ts. tree_nodes H t)"
  by (auto simp: tree_nodes_def)

lemma node_of_in_tree_nodes [simp]: "node_of H t \<in> tree_nodes H t"
  by (cases t) auto

lemma tree_nodes_subtree: "u \<in> set (subtrees t) \<Longrightarrow> tree_nodes H u \<subseteq> tree_nodes H t"
  by (induction t) auto

lemma subtrees_self [simp]: "t \<in> set (subtrees t)"
  by (cases t) auto

lemma node_of_inner: "node_of H (TInner ks ts) = Internal \<lparr>sep_keys = ks, children = map (root_id H) ts\<rparr>"
  by (simp add: root_id_def)

lemma tree_nodes_nth: "i < length ts \<Longrightarrow> tree_nodes H (ts ! i) \<subseteq> tree_nodes H (TInner ks ts)"
  using nth_mem [of i ts] by auto

lemma root_id_eqD:
  assumes "inj_on H T"
  shows "root_id H t = root_id H u \<Longrightarrow> tree_nodes H t \<subseteq> T \<Longrightarrow> tree_nodes H u \<subseteq> T \<Longrightarrow> t = u"
proof (induction t arbitrary: u)
  case (TLeaf es nx)
  then have "node_of H (TLeaf es nx) = node_of H u"
    using inj_onD [OF assms] by (metis node_of_in_tree_nodes root_id_def subsetD)
  then show ?case by (cases u) auto
next
  case (TInner ks ts)
  then have n: "node_of H (TInner ks ts) = node_of H u"
    using inj_onD [OF assms] by (metis node_of_in_tree_nodes root_id_def subsetD)
  then obtain us where u: "u = TInner ks us" "map (root_id H) ts = map (root_id H) us"
    by (cases u) (auto simp: root_id_def [abs_def])
  have "ts = us"
  proof (rule nth_equalityI)
    show len: "length ts = length us" using u(2) map_eq_imp_length_eq by blast
    fix i assume i: "i < length ts"
    with u(2) len have "root_id H (ts ! i) = root_id H (us ! i)" by (metis nth_map)
    moreover have "tree_nodes H (ts ! i) \<subseteq> T" "tree_nodes H (us ! i) \<subseteq> T"
      using TInner.prems(2,3) tree_nodes_nth [of i _ H ks] i len unfolding u(1) by (metis order.trans)+
    ultimately show "ts ! i = us ! i" using TInner.IH [OF nth_mem [OF i]] by blast
  qed
  with u show ?case by simp
qed

lemma outcome_nodes_simps [simp]:
  "outcome_nodes H (TNode t) = tree_nodes H t"
  "outcome_nodes H (TSplit l r s) = tree_nodes H l \<union> tree_nodes H r"
  by (simp_all add: outcome_nodes_def)

lemma outcome_nodes_t_inner: "t \<in> set ts \<Longrightarrow> tree_nodes H t \<subseteq> outcome_nodes H (t_inner ks ts)"
  using set_append [of "take (Suc (length ks div 2)) ts" "drop (Suc (length ks div 2)) ts"]
  by (auto simp: t_inner_def Let_def simp del: set_append)

subsection \<open>Loading and storing\<close>

lemma pending_simps [simp]:
  "pending (db, None) = Map.empty" "pending (db, Some ctx) = map_of (pending_nodes ctx)"
  by (simp_all add: pending_def)

lemma collision_freeD:
  assumes "collision_free E C s T" "n \<in> T"
  shows "C (fst s) (node_key (hash_node E n)) = None \<or> db_node E C (fst s) (hash_node E n) = Some n"
    and "pending s (hash_node E n) = Some m \<Longrightarrow> m = n"
  using assms by (auto simp: collision_free_def dest: inj_onD)

lemma load_node_stored:
  "env_ok E C \<Longrightarrow> db_node E C db i = Some n \<Longrightarrow> load_node E db i = Inr n"
  by (auto simp: load_node_def db_node_def env_simps split: option.splits)

lemma load_node_with_ctx_eq:
  "load_node_with_ctx E i s = Some (case pending s i of Some n \<Rightarrow> Inr n | None \<Rightarrow> load_node E (fst s) i, s)"
  by (cases s) (auto simp: load_node_with_ctx_def pending_def split: option.splits)

lemma backed_load:
  assumes "env_ok E C" "collision_free E C s T" "backed E C s t" "tree_nodes (hash_node E) t \<subseteq> T"
  shows "load_node_with_ctx E (root_id (hash_node E) t) s = Some (Inr (node_of (hash_node E) t), s)"
proof (cases "pending s (root_id (hash_node E) t)")
  case None
  with bspec [OF assms(3) [unfolded backed_def] subtrees_self] have "stored E C (fst s) t" by simp
  then have "db_node E C (fst s) (root_id (hash_node E) t) = Some (node_of (hash_node E) t)"
    by (simp add: stored_def root_id_def)
  with None assms(1) show ?thesis by (simp add: load_node_with_ctx_eq load_node_stored)
next
  case (Some m)
  then have "m = node_of (hash_node E) t"
    using collision_freeD(2) [OF assms(2) subsetD [OF assms(4) node_of_in_tree_nodes]]
    by (simp add: root_id_def)
  with Some show ?thesis by (simp add: load_node_with_ctx_eq)
qed

lemma backed_child: "backed E C s (TInner ks ts) \<Longrightarrow> t \<in> set ts \<Longrightarrow> backed E C s t"
  by (auto simp: backed_def)

lemma db_extends_refl [simp]: "db_extends E C db db"
  by (simp add: db_extends_def)

lemma db_extends_trans: "db_extends E C a b \<Longrightarrow> db_extends E C b c \<Longrightarrow> db_extends E C a c"
  by (simp add: db_extends_def)

lemma db_extends_stored: "db_extends E C db db' \<Longrightarrow> stored E C db t \<Longrightarrow> stored E C db' t"
  by (simp add: db_extends_def stored_def)

lemma extends_refl [simp]: "extends E C s s"
  by (simp add: extends_def)

lemma extends_trans: "extends E C r s \<Longrightarrow> extends E C s u \<Longrightarrow> extends E C r u"
  unfolding extends_def by (metis map_le_trans db_extends_trans)

lemma extends_backed: "extends E C s s' \<Longrightarrow> backed E C s t \<Longrightarrow> backed E C s' t"
  using db_extends_stored [of E C "fst s" "fst s'"]
  by (auto simp: backed_def extends_def map_le_def dom_def)

text \<open>The immediate subtrees of a tree; a node is stored after them.\<close>

fun t_children :: "btree \<Rightarrow> btree list" where
  "t_children (TLeaf es nx) = []"
| "t_children (TInner ks ts) = ts"

lemma subtrees_children: "set (subtrees t) = insert t (\<Union>c\<in>set (t_children t). set (subtrees c))"
  by (cases t) auto

lemma tree_nodes_children: "tree_nodes H t = insert (node_of H t) (\<Union>c\<in>set (t_children t). tree_nodes H c)"
  by (cases t) auto

lemma backed_children:
  "backed E C s t \<longleftrightarrow> (pending s (root_id (hash_node E) t) = Some (node_of (hash_node E) t)
     \<or> stored E C (fst s) t) \<and> (\<forall>c\<in>set (t_children t). backed E C s c)"
  unfolding backed_def subtrees_children [of t] by blast

lemma backed_direct: "snd s = None \<Longrightarrow> backed E C s t \<longleftrightarrow> stored E C (fst s) t"
  using tree_nodes_subtree [of _ t "hash_node E"]
  by (cases s) (auto simp: backed_def stored_def)

lemma store_node:
  assumes E: "env_ok E C" and cf: "collision_free E C s T" and n: "node_of (hash_node E) t \<in> T"
    and cs: "\<forall>c\<in>set (t_children t). backed E C s c"
  shows "\<exists>s'. store_node_with_ctx E (node_of (hash_node E) t) s = Some (Inr (root_id (hash_node E) t), s')
    \<and> extends E C s s' \<and> collision_free E C s' T \<and> backed E C s' t"
proof (cases "snd s")
  case None
  let ?n = "node_of (hash_node E) t" and ?i = "root_id (hash_node E) t"
  obtain db where s: "s = (db, None)" using None by (cases s) auto
  have "\<exists>db'. store_node_with_ctx E ?n s = Some (Inr ?i, (db', None)) \<and> extends E C s (db', None)
      \<and> collision_free E C (db', None) T \<and> db_node E C db' ?i = Some ?n"
  proof (cases "C db (node_key ?i)")
    case None
    let ?db = "snd (db_put E db (node_key ?i) (encode_node_page E ?n))"
    have C: "C ?db = (C db)(node_key ?i \<mapsto> encode_node_page E ?n)" by (rule env_ok_put(2) [OF E])
    have "db_node E C ?db j = (if j = ?i then Some ?n else db_node E C db j)" for j
      using E by (simp add: db_node_def C)
    moreover from this have "collision_free E C (?db, None) T"
      using cf n C by (auto simp: collision_free_def s root_id_def dest: inj_onD)
    moreover have "extends E C s (?db, None)"
      using None C E by (auto simp: extends_def db_extends_def s db_node_def split: option.splits)
    ultimately show ?thesis
      using E None by (auto simp: store_node_with_ctx_def s env_simps Let_def root_id_def)
  next
    case (Some v)
    with collision_freeD(1) [OF cf n] have "db_node E C db ?i = Some ?n" by (simp add: s root_id_def)
    with Some E cf show ?thesis
      by (auto simp: store_node_with_ctx_def s env_simps Let_def root_id_def)
  qed
  then obtain db' where db': "store_node_with_ctx E ?n s = Some (Inr ?i, (db', None))"
    "extends E C s (db', None)" "collision_free E C (db', None) T" "db_node E C db' ?i = Some ?n" by blast
  have "\<forall>c\<in>set (t_children t). stored E C db' c"
    using cs extends_backed [OF db'(2)] backed_direct [of "(db', None)" E C] by auto
  with db'(4) have "stored E C db' t"
    by (auto simp: stored_def tree_nodes_children [of _ t] root_id_def)
  with db' show ?thesis using backed_direct [of "(db', None)" E C t] by auto
next
  case (Some ctx)
  let ?n = "node_of (hash_node E) t" and ?i = "root_id (hash_node E) t"
  obtain db where s: "s = (db, Some ctx)" using Some by (cases s) auto
  define ctx' where "ctx' = (if map_of (pending_nodes ctx) ?i = None
      then ctx\<lparr>pending_nodes := (?i, ?n) # pending_nodes ctx\<rparr> else ctx)"
  have p: "pending (db, Some ctx') = (pending s)(?i \<mapsto> ?n)"
    using collision_freeD(2) [OF cf n] by (auto simp: ctx'_def s root_id_def fun_eq_iff)
  have ext: "extends E C s (db, Some ctx')"
    using collision_freeD(2) [OF cf n] unfolding extends_def p
    by (auto simp: s map_le_def root_id_def)
  have "collision_free E C (db, Some ctx') T"
    using cf n unfolding collision_free_def p by (auto simp: s root_id_def split: if_splits)
  moreover have "backed E C (db, Some ctx') t"
    using cs extends_backed [OF ext] unfolding backed_children [of E C _ t] p by simp
  moreover have "store_node_with_ctx E ?n s = Some (Inr ?i, (db, Some ctx'))"
    by (simp add: store_node_with_ctx_def s Let_def ctx'_def root_id_def)
  ultimately show ?thesis using ext by blast
qed

section \<open>The stored mutation refines the mutation of the tree\<close>

text \<open>
  A computation started in \<open>s\<close> returned \<open>r\<close>, kept everything stored, and backs the trees \<open>ts\<close>.
\<close>

definition produces ::
  "('db, 'z) env_scheme \<Rightarrow> ('db \<Rightarrow> bytes \<rightharpoonup> bytes) \<Rightarrow> bptree_node set \<Rightarrow> 'db store \<Rightarrow> btree list
     \<Rightarrow> ((rocks_error + 'a) \<times> 'db store) option \<Rightarrow> 'a \<Rightarrow> bool" where
  "produces E C T s ts x r \<longleftrightarrow> (\<exists>s'. x = Some (Inr r, s') \<and> extends E C s s'
     \<and> collision_free E C s' T \<and> (\<forall>u\<in>set ts. backed E C s' u))"

lemma produces_ret:
  "collision_free E C s T \<Longrightarrow> \<forall>u\<in>set ts. backed E C s u \<Longrightarrow> produces E C T s ts (ret r s) r"
  by (auto simp: produces_def)

lemma produces_bind:
  assumes "produces E C T s us (m s) a"
    and "\<And>s'. extends E C s s' \<Longrightarrow> collision_free E C s' T \<Longrightarrow> \<forall>u\<in>set us. backed E C s' u \<Longrightarrow>
      produces E C T s' ts (f a s') r"
  shows "produces E C T s ts (bindc m f s) r"
proof -
  obtain s' where s': "m s = Some (Inr a, s')" "extends E C s s'" "collision_free E C s' T"
    "\<forall>u\<in>set us. backed E C s' u" using assms(1) by (auto simp: produces_def)
  from assms(2) [OF s'(2-4)] show ?thesis
    using s'(1) extends_trans [OF s'(2)] by (auto simp: produces_def)
qed

lemma produces_store:
  assumes "env_ok E C" "collision_free E C s T" "tree_nodes (hash_node E) t \<subseteq> T"
    and "\<forall>c\<in>set (t_children t). backed E C s c"
  shows "produces E C T s [t] (store_node_with_ctx E (node_of (hash_node E) t) s) (root_id (hash_node E) t)"
  using store_node [OF assms(1,2) subsetD [OF assms(3) node_of_in_tree_nodes] assms(4)]
  by (auto simp: produces_def)

lemma produces_store1:
  assumes "env_ok E C" "collision_free E C s T" "tree_nodes (hash_node E) t \<subseteq> T"
    and "\<forall>c\<in>set (t_children t). backed E C s c"
  shows "produces E C T s [t] (bindc (store_node_with_ctx E (node_of (hash_node E) t)) (\<lambda>i. ret (g i)) s)
    (g (root_id (hash_node E) t))"
  by (rule produces_bind, rule produces_store [OF assms]) (rule produces_ret)

text \<open>Two nodes stored one after the other, where the second may refer to the first.\<close>

lemma produces_store2:
  assumes E: "env_ok E C" and cf: "collision_free E C s T"
    and T: "tree_nodes (hash_node E) t \<subseteq> T" "tree_nodes (hash_node E) u \<subseteq> T"
    and b: "\<forall>c\<in>set (t_children t). backed E C s c" "\<forall>c\<in>set (t_children u). backed E C s c"
    and ts: "set ts = {t, u}"
    and f: "\<And>s. f (root_id (hash_node E) t) s =
      bindc (store_node_with_ctx E (node_of (hash_node E) u)) (\<lambda>i. ret (g i)) s"
  shows "produces E C T s ts (bindc (store_node_with_ctx E (node_of (hash_node E) t)) f s)
    (g (root_id (hash_node E) u))"
proof (rule produces_bind, rule produces_store [OF E cf T(1) b(1)], unfold f)
  fix s' assume s': "extends E C s s'" "collision_free E C s' T" "\<forall>u\<in>set [t]. backed E C s' u"
  have bu: "\<forall>c\<in>set (t_children u). backed E C s' c" using b(2) extends_backed [OF s'(1)] by blast
  show "produces E C T s' ts (bindc (store_node_with_ctx E (node_of (hash_node E) u)) (\<lambda>i. ret (g i)) s')
      (g (root_id (hash_node E) u))"
  proof (rule produces_bind, rule produces_store [OF E s'(2) T(2) bu], rule produces_ret)
    fix s'' assume "extends E C s' s''" "collision_free E C s'' T" "\<forall>u\<in>set [u]. backed E C s'' u"
    with s'(3) ts show "\<forall>u\<in>set ts. backed E C s'' u" using extends_backed by fastforce
  qed
qed

lemma t_leaf_produces:
  assumes E: "env_ok E C" and cf: "collision_free E C s T"
    and T: "outcome_nodes (hash_node E) (t_leaf (hash_node E) es nx) \<subseteq> T"
  shows "length es \<le> MAX_LEAF_ENTRIES \<Longrightarrow>
     produces E C T s (outcome_trees (t_leaf (hash_node E) es nx))
      (bindc (store_node_with_ctx E (Leaf \<lparr>entries = es, next_leaf = nx\<rparr>)) (\<lambda>new_id. ret (Node new_id)) s)
      (outcome_ids (hash_node E) (t_leaf (hash_node E) es nx))"
    and "\<not> length es \<le> MAX_LEAF_ENTRIES \<Longrightarrow>
     produces E C T s (outcome_trees (t_leaf (hash_node E) es nx))
      (bindc (store_node_with_ctx E (Leaf \<lparr>entries = drop (length es div 2) es, next_leaf = nx\<rparr>))
         (\<lambda>right_id. bindc (store_node_with_ctx E
            (Leaf \<lparr>entries = take (length es div 2) es, next_leaf = Some right_id\<rparr>))
         (\<lambda>left_id. ret (Split left_id right_id (le_key (drop (length es div 2) es ! 0))))) s)
      (outcome_ids (hash_node E) (t_leaf (hash_node E) es nx))"
proof -
  assume "length es \<le> MAX_LEAF_ENTRIES"
  then show "produces E C T s (outcome_trees (t_leaf (hash_node E) es nx))
      (bindc (store_node_with_ctx E (Leaf \<lparr>entries = es, next_leaf = nx\<rparr>)) (\<lambda>new_id. ret (Node new_id)) s)
      (outcome_ids (hash_node E) (t_leaf (hash_node E) es nx))"
    using produces_store1 [OF E cf, of "TLeaf es nx" Node] T by (simp add: t_leaf_def)
next
  assume len: "\<not> length es \<le> MAX_LEAF_ENTRIES"
  let ?m = "length es div 2" and ?H = "hash_node E"
  have "drop ?m es ! 0 = es ! ?m" using len by (simp add: MAX_LEAF_ENTRIES_def)
  with len T show "produces E C T s (outcome_trees (t_leaf (hash_node E) es nx))
      (bindc (store_node_with_ctx E (Leaf \<lparr>entries = drop (length es div 2) es, next_leaf = nx\<rparr>))
         (\<lambda>right_id. bindc (store_node_with_ctx E
            (Leaf \<lparr>entries = take (length es div 2) es, next_leaf = Some right_id\<rparr>))
         (\<lambda>left_id. ret (Split left_id right_id (le_key (drop (length es div 2) es ! 0))))) s)
      (outcome_ids (hash_node E) (t_leaf (hash_node E) es nx))"
    using produces_store2 [OF E cf, of "TLeaf (drop ?m es) nx"
        "TLeaf (take ?m es) (Some (root_id ?H (TLeaf (drop ?m es) nx)))" 
        "outcome_trees (t_leaf ?H es nx)" _
        "\<lambda>i. Split i (root_id ?H (TLeaf (drop ?m es) nx)) (le_key (es ! ?m))"]
    by (simp add: t_leaf_def Let_def insert_commute)
qed

lemma t_inner_produces:
  fixes ks :: "bytes list" and ts :: "btree list"
  assumes E: "env_ok E C" and cf: "collision_free E C s T"
    and T: "outcome_nodes (hash_node E) (t_inner ks ts) \<subseteq> T" and b: "\<forall>t\<in>set ts. backed E C s t"
  defines "cs \<equiv> map (root_id (hash_node E)) ts" and "mid \<equiv> length ks div 2"
  shows "length ks \<le> MAX_INTERNAL_KEYS \<Longrightarrow> produces E C T s (outcome_trees (t_inner ks ts))
      (bindc (store_node_with_ctx E (Internal \<lparr>sep_keys = ks, children = cs\<rparr>)) (\<lambda>new_id. ret (Node new_id)) s)
      (outcome_ids (hash_node E) (t_inner ks ts))"
    and "\<not> length ks \<le> MAX_INTERNAL_KEYS \<Longrightarrow> produces E C T s (outcome_trees (t_inner ks ts))
      (bindc (store_node_with_ctx E (Internal \<lparr>sep_keys = take mid ks, children = take (mid + 1) cs\<rparr>))
         (\<lambda>left_id. bindc (store_node_with_ctx E
            (Internal \<lparr>sep_keys = drop (mid + 1) ks, children = drop (mid + 1) cs\<rparr>))
         (\<lambda>right_id. ret (Split left_id right_id (ks ! mid)))) s)
      (outcome_ids (hash_node E) (t_inner ks ts))"
proof -
  let ?H = "hash_node E"
  note n = node_of_inner [of ?H, symmetric]
  {
    assume "length ks \<le> MAX_INTERNAL_KEYS"
    then show "produces E C T s (outcome_trees (t_inner ks ts))
      (bindc (store_node_with_ctx E (Internal \<lparr>sep_keys = ks, children = cs\<rparr>)) (\<lambda>new_id. ret (Node new_id)) s)
      (outcome_ids (hash_node E) (t_inner ks ts))"
      using produces_store1 [OF E cf, of "TInner ks ts" Node] T b
      unfolding cs_def n by (simp add: t_inner_def)
  next
    assume len: "\<not> length ks \<le> MAX_INTERNAL_KEYS"
    let ?l = "TInner (take mid ks) (take (mid + 1) ts)" and ?r = "TInner (drop (mid + 1) ks) (drop (mid + 1) ts)"
    have out: "t_inner ks ts = TSplit ?l ?r (ks ! mid)" using len by (simp add: t_inner_def mid_def Let_def)
    have Tl: "tree_nodes ?H ?l \<subseteq> T" "tree_nodes ?H ?r \<subseteq> T"
      using T unfolding out outcome_nodes_simps by (rule le_sup_iff [THEN iffD1, THEN conjunct1],
        rule le_sup_iff [THEN iffD1, THEN conjunct2])
    have bl: "\<forall>c\<in>set (t_children ?l). backed E C s c" "\<forall>c\<in>set (t_children ?r). backed E C s c"
      using ball_take [OF b] ball_drop [OF b] by simp_all
    show "produces E C T s (outcome_trees (t_inner ks ts))
      (bindc (store_node_with_ctx E (Internal \<lparr>sep_keys = take mid ks, children = take (mid + 1) cs\<rparr>))
         (\<lambda>left_id. bindc (store_node_with_ctx E
            (Internal \<lparr>sep_keys = drop (mid + 1) ks, children = drop (mid + 1) cs\<rparr>))
         (\<lambda>right_id. ret (Split left_id right_id (ks ! mid)))) s)
      (outcome_ids (hash_node E) (t_inner ks ts))"
      using produces_store2 [OF E cf Tl bl, of "[?l, ?r]" _ "\<lambda>i. Split (root_id ?H ?l) i (ks ! mid)"]
      unfolding cs_def out take_map drop_map n by simp
  }
qed

lemma store_inner_produces:
  assumes E: "env_ok E C" and cf: "collision_free E C s T"
    and T: "outcome_nodes (hash_node E) (t_inner ks ts) \<subseteq> T" and b: "\<forall>t\<in>set ts. backed E C s t"
    and len: "length ts = Suc (length ks)" and cs: "cs = map (root_id (hash_node E)) ts"
  shows "produces E C T s (outcome_trees (t_inner ks ts))
    (if length ks \<le> MAX_INTERNAL_KEYS then
       bindc (store_node_with_ctx E (Internal \<lparr>sep_keys = ks, children = cs\<rparr>)) (\<lambda>new_id. ret (Node new_id)) s
     else if length cs < length ks div 2 + 1 then panic s
     else bindc (store_node_with_ctx E (Internal
              \<lparr>sep_keys = take (length ks div 2) ks, children = take (length ks div 2 + 1) cs\<rparr>))
            (\<lambda>left_id. bindc (store_node_with_ctx E (Internal
              \<lparr>sep_keys = drop (length ks div 2 + 1) ks, children = drop (length ks div 2 + 1) cs\<rparr>))
            (\<lambda>right_id. ret (Split left_id right_id (ks ! (length ks div 2))))) s)
    (outcome_ids (hash_node E) (t_inner ks ts))"
proof -
  have "\<not> length ts < length ks div 2 + 1" using len by linarith
  then show ?thesis using t_inner_produces [OF E cf T b] unfolding cs by simp
qed

lemma map_list_insert_at: "map f (list_insert_at i x xs) = list_insert_at i (f x) (map f xs)"
  by (simp add: list_insert_at_def take_map drop_map)

text \<open>The nodes of what the mutation of a child returns are nodes of what the parent returns.\<close>

lemma t_mutate_child_nodes:
  fixes k :: bytes
  assumes "child_index_for_key ks k < length ts"
  shows "outcome_nodes H (t_mutate H k v (ts ! child_index_for_key ks k))
    \<subseteq> outcome_nodes H (t_mutate H k v (TInner ks ts)) \<union> tree_nodes H (ts ! child_index_for_key ks k)"
proof (cases "t_mutate H k v (ts ! child_index_for_key ks k)")
  case (TNode c)
  have "c \<in> set (ts[child_index_for_key ks k := c])" using assms by (simp add: set_update_memI)
  from outcome_nodes_t_inner [OF this, of H ks] TNode assms show ?thesis by (auto simp: Let_def)
next
  case (TSplit l r s)
  let ?ts = "list_insert_at (Suc (child_index_for_key ks k)) r (ts[child_index_for_key ks k := l])"
  have "l \<in> set ?ts" "r \<in> set ?ts" unfolding list_insert_child(2) [OF assms] by auto
  from this [THEN outcome_nodes_t_inner] TSplit assms show ?thesis by (simp add: Let_def le_supI1)
qed

lemma mutate_node_produces:
  assumes E: "env_ok E C"
  shows "collision_free E C s T \<Longrightarrow> backed E C s t \<Longrightarrow> ordered lo hi t \<Longrightarrow>
    tree_nodes (hash_node E) t \<subseteq> T \<Longrightarrow> outcome_nodes (hash_node E) (t_mutate (hash_node E) k v t) \<subseteq> T \<Longrightarrow>
    produces E C T s (outcome_trees (t_mutate (hash_node E) k v t))
      (mutate_node E (root_id (hash_node E) t) k v s)
      (outcome_ids (hash_node E) (t_mutate (hash_node E) k v t))"
proof (induction t arbitrary: s lo hi)
  case (TLeaf es nx)
  note load = backed_load [OF E TLeaf.prems(1,2,4)]
  show ?case
  proof (cases "fst (leaf_write k v es)")
    case True
    then have "outcome_nodes (hash_node E) (t_leaf (hash_node E) (snd (leaf_write k v es)) nx) \<subseteq> T"
      using TLeaf.prems(5) by simp
    from t_leaf_produces [OF E TLeaf.prems(1) this] True show ?thesis
      by (subst mutate_node.simps) (simp add: Let_def load)
  next
    case False
    then show ?thesis
      using produces_ret [OF TLeaf.prems(1), of "[TLeaf es nx]"] TLeaf.prems(2)
      by (subst mutate_node.simps) (simp add: Let_def load)
  qed
next
  case (TInner ks ts)
  let ?i = "child_index_for_key ks k" and ?H = "hash_node E"
  let ?cs = "map (root_id ?H) ts" and ?out = "t_mutate ?H k v (ts ! ?i)"
  have ch: "chain ordered lo hi ks ts" using TInner.prems(3) by simp
  note c = chain_child [OF ch, of k] and len = chain_length [OF ch]
  note load = backed_load [OF E TInner.prems(1,2,4), unfolded node_of_inner]
  obtain l h where oc: "ordered l h (ts ! ?i)" using chain_member [OF ch nth_mem [OF c(1)]] by blast
  have Tc: "tree_nodes ?H (ts ! ?i) \<subseteq> T" using TInner.prems(4) tree_nodes_nth [OF c(1)] by blast
  have To: "outcome_nodes ?H ?out \<subseteq> T"
    using TInner.prems(5) t_mutate_child_nodes [OF c(1), of ?H v] Tc by blast
  have rec: "produces E C T s (outcome_trees ?out) (mutate_node E (?cs ! ?i) k v s) (outcome_ids ?H ?out)"
    using TInner.IH [OF nth_mem [OF c(1)] TInner.prems(1) _ oc Tc To] c(1)
      backed_child [OF TInner.prems(2) nth_mem [OF c(1)]] by simp
  have ne: "?cs \<noteq> []" using len by auto
  show ?case
  proof (subst mutate_node.simps, simp only: bindc_Inr load bptree_node.case internal_node.simps
      Let_def length_map ne c(1) not_True_eq_False if_False, rule produces_bind, rule rec, goal_cases)
    case (1 s')
    note cf = 1(2) and b = extends_backed [OF 1(1) TInner.prems(2)]
    show ?case
    proof (cases ?out)
      case (TNode d)
      show ?thesis
      proof (cases "d = ts ! ?i")
        case True
        then show ?thesis using produces_ret [OF cf, of "[TInner ks ts]"] b TNode c(1) by (simp add: Let_def)
      next
        case False
        have ne': "root_id ?H d \<noteq> root_id ?H (ts ! ?i)"
          using False root_id_eqD [of ?H T d "ts ! ?i"] To Tc TNode cf by (auto simp: collision_free_def)
        have bs: "\<forall>t\<in>set (ts[?i := d]). backed E C s' t"
          using 1(3) TNode backed_child [OF b] by (auto dest!: set_update_subset_insert [THEN subsetD])
        have To': "outcome_nodes ?H (t_inner ks (ts[?i := d])) \<subseteq> T"
          using TInner.prems(5) TNode False c(1) by (simp add: Let_def)
        have len': "length (ts[?i := d]) = Suc (length ks)" using len by simp
        from store_inner_produces [OF E cf To' bs len' refl] TNode False ne' c(1) show ?thesis
          by (simp add: Let_def map_update split del: if_split cong: if_cong)
      qed
    next
      case (TSplit l r sep)
      let ?ks = "list_insert_at ?i sep ks" and ?ts = "list_insert_at (Suc ?i) r (ts[?i := l])"
      have bs: "\<forall>t\<in>set ?ts. backed E C s' t"
        using 1(3) TSplit backed_child [OF b] unfolding list_insert_child(2) [OF c(1)]
        by (auto dest: in_set_takeD in_set_dropD)
      have To': "outcome_nodes ?H (t_inner ?ks ?ts) \<subseteq> T"
        using TInner.prems(5) TSplit c(1) by (simp add: Let_def)
      have len': "length ?ts = Suc (length ?ks)" using len c(1) by (simp add: list_insert_at_def)
      from store_inner_produces [OF E cf To' bs len' refl] TSplit c(1) show ?thesis
        by (simp add: Let_def map_update map_list_insert_at split del: if_split cong: if_cong)
    qed
  qed
qed

text \<open>
  \<open>apply_single\<close> computes the identifier of the tree \<open>t_apply\<close> gives, and the new tree is stored.
\<close>

lemma apply_single_produces:
  assumes E: "env_ok E C" and cf: "collision_free E C s T" and b: "backed E C s t" and o: "ordered lo hi t"
    and T: "tree_nodes (hash_node E) t \<subseteq> T" "tree_nodes (hash_node E) (t_apply (hash_node E) k v t) \<subseteq> T"
  shows "produces E C T s [t_apply (hash_node E) k v t] (apply_single E (root_id (hash_node E) t) k v s)
    (root_id (hash_node E) (t_apply (hash_node E) k v t))"
proof -
  let ?H = "hash_node E" and ?out = "t_mutate (hash_node E) k v t"
  have "outcome_nodes ?H ?out \<subseteq> T" using T(2) by (cases ?out) (auto simp: t_apply_def)
  from mutate_node_produces [OF E cf b o T(1) this]
  have m: "produces E C T s (outcome_trees ?out) (mutate_node E (root_id ?H t) k v s) (outcome_ids ?H ?out)" .
  show ?thesis
    unfolding apply_single_def
  proof (rule produces_bind, rule m, goal_cases)
    case (1 s')
    show ?case
    proof (cases ?out)
      case (TNode u)
      then show ?thesis using produces_ret [OF 1(2), of "[u]"] 1(3) by (simp add: t_apply_def)
    next
      case (TSplit l r sep)
      then show ?thesis
        using produces_store [OF E 1(2), of "TInner [sep] [l, r]"] 1(3) T(2)
        by (simp add: t_apply_def root_id_def)
    qed
  qed
qed

end
