(* ===== verification/Tree_Batch.thy ===== *)
theory Tree_Batch
  imports Tree_Store
begin

text \<open>
  Batches of \<^verbatim>\<open>src/runtime/tree_db.rs\<close>: the in-memory cache of pending nodes with its garbage
  collection and its flush, and the loop of \<open>apply_batch_owned\<close> over the canonical changes.

  The loops over the pending nodes terminate because every step marks an identifier as visited
  or shortens the stack. Garbage collection drops only nodes the new root does not reach, and a
  flush writes every pending node the root reaches; so after a batch the new tree is in the
  database, the trees that were there still are, and it is the tree that results from applying
  the changes one by one.
\<close>

section \<open>Operations\<close>

definition BATCH_PENDING_GC_INTERVAL :: nat where
  "BATCH_PENDING_GC_INTERVAL = 8192"

definition BATCH_PENDING_SOFT_LIMIT :: nat where
  "BATCH_PENDING_SOFT_LIMIT = 25000"

definition BATCH_PENDING_SOFT_GC_INTERVAL :: nat where
  "BATCH_PENDING_SOFT_GC_INTERVAL = 4096"

definition BATCH_PENDING_HARD_LIMIT :: nat where
  "BATCH_PENDING_HARD_LIMIT = 50000"

definition usize_saturating_add :: "nat \<Rightarrow> nat \<Rightarrow> nat" where
  "usize_saturating_add a b = min (a + b) (2 ^ 64 - 1)"

text \<open>The worklist loop of \<open>retain_reachable_pending_nodes\<close>; the head of the stack is popped first.\<close>

function reach_loop :: "(bytes \<times> bptree_node) list \<Rightarrow> bytes list \<Rightarrow> bytes list \<Rightarrow> bytes list" where
  "reach_loop pend [] reachable = reachable"
| "reach_loop pend (i # stack) reachable =
     (if i \<in> set reachable then reach_loop pend stack reachable
      else case map_of pend i of
        None \<Rightarrow> reach_loop pend stack (i # reachable)
      | Some (Leaf _) \<Rightarrow> reach_loop pend stack (i # reachable)
      | Some (Internal internal) \<Rightarrow> reach_loop pend (rev (children internal) @ stack) (i # reachable))"
  by pat_completeness auto

text \<open>The worklist loop of \<open>flush_pending_batch_nodes\<close>.\<close>

function flush_loop ::
  "('db, 'z) env_scheme \<Rightarrow> (bytes \<times> bptree_node) list \<Rightarrow> bytes list \<Rightarrow> bytes list \<Rightarrow> batch_op list
     \<Rightarrow> nat \<Rightarrow> batch_op list \<times> nat" where
  "flush_loop E pend [] visited wb writes = (wb, writes)"
| "flush_loop E pend (i # stack) visited wb writes =
     (if i \<in> set visited then flush_loop E pend stack visited wb writes
      else case map_of pend i of
        None \<Rightarrow> flush_loop E pend stack (i # visited) wb writes
      | Some node \<Rightarrow>
          flush_loop E pend
            ((case node of Internal internal \<Rightarrow> rev (children internal) | Leaf _ \<Rightarrow> []) @ stack)
            (i # visited) (wb @ [BPut (node_key i) (encode_node_page E node)])
            (usize_saturating_add writes 1))"
  by pat_completeness auto

definition unvisited :: "(bytes \<times> bptree_node) list \<Rightarrow> bytes list \<Rightarrow> nat" where
  "unvisited pend visited = card (dom (map_of pend) - set visited)"

lemma unvisited_mono: "unvisited pend (i # visited) \<le> unvisited pend visited"
  by (auto simp: unvisited_def finite_dom_map_of intro: card_mono)

lemma unvisited_less:
  "map_of pend i = Some n \<Longrightarrow> i \<notin> set visited \<Longrightarrow> unvisited pend (i # visited) < unvisited pend visited"
  unfolding unvisited_def by (rule psubset_card_mono) (auto simp: finite_dom_map_of)

lemma unvisited_same: "map_of pend i = None \<Longrightarrow> unvisited pend (i # visited) = unvisited pend visited"
  unfolding unvisited_def by (rule arg_cong [where f = card]) auto

termination reach_loop
proof (relation "measures [\<lambda>(p, st, v). unvisited p v, \<lambda>(p, st, v). length st]", goal_cases)
  case (4 pend i stack reachable n leaf)
  then show ?case using unvisited_mono [of pend i reachable] by (auto simp: less_le)
qed (auto simp: unvisited_same unvisited_less)

termination flush_loop
  by (relation "measures [\<lambda>(E, p, st, v, wb, w). unvisited p v, \<lambda>(E, p, st, v, wb, w). length st]")
    (auto simp: unvisited_same unvisited_less)

definition retain_reachable_pending_nodes :: "bytes \<Rightarrow> batch_write_context \<Rightarrow> batch_write_context" where
  "retain_reachable_pending_nodes root ctx =
     (if pending_nodes ctx = [] then ctx
      else let reachable = reach_loop (pending_nodes ctx) [root] [] in
        if length reachable = length (pending_nodes ctx) then ctx
        else ctx\<lparr>pending_nodes := filter (\<lambda>e. fst e \<in> set reachable) (pending_nodes ctx)\<rparr>)"

definition flush_pending_batch_nodes ::
  "('db, 'z) env_scheme \<Rightarrow> bytes \<Rightarrow> batch_write_context \<Rightarrow> ('db, rocks_error, unit) comp" where
  "flush_pending_batch_nodes E root ctx db =
     (if pending_nodes ctx = [] then Some (Inr (), db)
      else let r = flush_loop E (pending_nodes ctx) [root] [] [] 0 in
        if snd r = 0 then Some (Inr (), db) else Some (db_write E db (fst r)))"

definition maybe_compact_batch_nodes ::
  "('db, 'z) env_scheme \<Rightarrow> bytes \<Rightarrow> ('db \<times> batch_write_context, rocks_error, unit) comp" where
  "maybe_compact_batch_nodes E root s =
     (let db = fst s; ctx = snd s in
      if pending_nodes ctx = [] then Some (Inr (), s)
      else
        let ctx = ctx\<lparr>ops_since_gc := usize_saturating_add (ops_since_gc ctx) 1\<rparr>;
            over_soft = length (pending_nodes ctx) \<ge> BATCH_PENDING_SOFT_LIMIT;
            should_gc = (ops_since_gc ctx \<ge> BATCH_PENDING_GC_INTERVAL
              \<or> (over_soft \<and> ops_since_gc ctx \<ge> BATCH_PENDING_SOFT_GC_INTERVAL));
            ctx = (if should_gc then (retain_reachable_pending_nodes root ctx)\<lparr>ops_since_gc := 0\<rparr> else ctx)
        in
        if length (pending_nodes ctx) \<ge> BATCH_PENDING_HARD_LIMIT then
          let ctx = retain_reachable_pending_nodes root ctx in
          (case flush_pending_batch_nodes E root ctx db of
             None \<Rightarrow> None
           | Some (Inl e, db) \<Rightarrow> Some (Inl e, (db, ctx))
           | Some (Inr _, db) \<Rightarrow> Some (Inr (), (db, ctx\<lparr>pending_nodes := [], ops_since_gc := 0\<rparr>)))
        else Some (Inr (), (db, ctx)))"

text \<open>An operation on the store, run with \<open>Some(&mut batch_ctx)\<close>.\<close>

definition in_batch :: "('db store, 'e, 'a) comp \<Rightarrow> ('db \<times> batch_write_context, 'e, 'a) comp" where
  "in_batch m s = (case m (fst s, Some (snd s)) of
       None \<Rightarrow> None
     | Some (r, (db, ctx)) \<Rightarrow> Some (r, (db, case ctx of Some c \<Rightarrow> c | None \<Rightarrow> snd s)))"

fun batch_loop ::
  "('db, 'z) env_scheme \<Rightarrow> bytes \<Rightarrow> change list \<Rightarrow> ('db \<times> batch_write_context, rocks_error, bytes) comp" where
  "batch_loop E root [] = ret root"
| "batch_loop E root (c # changes) =
     bindc (in_batch (apply_single E root (fst c) (snd c))) (\<lambda>root.
     bindc (maybe_compact_batch_nodes E root) (\<lambda>_. batch_loop E root changes))"

text \<open>
  The canonicalisation of the changes: a stable sort by key, then an in-place compaction that
  keeps the last value of a run of equal keys (\<open>write\<close> and \<open>read\<close> are positions).
\<close>

fun compact_loop :: "nat list \<Rightarrow> nat \<Rightarrow> change list \<Rightarrow> nat \<times> change list" where
  "compact_loop [] write changes = (write, changes)"
| "compact_loop (read # reads) write changes =
     (if write > 0 \<and> fst (changes ! (write - 1)) = fst (changes ! read) then
        let replacement = snd (changes ! read);
            changes = changes[read := (fst (changes ! read), None)] in
        compact_loop reads write (changes[write - 1 := (fst (changes ! (write - 1)), replacement)])
      else
        compact_loop reads (write + 1)
          (if write \<noteq> read then changes[write := changes ! read, read := changes ! write] else changes))"

definition canonicalize :: "change list \<Rightarrow> change list" where
  "canonicalize changes =
     (let r = compact_loop [0..<length changes] 0 (sort_key fst changes) in take (fst r) (snd r))"

section \<open>The tree database and its state\<close>

record block_context =
  bc_height :: u32
  bc_block_hash :: bytes
  bc_parent_hash :: bytes
  working_root :: bytes

record tree_state =
  st_active_root :: bytes
  active_block :: "bytes option"
  pinned_root :: "bytes option"
  pin_until_height :: "u32 option"
  current_block :: "block_context option"

definition default_tree_state :: "('db, 'z) env_scheme \<Rightarrow> tree_state" where
  "default_tree_state E = \<lparr>st_active_root = empty_root_id E, active_block = None, pinned_root = None,
     pin_until_height = None, current_block = None\<rparr>"

record 'db tree_db =
  tdb :: 'db
  tstate :: tree_state

definition on_db :: "('db, 'e, 'a) comp \<Rightarrow> ('db tree_db, 'e, 'a) comp" where
  "on_db m d = map_option (\<lambda>rs. (fst rs, d\<lparr>tdb := snd rs\<rparr>)) (m (tdb d))"

definition on_state :: "(tree_state \<Rightarrow> tree_state) \<Rightarrow> ('db tree_db, 'e, unit) comp" where
  "on_state f d = Some (Inr (), d\<lparr>tstate := f (tstate d)\<rparr>)"

text \<open>Writing the active root, and the active block where there is one, to the database.\<close>

definition active_ops :: "tree_state \<Rightarrow> batch_op list" where
  "active_ops st = BPut META_ACTIVE_ROOT (st_active_root st)
     # (case active_block st of Some b \<Rightarrow> [BPut META_ACTIVE_BLOCK b] | None \<Rightarrow> [])"

definition set_working_root :: "bytes \<Rightarrow> tree_state \<Rightarrow> tree_state" where
  "set_working_root root st =
     st\<lparr>current_block := map_option (\<lambda>ctx. ctx\<lparr>working_root := root\<rparr>) (current_block st)\<rparr>"

definition apply_mutation ::
  "('db, 'z) env_scheme \<Rightarrow> bytes \<Rightarrow> bytes option \<Rightarrow> ('db tree_db, rocks_error, unit) comp" where
  "apply_mutation E key value d =
     (let apply = (\<lambda>root db. map_option (\<lambda>rs. (fst rs, fst (snd rs))) (apply_single E root key value (db, None))) in
      case current_block (tstate d) of
        Some ctx \<Rightarrow> bindc (on_db (apply (working_root ctx))) (\<lambda>root. on_state (set_working_root root)) d
      | None \<Rightarrow> bindc (on_db (apply (st_active_root (tstate d)))) (\<lambda>root.
          bindc (on_state (\<lambda>st. st\<lparr>st_active_root := root\<rparr>)) (\<lambda>_ d.
            on_db (\<lambda>db. Some (db_write E db (active_ops (tstate d)))) d)) d)"

definition tree_put :: "('db, 'z) env_scheme \<Rightarrow> bytes \<Rightarrow> bytes \<Rightarrow> ('db tree_db, rocks_error, unit) comp" where
  "tree_put E key value = apply_mutation E key (Some value)"

definition tree_delete :: "('db, 'z) env_scheme \<Rightarrow> bytes \<Rightarrow> ('db tree_db, rocks_error, unit) comp" where
  "tree_delete E key = apply_mutation E key None"

text \<open>The loop over the canonical changes from a root, and the flush after it.\<close>

definition run_batch :: "('db, 'z) env_scheme \<Rightarrow> bytes \<Rightarrow> change list \<Rightarrow> ('db, rocks_error, bytes) comp" where
  "run_batch E root changes db = (case batch_loop E root changes (db, default_batch) of
       None \<Rightarrow> None
     | Some (Inl e, s) \<Rightarrow> Some (Inl e, fst s)
     | Some (Inr root, s) \<Rightarrow>
         bindc (flush_pending_batch_nodes E root (snd s)) (\<lambda>_. ret root) (fst s))"

definition apply_batch_owned ::
  "('db, 'z) env_scheme \<Rightarrow> change list \<Rightarrow> ('db tree_db, rocks_error, unit) comp" where
  "apply_batch_owned E changes d =
     (if changes = [] then ret () d
      else let changes = canonicalize changes in
      case current_block (tstate d) of
        Some ctx \<Rightarrow> bindc (on_db (run_batch E (working_root ctx) changes))
          (\<lambda>root. on_state (set_working_root root)) d
      | None \<Rightarrow> bindc (on_db (run_batch E (st_active_root (tstate d)) changes)) (\<lambda>root.
          bindc (on_state (\<lambda>st. st\<lparr>st_active_root := root\<rparr>)) (\<lambda>_ d.
            on_db (\<lambda>db. Some (db_write E db (active_ops (tstate d)))) d)) d)"

definition apply_batch ::
  "('db, 'z) env_scheme \<Rightarrow> change list \<Rightarrow> ('db tree_db, rocks_error, unit) comp" where
  "apply_batch E changes = (if changes = [] then ret () else apply_batch_owned E changes)"

section \<open>Canonical changes\<close>

text \<open>The compaction keeps the last change of a run of equal keys.\<close>

definition keep_last :: "change list \<Rightarrow> change \<Rightarrow> change list" where
  "keep_last acc c = (if acc \<noteq> [] \<and> fst (last acc) = fst c then butlast acc @ [c] else acc @ [c])"

lemma compact_loop_eq:
  assumes "wr \<le> r" "r \<le> length cs" "length cs = length cs0"
    and "take wr cs = foldl keep_last [] (take r cs0)" "drop r cs = drop r cs0"
  shows "\<exists>w cs'. compact_loop [r..<length cs] wr cs = (w, cs') \<and> take w cs' = foldl keep_last [] cs0"
  using assms
proof (induction "length cs - r" arbitrary: r wr cs)
  case 0
  then have "r = length cs0" by simp
  with 0 show ?case by simp
next
  case (Suc n)
  then have r: "r < length cs" "r < length cs0" by simp_all
  then have upt: "[r..<length cs] = r # [Suc r..<length cs]" by (simp add: upt_rec)
  have csr: "cs ! r = cs0 ! r" using Suc.prems(5) r by (metis Cons_nth_drop_Suc list.inject)
  have tk: "foldl keep_last [] (take (Suc r) cs0) = keep_last (take wr cs) (cs0 ! r)"
    using r Suc.prems(4) by (simp add: take_Suc_conv_app_nth)
  have drop': "drop (Suc r) cs = drop (Suc r) cs0" using Suc.prems(5) by (metis drop_Suc tl_drop)
  have last: "last (take wr cs) = cs ! (wr - 1)" if "wr > 0"
    using that Suc.prems(1) r by (subst last_conv_nth) (auto simp: min_def)
  show ?case
  proof (cases "wr > 0 \<and> fst (cs ! (wr - 1)) = fst (cs ! r)")
    case True
    let ?cs = "(cs[r := (fst (cs ! r), None)])[wr - 1 := (fst (cs[r := (fst (cs ! r), None)] ! (wr - 1)), snd (cs ! r))]"
    have lt: "wr - 1 < r" using True Suc.prems(1) by linarith
    have "take wr ?cs = butlast (take wr cs) @ [cs0 ! r]"
    proof -
      have w: "wr = Suc (wr - 1)" using True by simp
      have "take wr ?cs = take (wr - 1) cs @ [cs0 ! r]"
        using lt r True csr by (subst w, subst take_Suc_conv_app_nth) (auto simp: prod_eq_iff)
      then show ?thesis using lt r by (simp add: butlast_take)
    qed
    then have "take wr ?cs = foldl keep_last [] (take (Suc r) cs0)"
      using True last r Suc.prems(1) csr by (auto simp: tk keep_last_def)
    moreover have "drop (Suc r) ?cs = drop (Suc r) cs0" using drop' lt by simp
    ultimately have "\<exists>w cs'. compact_loop [Suc r..<length ?cs] wr ?cs = (w, cs')
        \<and> take w cs' = foldl keep_last [] cs0"
      using Suc.hyps(2) r Suc.prems(1,3) by (intro Suc.hyps(1)) simp_all
    with True show ?thesis by (simp add: upt Let_def)
  next
    case False
    let ?cs = "if wr \<noteq> r then cs[wr := cs ! r, r := cs ! wr] else cs"
    have "take (wr + 1) ?cs = take wr cs @ [cs0 ! r]"
      using r Suc.prems(1) csr by (cases "wr = r") (auto simp: take_Suc_conv_app_nth)
    then have "take (wr + 1) ?cs = foldl keep_last [] (take (Suc r) cs0)"
      using False last r Suc.prems(1) csr by (auto simp: tk keep_last_def)
    moreover have "drop (Suc r) ?cs = drop (Suc r) cs0" using drop' Suc.prems(1) by simp
    ultimately have "\<exists>w cs'. compact_loop [Suc r..<length ?cs] (wr + 1) ?cs = (w, cs')
        \<and> take w cs' = foldl keep_last [] cs0"
      using Suc.hyps(2) r Suc.prems(1,3) by (intro Suc.hyps(1)) auto
    with False show ?thesis by (auto simp: upt split: if_splits)
  qed
qed

lemma canonicalize_eq: "canonicalize cs = foldl keep_last [] (sort_key fst cs)"
  using compact_loop_eq [of 0 0 "sort_key fst cs" "sort_key fst cs"]
  by (auto simp: canonicalize_def Let_def)

lemma foldl_keep_last:
  assumes "sorted (map fst (acc @ cs))" "sorted_wrt (<) (map fst acc)"
  shows "sorted_wrt (<) (map fst (foldl keep_last acc cs))
    \<and> kv_changes (foldl keep_last acc cs) m = kv_changes (acc @ cs) m"
  using assms
proof (induction cs arbitrary: acc)
  case (Cons c cs)
  show ?case
  proof (cases "acc \<noteq> [] \<and> fst (last acc) = fst c")
    case True
    then obtain as k v where acc: "acc = as @ [(k, v)]" "fst c = k"
      by (metis append_butlast_last_id prod.collapse)
    with True Cons.prems have "sorted (map fst ((as @ [c]) @ cs))" "sorted_wrt (<) (map fst (as @ [c]))"
      by (auto simp: sorted_append sorted_wrt_append)
    from Cons.IH [OF this] show ?thesis using True acc by (simp add: keep_last_def)
  next
    case False
    have "fst a < fst c" if a: "a \<in> set acc" for a
    proof -
      have "acc \<noteq> []" using a by auto
      with False have "fst (last acc) \<noteq> fst c" by simp
      moreover have "fst (last acc) \<le> fst c" using \<open>acc \<noteq> []\<close> Cons.prems(1) by (simp add: sorted_append)
      moreover have "fst a \<le> fst (last acc)"
        using a Cons.prems(2) by (cases acc rule: rev_cases) (auto simp: sorted_wrt_append less_imp_le)
      ultimately show ?thesis by simp
    qed
    with Cons.prems have "sorted (map fst ((acc @ [c]) @ cs))" "sorted_wrt (<) (map fst (acc @ [c]))"
      by (auto simp: sorted_wrt_append)
    from Cons.IH [OF this] show ?thesis using False by (auto simp: keep_last_def)
  qed
qed simp

lemma kv_changes_apply:
  "kv_changes cs m k = (case map_of (rev cs) k of Some v \<Rightarrow> v | None \<Rightarrow> m k)"
  by (induction cs rule: rev_induct) (auto split: option.splits)

lemma map_of_key_filter: "map_of xs k = map_of (filter (\<lambda>e. fst e = k) xs) k"
  by (induction xs) auto

lemma kv_changes_sort: "kv_changes (sort_key fst cs) m = kv_changes cs m"
proof
  fix k
  have "map_of (rev (sort_key fst cs)) k = map_of (rev cs) k"
    by (subst (1 2) map_of_key_filter) (simp add: rev_filter [symmetric] sort_key_stable)
  then show "kv_changes (sort_key fst cs) m k = kv_changes cs m k" by (simp add: kv_changes_apply)
qed

lemma canonicalize_changes: "kv_changes (canonicalize cs) m = kv_changes cs m"
  using foldl_keep_last [of "[]" "sort_key fst cs" m] by (simp add: canonicalize_eq kv_changes_sort)

lemma canonicalize_sorted: "sorted_wrt (<) (map fst (canonicalize cs))"
  using foldl_keep_last [of "[]" "sort_key fst cs"] by (simp add: canonicalize_eq)

section \<open>Reachable pending nodes\<close>

text \<open>A set of identifiers closed under the children of pending nodes.\<close>

definition closed_ids :: "(bytes \<rightharpoonup> bptree_node) \<Rightarrow> bytes set \<Rightarrow> bytes set \<Rightarrow> bool" where
  "closed_ids pend I J \<longleftrightarrow> (\<forall>i\<in>I. \<forall>node. pend i = Some (Internal node) \<longrightarrow> set (children node) \<subseteq> J)"

lemma reach_loop_closed:
  "closed_ids (map_of pend) (set vis) (set vis \<union> set st) \<Longrightarrow>
   set vis \<union> set st \<subseteq> set (reach_loop pend st vis)
   \<and> closed_ids (map_of pend) (set (reach_loop pend st vis)) (set (reach_loop pend st vis))"
proof (induction pend st vis rule: reach_loop.induct)
  case (2 pend i st vis)
  show ?case
  proof (cases "i \<in> set vis")
    case True
    with 2 show ?thesis by (auto simp: insert_absorb)
  next
    case False
    show ?thesis
    proof (cases "map_of pend i")
      case None
      with 2(5) have "closed_ids (map_of pend) (set (i # vis)) (set (i # vis) \<union> set st)"
        by (auto simp: closed_ids_def)
      from 2(2) [OF False None this] False None show ?thesis by simp
    next
      case (Some n)
      show ?thesis
      proof (cases n)
        case (Leaf leaf)
        with 2(5) Some have "closed_ids (map_of pend) (set (i # vis)) (set (i # vis) \<union> set st)"
          by (auto simp: closed_ids_def)
        from 2(3) [OF False Some Leaf this] False Some Leaf show ?thesis by simp
      next
        case (Internal node)
        with 2(5) Some have "closed_ids (map_of pend) (set (i # vis))
            (set (i # vis) \<union> set (rev (children node) @ st))"
          by (auto simp: closed_ids_def)
        from 2(4) [OF False Some Internal this] False Some Internal show ?thesis by auto
      qed
    qed
  qed
qed simp

text \<open>What the flush writes for an identifier.\<close>

definition put_of :: "('db, 'z) env_scheme \<Rightarrow> (bytes \<times> bptree_node) list \<Rightarrow> bytes \<Rightarrow> batch_op list" where
  "put_of E pend i = (case map_of pend i of
       None \<Rightarrow> [] | Some node \<Rightarrow> [BPut (node_key i) (encode_node_page E node)])"

lemma put_of_simps:
  "map_of pend i = None \<Longrightarrow> put_of E pend i = []"
  "map_of pend i = Some n \<Longrightarrow> put_of E pend i = [BPut (node_key i) (encode_node_page E n)]"
  by (simp_all add: put_of_def)

lemma flush_loop_eq:
  "\<exists>new w. reach_loop pend st vis = rev new @ vis
     \<and> flush_loop E pend st vis wb writes = (wb @ concat (map (put_of E pend) new), w)
     \<and> (w = 0 \<longleftrightarrow> writes = 0 \<and> concat (map (put_of E pend) new) = [])"
proof (induction pend st vis arbitrary: wb writes rule: reach_loop.induct)
  case (1 pend vis)
  show ?case by (intro exI [of _ "[]"] exI [of _ writes]) simp
next
  case (2 pend i st vis)
  let ?put = "\<lambda>n. BPut (node_key i) (encode_node_page E n)"
  show ?case
  proof (cases "i \<in> set vis")
    case True
    from 2(1) [OF this, of wb writes] True show ?thesis by simp
  next
    case False
    show ?thesis
    proof (cases "map_of pend i")
      case None
      from 2(2) [OF False this, of wb writes] obtain new w where
        "reach_loop pend st (i # vis) = rev new @ i # vis"
        "flush_loop E pend st (i # vis) wb writes = (wb @ concat (map (put_of E pend) new), w)"
        "w = 0 \<longleftrightarrow> writes = 0 \<and> concat (map (put_of E pend) new) = []" by blast
      with False None show ?thesis by (intro exI [of _ "i # new"] exI [of _ w]) (simp add: put_of_simps)
    next
      case (Some n)
      define st' where "st' = (case n of Internal node \<Rightarrow> rev (children node) | Leaf _ \<Rightarrow> []) @ st"
      have "\<exists>new w. reach_loop pend st' (i # vis) = rev new @ i # vis
          \<and> flush_loop E pend st' (i # vis) (wb @ [?put n]) (usize_saturating_add writes 1)
            = ((wb @ [?put n]) @ concat (map (put_of E pend) new), w)
          \<and> (w = 0 \<longleftrightarrow> usize_saturating_add writes 1 = 0 \<and> concat (map (put_of E pend) new) = [])"
        unfolding st'_def
        using 2(3) [OF False Some, of _ "wb @ [?put n]" "usize_saturating_add writes 1"]
          2(4) [OF False Some, of _ "wb @ [?put n]" "usize_saturating_add writes 1"]
        by (cases n) simp_all
      then obtain new w where new: "reach_loop pend st' (i # vis) = rev new @ i # vis"
        "flush_loop E pend st' (i # vis) (wb @ [?put n]) (usize_saturating_add writes 1)
          = (wb @ ?put n # concat (map (put_of E pend) new), w)"
        "w \<noteq> 0" by (auto simp: usize_saturating_add_def)
      have "reach_loop pend (i # st) vis = reach_loop pend st' (i # vis)"
        using False Some by (cases n) (simp_all add: st'_def)
      with new False Some show ?thesis
        by (intro exI [of _ "i # new"] exI [of _ w]) (simp add: put_of_simps st'_def)
    qed
  qed
qed

declare reach_loop.simps [simp del] flush_loop.simps [simp del]

text \<open>The effect of the writes on the database: the pending nodes among them, and nothing else.\<close>

lemma fold_put_of_hit:
  assumes "i \<in> set is" "map_of pend i = Some n"
  shows "fold batch_effect (concat (map (put_of E pend) is)) m (node_key i) = Some (encode_node_page E n)"
  using assms
proof (induction "is" arbitrary: m rule: rev_induct)
  case (snoc j js)
  show ?case
  proof (cases "j = i")
    case True
    with snoc.prems show ?thesis by (simp add: put_of_simps)
  next
    case False
    with snoc show ?thesis by (cases "map_of pend j") (auto simp: put_of_simps)
  qed
qed simp

lemma fold_put_of_miss:
  assumes "\<forall>i\<in>set is. k = node_key i \<longrightarrow> map_of pend i = None"
  shows "fold batch_effect (concat (map (put_of E pend) is)) m k = m k"
  using assms
proof (induction "is" arbitrary: m)
  case (Cons j js)
  then show ?case by (cases "map_of pend j") (auto simp: put_of_simps)
qed simp

lemma flush_pending:
  fixes ctx :: batch_write_context and root :: bytes
  assumes E: "env_ok E C"
  defines "pend \<equiv> map_of (pending_nodes ctx)" and "R \<equiv> set (reach_loop (pending_nodes ctx) [root] [])"
  shows "\<exists>db'. flush_pending_batch_nodes E root ctx db = Some (Inr (), db')
    \<and> (\<forall>i n. i \<in> R \<longrightarrow> pend i = Some n \<longrightarrow> C db' (node_key i) = Some (encode_node_page E n))
    \<and> (\<forall>k. (\<forall>i\<in>R. k = node_key i \<longrightarrow> pend i = None) \<longrightarrow> C db' k = C db k)"
proof -
  obtain new w ops where new: "reach_loop (pending_nodes ctx) [root] [] = rev new"
    "flush_loop E (pending_nodes ctx) [root] [] [] 0 = (ops, w)" "w = 0 \<longleftrightarrow> ops = []"
    and ops: "ops = concat (map (put_of E (pending_nodes ctx)) new)"
    using flush_loop_eq [of "pending_nodes ctx" "[root]" "[]" E "[]" 0] by force
  define db' where "db' = (if ops = [] then db else snd (db_write E db ops))"
  have "C db' = fold batch_effect ops (C db)" by (simp add: db'_def env_ok_write [OF E])
  moreover have "flush_pending_batch_nodes E root ctx db = Some (Inr (), db')"
  proof (cases "pending_nodes ctx = []")
    case True
    then have "ops = []" by (simp add: ops put_of_simps)
    with True show ?thesis by (simp add: flush_pending_batch_nodes_def db'_def)
  next
    case False
    then show ?thesis using new(2,3) env_ok_write(1) [OF E, of db ops]
      by (cases "db_write E db ops") (simp add: flush_pending_batch_nodes_def db'_def)
  qed
  ultimately show ?thesis
    using fold_put_of_hit [of _ new "pending_nodes ctx"] fold_put_of_miss [of new _ "pending_nodes ctx"] new(1)
    by (auto simp: R_def pend_def ops)
qed

section \<open>Garbage collection, flush and the loop\<close>

lemma reachable_backed:
  assumes "closed_ids (map_of (pending_nodes ctx)) R R"
  shows "backed E C (db, Some ctx) t \<Longrightarrow> root_id (hash_node E) t \<in> R \<Longrightarrow> u \<in> set (subtrees t) \<Longrightarrow>
    (map_of (pending_nodes ctx) (root_id (hash_node E) u) = Some (node_of (hash_node E) u)
       \<and> root_id (hash_node E) u \<in> R) \<or> stored E C db u"
proof (induction t)
  case (TLeaf es nx)
  then show ?case by (auto simp: backed_def)
next
  case (TInner ks ts)
  let ?t = "TInner ks ts" and ?H = "hash_node E"
  show ?case
  proof (cases "stored E C db ?t")
    case True
    with TInner.prems(3) show ?thesis
      using tree_nodes_subtree [of u ?t ?H] by (auto simp: stored_def)
  next
    case False
    then have p: "map_of (pending_nodes ctx) (root_id ?H ?t) = Some (node_of ?H ?t)"
      using TInner.prems(1) backed_children [of E C "(db, Some ctx)" ?t] by simp
    then have "root_id ?H c \<in> R" if "c \<in> set ts" for c
      using assms [unfolded closed_ids_def, rule_format, OF TInner.prems(2)] that
      unfolding node_of_inner by (simp add: image_subset_iff)
    with p TInner.prems TInner.IH backed_child [OF TInner.prems(1)] show ?thesis by auto
  qed
qed

lemma reach_loop_root:
  "root \<in> set (reach_loop pend [root] [])"
  "closed_ids (map_of pend) (set (reach_loop pend [root] [])) (set (reach_loop pend [root] []))"
  using reach_loop_closed [of pend "[]" "[root]"] by (simp_all add: closed_ids_def)

lemma retain_pending:
  "\<exists>S. set (reach_loop (pending_nodes ctx) [root] []) \<subseteq> S \<and>
    map_of (pending_nodes (retain_reachable_pending_nodes root ctx)) = (map_of (pending_nodes ctx)) |` S"
proof -
  let ?R = "set (reach_loop (pending_nodes ctx) [root] [])"
  have "map_of (filter (\<lambda>e. fst e \<in> ?R) xs) = (map_of xs) |` ?R" for xs :: "(bytes \<times> bptree_node) list"
    by (induction xs) (auto simp: restrict_map_def)
  moreover have "retain_reachable_pending_nodes root ctx = ctx \<or> retain_reachable_pending_nodes root ctx
      = ctx\<lparr>pending_nodes := filter (\<lambda>e. fst e \<in> ?R) (pending_nodes ctx)\<rparr>"
    unfolding retain_reachable_pending_nodes_def Let_def by meson
  ultimately show ?thesis
  proof (elim disjE)
    assume "retain_reachable_pending_nodes root ctx = ctx"
    then show ?thesis by (intro exI [of _ UNIV]) (simp add: restrict_map_def)
  qed (intro exI [of _ ?R], simp)
qed

lemma retain_keeps:
  assumes "collision_free E C (db, Some ctx) T" "backed E C (db, Some ctx) t"
  defines "ctx' \<equiv> retain_reachable_pending_nodes (root_id (hash_node E) t) ctx"
  shows "collision_free E C (db, Some ctx') T" "backed E C (db, Some ctx') t"
proof -
  obtain S where S: "set (reach_loop (pending_nodes ctx) [root_id (hash_node E) t] []) \<subseteq> S"
    "map_of (pending_nodes ctx') = (map_of (pending_nodes ctx)) |` S"
    using retain_pending unfolding ctx'_def by blast
  show "collision_free E C (db, Some ctx') T"
    using assms(1) by (simp add: collision_free_def S(2) restrict_map_def)
  show "backed E C (db, Some ctx') t"
    unfolding backed_def
  proof
    fix u assume "u \<in> set (subtrees t)"
    from reachable_backed [OF reach_loop_root(2) assms(2) reach_loop_root(1) this] S(1)
    show "pending (db, Some ctx') (root_id (hash_node E) u) = Some (node_of (hash_node E) u)
        \<or> stored E C (fst (db, Some ctx')) u" by (auto simp: S(2) subset_iff)
  qed
qed

lemma flush_stores:
  assumes E: "env_ok E C" and cf: "collision_free E C (db, Some ctx) T" and b: "backed E C (db, Some ctx) t"
  shows "\<exists>db'. flush_pending_batch_nodes E (root_id (hash_node E) t) ctx db = Some (Inr (), db')
    \<and> stored E C db' t \<and> db_extends E C db db' \<and> collision_free E C (db', None) T"
proof -
  let ?H = "hash_node E" and ?pend = "map_of (pending_nodes ctx)"
  let ?R = "set (reach_loop (pending_nodes ctx) [root_id ?H t] [])"
  obtain db' where db': "flush_pending_batch_nodes E (root_id ?H t) ctx db = Some (Inr (), db')"
    and hit: "\<And>i n. i \<in> ?R \<Longrightarrow> ?pend i = Some n \<Longrightarrow> C db' (node_key i) = Some (encode_node_page E n)"
    and miss: "\<And>k. \<forall>i\<in>?R. k = node_key i \<longrightarrow> ?pend i = None \<Longrightarrow> C db' k = C db k"
    using flush_pending [OF E, of "root_id ?H t" ctx db] by blast
  have node: "db_node E C db' i = (if i \<in> ?R \<and> ?pend i \<noteq> None then ?pend i else db_node E C db i)" for i
    using hit [of i] miss [of "node_key i"] E by (auto simp: db_node_def)
  have pend: "?pend i = Some n \<Longrightarrow> i = ?H n \<and> n \<in> T \<and> (C db (node_key i) = None \<or> db_node E C db i = Some n)" for i n
    using cf by (auto simp: collision_free_def)
  have ext: "db_extends E C db db'"
    unfolding db_extends_def
  proof (intro conjI allI impI)
    fix i n assume n: "db_node E C db i = Some n"
    then have "C db (node_key i) \<noteq> None" by (auto simp: db_node_def split: option.splits)
    with n pend [of i] show "db_node E C db' i = Some n" by (auto simp: node)
  next
    fix k assume "\<forall>i. k \<noteq> node_key i"
    then show "C db' k = C db k" by (intro miss) simp
  qed
  have "stored E C db' t"
    unfolding stored_def tree_nodes_def
  proof (intro ballI, elim imageE)
    fix n u assume u: "u \<in> set (subtrees t)" "n = node_of ?H u"
    from reachable_backed [OF reach_loop_root(2) b reach_loop_root(1) u(1)]
    show "db_node E C db' (?H n) = Some n"
    proof
      assume "stored E C db u"
      then show ?thesis using db_extends_stored [OF ext] u(2) by (simp add: stored_def)
    qed (use node u(2) in \<open>auto simp: root_id_def\<close>)
  qed
  moreover have "collision_free E C (db', None) T"
    unfolding collision_free_def
  proof (intro conjI ballI)
    fix n assume n: "n \<in> T"
    show "C (fst (db', None)) (node_key (?H n)) = None \<or> db_node E C (fst (db', None)) (?H n) = Some n"
    proof (cases "?H n \<in> ?R \<and> ?pend (?H n) \<noteq> None")
      case True
      then show ?thesis using collision_freeD(2) [OF cf n] by (auto simp: node)
    next
      case False
      then show ?thesis
        using collision_freeD(1) [OF cf n] miss [of "node_key (?H n)"] by (auto simp: node)
    qed
  qed (use cf in \<open>auto simp: collision_free_def\<close>)
  ultimately show ?thesis using db' ext by blast
qed

lemma maybe_compact_keeps:
  assumes E: "env_ok E C" and cf: "collision_free E C (db, Some ctx) T" and b: "backed E C (db, Some ctx) t"
  shows "\<exists>db' ctx'. maybe_compact_batch_nodes E (root_id (hash_node E) t) (db, ctx) = Some (Inr (), (db', ctx'))
    \<and> collision_free E C (db', Some ctx') T \<and> backed E C (db', Some ctx') t \<and> db_extends E C db db'"
proof (cases "pending_nodes ctx = []")
  case True
  with cf b show ?thesis by (simp add: maybe_compact_batch_nodes_def)
next
  case False
  let ?root = "root_id (hash_node E) t"
  define keeps where "keeps c \<longleftrightarrow> collision_free E C (db, Some c) T \<and> backed E C (db, Some c) t" for c
  define c1 where "c1 = ctx\<lparr>ops_since_gc := usize_saturating_add (ops_since_gc ctx) 1\<rparr>"
  define gc where "gc \<longleftrightarrow> ops_since_gc c1 \<ge> BATCH_PENDING_GC_INTERVAL
      \<or> (length (pending_nodes c1) \<ge> BATCH_PENDING_SOFT_LIMIT \<and> ops_since_gc c1 \<ge> BATCH_PENDING_SOFT_GC_INTERVAL)"
  define c2 where "c2 = (if gc then (retain_reachable_pending_nodes ?root c1)\<lparr>ops_since_gc := 0\<rparr> else c1)"
  define c3 where "c3 = retain_reachable_pending_nodes ?root c2"
  have ops: "keeps (c\<lparr>ops_since_gc := n\<rparr>) = keeps c" for c n
    by (simp add: keeps_def collision_free_def backed_def)
  have retain: "keeps c \<Longrightarrow> keeps (retain_reachable_pending_nodes ?root c)" for c
    unfolding keeps_def using retain_keeps [of E C db c T t] by simp
  have k: "keeps c2" "keeps c3"
    using cf b retain ops by (auto simp: c1_def c2_def c3_def keeps_def [of ctx])
  obtain db' where db': "flush_pending_batch_nodes E ?root c3 db = Some (Inr (), db')" "stored E C db' t"
    "db_extends E C db db'" "collision_free E C (db', None) T"
    using flush_stores [OF E, of db c3 T t] k(2) by (auto simp: keeps_def)
  let ?c4 = "c3\<lparr>pending_nodes := [], ops_since_gc := 0\<rparr>"
  have c4: "collision_free E C (db', Some ?c4) T" "backed E C (db', Some ?c4) t"
    using db'(4) backed_direct [of "(db', None)" E C t] db'(2)
    by (simp_all add: collision_free_def backed_def)
  have eq: "maybe_compact_batch_nodes E ?root (db, ctx) = (if length (pending_nodes c2) \<ge> BATCH_PENDING_HARD_LIMIT
      then Some (Inr (), (db', ?c4)) else Some (Inr (), (db, c2)))"
    using False db'(1) unfolding maybe_compact_batch_nodes_def Let_def fst_conv snd_conv c1_def [symmetric]
    unfolding gc_def [symmetric] unfolding c2_def [symmetric] unfolding c3_def [symmetric] by simp
  show ?thesis
    unfolding eq using c4 db'(3) k(1) by (auto simp: keeps_def)
qed

text \<open>The nodes of the trees a sequence of changes goes through.\<close>

fun batch_nodes :: "(bptree_node \<Rightarrow> bytes) \<Rightarrow> change list \<Rightarrow> btree \<Rightarrow> bptree_node set" where
  "batch_nodes H [] t = tree_nodes H t"
| "batch_nodes H (c # cs) t = tree_nodes H t \<union> batch_nodes H cs (t_apply H (fst c) (snd c) t)"

lemma batch_nodes_first: "tree_nodes H t \<subseteq> batch_nodes H cs t"
  by (cases cs) auto

lemma batch_nodes_last: "tree_nodes H (bt.apply_all H cs t) \<subseteq> batch_nodes H cs t"
  by (induction cs arbitrary: t) (auto simp: bt.apply_all_def)

lemma batch_loop_applies:
  assumes E: "env_ok E C"
  shows "collision_free E C (db, Some ctx) T \<Longrightarrow> backed E C (db, Some ctx) t \<Longrightarrow> t_inv t \<Longrightarrow>
    batch_nodes (hash_node E) cs t \<subseteq> T \<Longrightarrow>
    \<exists>db' ctx'. batch_loop E (root_id (hash_node E) t) cs (db, ctx)
        = Some (Inr (root_id (hash_node E) (bt.apply_all (hash_node E) cs t)), (db', ctx'))
      \<and> collision_free E C (db', Some ctx') T \<and> backed E C (db', Some ctx') (bt.apply_all (hash_node E) cs t)
      \<and> db_extends E C db db'"
proof (induction cs arbitrary: db ctx t)
  case Nil
  then show ?case by (auto simp: bt.apply_all_def)
next
  case (Cons c cs)
  let ?H = "hash_node E" and ?u = "t_apply (hash_node E) (fst c) (snd c) t"
  have T: "tree_nodes ?H t \<subseteq> T" "tree_nodes ?H ?u \<subseteq> T" "batch_nodes ?H cs ?u \<subseteq> T"
    using Cons.prems(4) batch_nodes_first [of ?H ?u cs] by auto
  have "ordered [] None t" using Cons.prems(3) by (simp add: t_inv_def)
  from apply_single_produces [OF E Cons.prems(1,2) this T(1,2)]
  obtain ctx1 where 1: "apply_single E (root_id ?H t) (fst c) (snd c) (db, Some ctx)
      = Some (Inr (root_id ?H ?u), (db, Some ctx1))"
    "collision_free E C (db, Some ctx1) T" "backed E C (db, Some ctx1) ?u"
    by (auto simp: produces_def extends_def)
  obtain db2 ctx2 where 2: "maybe_compact_batch_nodes E (root_id ?H ?u) (db, ctx1) = Some (Inr (), (db2, ctx2))"
    "collision_free E C (db2, Some ctx2) T" "backed E C (db2, Some ctx2) ?u" "db_extends E C db db2"
    using maybe_compact_keeps [OF E 1(2,3)] by blast
  from Cons.IH [OF 2(2,3) t_inv_t_apply [OF Cons.prems(3)] T(3)] 1(1) 2(1,4) show ?case
    by (auto simp: in_batch_def bt.apply_all_def intro: db_extends_trans)
qed

lemma run_batch_applies:
  assumes E: "env_ok E C" and cf: "collision_free E C (db, None) T" and t: "stored E C db t" "t_inv t"
    and T: "batch_nodes (hash_node E) cs t \<subseteq> T"
  shows "\<exists>db'. run_batch E (root_id (hash_node E) t) cs db
      = Some (Inr (root_id (hash_node E) (bt.apply_all (hash_node E) cs t)), db')
    \<and> stored E C db' (bt.apply_all (hash_node E) cs t) \<and> db_extends E C db db' \<and> collision_free E C (db', None) T"
proof -
  let ?H = "hash_node E" and ?u = "bt.apply_all (hash_node E) cs t"
  have cf0: "collision_free E C (db, Some default_batch) T"
    using cf by (simp add: collision_free_def default_batch_def)
  have "backed E C (db, Some default_batch) t"
    using t(1) backed_direct [of "(db, None)" E C t] by (simp add: backed_def default_batch_def)
  from batch_loop_applies [OF E cf0 this t(2) T] obtain db1 ctx1 where
    1: "batch_loop E (root_id ?H t) cs (db, default_batch) = Some (Inr (root_id ?H ?u), (db1, ctx1))"
    "collision_free E C (db1, Some ctx1) T" "backed E C (db1, Some ctx1) ?u" "db_extends E C db db1"
    by blast
  from flush_stores [OF E 1(2,3)] 1(1,4) show ?thesis
    by (auto simp: run_batch_def bindc_def intro: db_extends_trans)
qed

end
