(* ===== verification/Tree_Read.thy ===== *)
theory Tree_Read
  imports Tree_Batch
begin

text \<open>
  Point reads of \<^verbatim>\<open>src/runtime/tree_db.rs\<close>: \<open>get_at_root\<close>, which descends to one leaf, and
  \<open>multi_get_at_root\<close>, which sorts the keys and descends once per group of keys with the same
  child. Both follow stored identifiers, so they are partial functions; on a stored tree they
  return, and they return the live entry of each key.
\<close>

section \<open>Operations\<close>

definition active_root :: "tree_state \<Rightarrow> bytes" where
  "active_root st = (case pinned_root st of Some r \<Rightarrow> r | None \<Rightarrow> st_active_root st)"

definition leaf_get :: "bytes \<Rightarrow> leaf_entry list \<Rightarrow> bytes option" where
  "leaf_get key es = (case binary_search (map le_key es) key of
       Inr idx \<Rightarrow> le_value (es ! idx) | Inl _ \<Rightarrow> None)"

partial_function (option) get_at_root ::
  "('db, 'z) env_scheme \<Rightarrow> 'db \<Rightarrow> bytes \<Rightarrow> bytes \<Rightarrow> (rocks_error + bytes option) option" where
  "get_at_root E db current key = bindr (Some (load_node E db current)) (\<lambda>node. case node of
       Leaf leaf \<Rightarrow> ok (leaf_get key (entries leaf))
     | Internal internal \<Rightarrow>
         (if children internal = [] then ok None
          else let idx = child_index_for_key (sep_keys internal) key in
            if idx < length (children internal) then get_at_root E db (children internal ! idx) key
            else ok None))"

definition tree_get :: "('db, 'z) env_scheme \<Rightarrow> 'db tree_db \<Rightarrow> bytes \<Rightarrow> (rocks_error, bytes option) reader" where
  "tree_get E d key = get_at_root E (tdb d) (active_root (tstate d)) key"

text \<open>The groups of consecutive indices whose keys have the same child.\<close>

lemma length_dropWhile_less [termination_simp]: "length (dropWhile P xs) < Suc (length xs)"
  by (simp add: less_Suc_eq_le length_dropWhile_le)

fun child_groups :: "bytes list \<Rightarrow> bytes list \<Rightarrow> nat list \<Rightarrow> (nat \<times> nat list) list" where
  "child_groups ks keys [] = []"
| "child_groups ks keys (start # rest) =
     (let child_idx = child_index_for_key ks (keys ! start);
          same = (\<lambda>i. child_index_for_key ks (keys ! i) = child_idx) in
      (child_idx, start # takeWhile same rest) # child_groups ks keys (dropWhile same rest))"

text \<open>What a leaf contributes: entries found are copied to the output, the others leave it alone.\<close>

definition leaf_multi_get ::
  "leaf_entry list \<Rightarrow> bytes list \<Rightarrow> nat list \<Rightarrow> bytes option list \<Rightarrow> bytes option list" where
  "leaf_multi_get es keys idxs out = foldl (\<lambda>out i. case binary_search (map le_key es) (keys ! i) of
       Inr entry_idx \<Rightarrow> out[i := le_value (es ! entry_idx)] | Inl _ \<Rightarrow> out) out idxs"

partial_function (option) multi_get_node ::
  "('db, 'z) env_scheme \<Rightarrow> 'db \<Rightarrow> bytes \<Rightarrow> bytes list \<Rightarrow> nat list \<Rightarrow> bytes option list
     \<Rightarrow> (rocks_error + bytes option list) option" where
  "multi_get_node E db node_id keys sorted_indices out =
     (if sorted_indices = [] then ok out
      else bindr (Some (load_node E db node_id)) (\<lambda>node. case node of
        Leaf leaf \<Rightarrow> ok (leaf_multi_get (entries leaf) keys sorted_indices out)
      | Internal internal \<Rightarrow>
          (if children internal = [] then ok out
           else foldm (\<lambda>g out.
             if fst g < length (children internal)
             then multi_get_node E db (children internal ! fst g) keys (snd g) out
             else ok out) (child_groups (sep_keys internal) keys sorted_indices) out)))"

definition multi_get_at_root ::
  "('db, 'z) env_scheme \<Rightarrow> 'db \<Rightarrow> bytes \<Rightarrow> bytes list \<Rightarrow> (rocks_error, bytes option list) reader" where
  "multi_get_at_root E db root keys =
     (if keys = [] then ok []
      else multi_get_node E db root keys (sort_key (\<lambda>i. keys ! i) [0..<length keys])
        (replicate (length keys) None))"

definition multi_get ::
  "('db, 'z) env_scheme \<Rightarrow> 'db tree_db \<Rightarrow> bytes list \<Rightarrow> (rocks_error, bytes option list) reader" where
  "multi_get E d keys = multi_get_at_root E (tdb d) (active_root (tstate d)) keys"

section \<open>Reads return the live entries\<close>

text \<open>An identifier denotes a tree: its nodes are in the database and it is well-formed.\<close>

definition denotes :: "('db, 'z) env_scheme \<Rightarrow> ('db \<Rightarrow> bytes \<rightharpoonup> bytes) \<Rightarrow> 'db \<Rightarrow> bytes \<Rightarrow> btree \<Rightarrow> bool" where
  "denotes E C db root t \<longleftrightarrow> root = root_id (hash_node E) t \<and> stored E C db t \<and> t_inv t"

lemma denotes_extends: "denotes E C db root t \<Longrightarrow> db_extends E C db db' \<Longrightarrow> denotes E C db' root t"
  using db_extends_stored by (auto simp: denotes_def)

lemma load_stored:
  "env_ok E C \<Longrightarrow> stored E C db t \<Longrightarrow> load_node E db (root_id (hash_node E) t) = Inr (node_of (hash_node E) t)"
  using load_node_stored [of E C db "root_id (hash_node E) t"] by (simp add: stored_def root_id_def)

lemma stored_child: "stored E C db (TInner ks ts) \<Longrightarrow> t \<in> set ts \<Longrightarrow> stored E C db t"
  by (auto simp: stored_def)

lemma leaf_get_live:
  assumes "sorted_wrt (<) (map le_key es)"
  shows "leaf_get k es = map_of (live es) k"
  using assms
proof (cases rule: leaf_search [where k = k])
  case (found A e B)
  moreover have "map_of (live A) k = None" "map_of (live B) k = None"
    using live_keys [of A] live_keys [of B] found(3,4) by (force simp: map_of_eq_None_iff)+
  ultimately show ?thesis by (simp add: leaf_get_def map_add_def split: option.split)
next
  case (absent A B)
  moreover have "map_of (live A) k = None" "map_of (live B) k = None"
    using live_keys [of A] live_keys [of B] absent(2,3) by (force simp: map_of_eq_None_iff)+
  ultimately show ?thesis by (simp add: leaf_get_def map_add_def)
qed

lemma lookup_child:
  assumes "chain ordered lo hi ks ts"
  shows "map_of (t_live (TInner ks ts)) k = map_of (t_live (ts ! child_index_for_key ks k)) k"
proof -
  let ?i = "child_index_for_key ks k"
  note c = chain_child [OF assms, of k]
  have ch': "chain ordered lo hi (take ?i ks @ drop ?i ks) (take ?i ts @ ts ! ?i # drop (Suc ?i) ts)"
    using assms c(4,5) by simp
  have len: "length (take ?i ts) = length (take ?i ks)" using c(2,3) by simp
  let ?L = "concat (map t_live (take ?i ts))" and ?R = "concat (map t_live (drop (Suc ?i) ts))"
  have "\<forall>e\<in>set ?L. fst e < k" using chain_left_entries [OF len ch' c(6)] by (auto dest!: t_live_key)
  then have L: "map_of ?L k = None" by (force simp: map_of_eq_None_iff)
  have "\<forall>e\<in>set ?R. k < fst e" using chain_right_entries [OF len ch' c(7)] by (auto dest!: t_live_key)
  then have R: "map_of ?R k = None" by (force simp: map_of_eq_None_iff)
  have "t_live (TInner ks ts) = ?L @ t_live (ts ! ?i) @ ?R"
    unfolding t_live_simps by (subst c(4)) simp
  then show ?thesis using L R by (simp add: map_add_def split: option.split)
qed

lemma get_at_root_live:
  assumes E: "env_ok E C"
  shows "stored E C db t \<Longrightarrow> ordered lo hi t \<Longrightarrow>
    get_at_root E db (root_id (hash_node E) t) k = ok (map_of (t_live t) k)"
proof (induction t arbitrary: lo hi)
  case (TLeaf es nx)
  then show ?case
    by (subst get_at_root.simps) (simp add: load_stored [OF E] leaf_get_live t_live_simps)
next
  case (TInner ks ts)
  have ch: "chain ordered lo hi ks ts" using TInner.prems(2) by simp
  note c = chain_child(1) [OF ch, of k]
  obtain l h where o: "ordered l h (ts ! child_index_for_key ks k)"
    using chain_member [OF ch nth_mem [OF c]] by blast
  have "get_at_root E db (root_id (hash_node E) (ts ! child_index_for_key ks k)) k
      = ok (map_of (t_live (TInner ks ts)) k)"
    using TInner.IH [OF nth_mem [OF c] stored_child [OF TInner.prems(1) nth_mem [OF c]] o]
    by (simp add: lookup_child [OF ch])
  then show ?case
    using c by (subst get_at_root.simps)
      (auto simp: load_stored [OF E TInner.prems(1)] node_of_inner Let_def simp del: node_of.simps)
qed

subsection \<open>Many keys at once\<close>

text \<open>The output with the positions of \<open>idxs\<close> set to what \<open>f\<close> gives for them.\<close>

definition fill :: "nat list \<Rightarrow> (nat \<Rightarrow> 'a) \<Rightarrow> 'a list \<Rightarrow> 'a list" where
  "fill idxs f out = map (\<lambda>i. if i \<in> set idxs then f i else out ! i) [0..<length out]"

definition fillable :: "nat list \<Rightarrow> (nat \<Rightarrow> 'a option) \<Rightarrow> 'a option list \<Rightarrow> bool" where
  "fillable idxs f out \<longleftrightarrow> (\<forall>i\<in>set idxs. i < length out \<and> (out ! i = None \<or> out ! i = f i))"

lemma length_fill [simp]: "length (fill idxs f out) = length out"
  by (simp add: fill_def)

lemma nth_fill: "i < length out \<Longrightarrow> fill idxs f out ! i = (if i \<in> set idxs then f i else out ! i)"
  by (simp add: fill_def)

lemma fill_Nil [simp]: "fill [] f out = out"
  by (simp add: fill_def map_nth)

lemma fill_append: "fill (is @ js) f out = fill js f (fill is f out)"
  by (rule nth_equalityI) (auto simp: nth_fill)

lemma fillable_append: "fillable (is @ js) f out \<Longrightarrow> fillable is f out \<and> fillable js f (fill is f out)"
  by (auto simp: fillable_def nth_fill)

lemma fill_cong: "(\<And>i. i \<in> set is \<Longrightarrow> f i = g i) \<Longrightarrow> fill is f out = fill is g out"
  by (rule nth_equalityI) (auto simp: nth_fill)

lemma fillable_cong: "(\<And>i. i \<in> set is \<Longrightarrow> f i = g i) \<Longrightarrow> fillable is f out = fillable is g out"
  by (auto simp: fillable_def)

lemma leaf_multi_get_fill:
  "fillable idxs (\<lambda>i. leaf_get (keys ! i) es) out \<Longrightarrow>
   leaf_multi_get es keys idxs out = fill idxs (\<lambda>i. leaf_get (keys ! i) es) out"
proof (induction idxs arbitrary: out)
  case (Cons i js)
  let ?f = "\<lambda>i. leaf_get (keys ! i) es"
  have f: "fillable [i] ?f out" "fillable js ?f (fill [i] ?f out)"
    using fillable_append [of "[i]" js ?f out] Cons.prems by simp_all
  have "(case binary_search (map le_key es) (keys ! i) of
      Inr j \<Rightarrow> out[i := le_value (es ! j)] | Inl _ \<Rightarrow> out) = fill [i] ?f out"
    using f(1) by (intro nth_equalityI)
      (auto simp: nth_fill fillable_def leaf_get_def nth_list_update split: sum.splits)
  with Cons.IH [OF f(2)] show ?case
    using fill_append [of "[i]" js ?f out] by (simp add: leaf_multi_get_def)
qed (simp add: leaf_multi_get_def)

lemma concat_child_groups: "concat (map snd (child_groups ks keys idxs)) = idxs"
  by (induction ks keys idxs rule: child_groups.induct) (simp_all add: Let_def)

lemma child_groups_same:
  "g \<in> set (child_groups ks keys idxs) \<Longrightarrow> i \<in> set (snd g) \<Longrightarrow> child_index_for_key ks (keys ! i) = fst g"
proof (induction ks keys idxs rule: child_groups.induct)
  case (2 ks keys start rest)
  then show ?case by (auto simp: Let_def dest: set_takeWhileD)
qed simp

lemma child_groups_nonempty: "g \<in> set (child_groups ks keys idxs) \<Longrightarrow> snd g \<noteq> []"
  by (induction ks keys idxs rule: child_groups.induct) (auto simp: Let_def)

text \<open>A loop over groups, each of which fills its own positions.\<close>

lemma foldm_fill:
  assumes "\<And>g out. g \<in> set gs \<Longrightarrow> fillable (snd g) f out \<Longrightarrow> body g out = ok (fill (snd g) f out)"
    and "fillable (concat (map snd gs)) f out"
  shows "foldm body gs out = ok (fill (concat (map snd gs)) f out)"
  using assms
proof (induction gs arbitrary: out)
  case (Cons g gs)
  from fillable_append [of "snd g" "concat (map snd gs)" f out] Cons.prems(2)
  have "fillable (snd g) f out" "fillable (concat (map snd gs)) f (fill (snd g) f out)" by simp_all
  with Cons show ?case by (simp add: fill_append)
qed simp

lemma multi_get_node_live:
  assumes E: "env_ok E C"
  shows "stored E C db t \<Longrightarrow> ordered lo hi t \<Longrightarrow> fillable idxs (\<lambda>i. map_of (t_live t) (keys ! i)) out \<Longrightarrow>
    multi_get_node E db (root_id (hash_node E) t) keys idxs out
      = ok (fill idxs (\<lambda>i. map_of (t_live t) (keys ! i)) out)"
proof (induction t arbitrary: lo hi idxs out)
  case (TLeaf es nx)
  then show ?case
    using leaf_multi_get_fill [of idxs keys es out]
    by (subst multi_get_node.simps) (simp add: load_stored [OF E] leaf_get_live t_live_simps)
next
  case (TInner ks ts)
  have ch: "chain ordered lo hi ks ts" using TInner.prems(2) by simp
  let ?f = "\<lambda>i. map_of (t_live (TInner ks ts)) (keys ! i)" and ?gs = "child_groups ks keys idxs"
  have grp: "(if fst g < length ts then multi_get_node E db (root_id (hash_node E) (ts ! fst g)) keys (snd g) out
      else ok out) = ok (fill (snd g) ?f out)"
    if g: "g \<in> set ?gs" "fillable (snd g) ?f out" for g out
  proof -
    have same: "child_index_for_key ks (keys ! i) = fst g" if "i \<in> set (snd g)" for i
      using child_groups_same [OF g(1) that] .
    obtain i where i: "i \<in> set (snd g)" using child_groups_nonempty [OF g(1)] by (cases "snd g") auto
    have c: "fst g < length ts" using chain_child(1) [OF ch, of "keys ! i"] same [OF i] by simp
    obtain l h where o: "ordered l h (ts ! fst g)" using chain_member [OF ch nth_mem [OF c]] by blast
    have f: "?f j = map_of (t_live (ts ! fst g)) (keys ! j)" if "j \<in> set (snd g)" for j
      using lookup_child [OF ch, of "keys ! j"] same [OF that] by simp
    have "fillable (snd g) (\<lambda>j. map_of (t_live (ts ! fst g)) (keys ! j)) out"
      using g(2) fillable_cong [of "snd g" ?f, OF f] by blast
    from TInner.IH [OF nth_mem [OF c] stored_child [OF TInner.prems(1) nth_mem [OF c]] o this] c
    show ?thesis using fill_cong [of "snd g" ?f, OF f] by simp
  qed
  have "foldm (\<lambda>g out. if fst g < length ts
      then multi_get_node E db (root_id (hash_node E) (ts ! fst g)) keys (snd g) out else ok out) ?gs out
      = ok (fill idxs ?f out)"
    using foldm_fill [OF grp, of ?gs out] TInner.prems(3) by (simp add: concat_child_groups)
  moreover have "ts \<noteq> []" using chain_length [OF ch] by auto
  ultimately show ?case
    by (subst multi_get_node.simps)
      (simp add: load_stored [OF E TInner.prems(1)] node_of_inner cong: if_cong del: node_of.simps)
qed

lemma multi_get_at_root_live:
  assumes "env_ok E C" "stored E C db t" "ordered lo hi t"
  shows "multi_get_at_root E db (root_id (hash_node E) t) keys = ok (map (map_of (t_live t)) keys)"
proof -
  let ?f = "\<lambda>i. map_of (t_live t) (keys ! i)" and ?out = "replicate (length keys) None"
  have "fillable (sort_key (\<lambda>i. keys ! i) [0..<length keys]) ?f ?out" by (simp add: fillable_def)
  moreover have "fill (sort_key (\<lambda>i. keys ! i) [0..<length keys]) ?f ?out = map (map_of (t_live t)) keys"
    by (rule nth_equalityI) (simp_all add: nth_fill)
  ultimately show ?thesis
    using multi_get_node_live [OF assms] by (simp add: multi_get_at_root_def)
qed

end
