(* ===== verification/Tree_Range.thy ===== *)
theory Tree_Range
  imports Tree_Read
begin

text \<open>
  Range scans of \<^verbatim>\<open>src/runtime/tree_db.rs\<close>: the walk from leaf to leaf along a path of internal
  nodes, in both directions, and the scans built on it (ranges, pages with offset and limit,
  prefix scans).

  A path is the stack of \<open>(internal node, child position)\<close> pairs; its first element is the top.
  The three scan loops of the source have one shape, \<open>leaf_loop\<close>; it is verified once against the
  interface \<open>leaf_walk\<close> (a cursor that yields the remaining leaves one by one), which the forward
  and the backward steps interpret.
\<close>

section \<open>Operations\<close>

type_synonym path = "(bytes \<times> nat) list"

partial_function (option) find_leaf_loop ::
  "('db, 'z) env_scheme \<Rightarrow> 'db \<Rightarrow> bytes \<Rightarrow> path \<Rightarrow> bytes \<Rightarrow> (rocks_error + (bytes \<times> path) option) option" where
  "find_leaf_loop E db key path current = bindr (Some (load_node E db current)) (\<lambda>node. case node of
       Leaf _ \<Rightarrow> ok (Some (current, path))
     | Internal internal \<Rightarrow>
         (if children internal = [] then ok None
          else let idx = child_index_for_key (sep_keys internal) key in
            if idx < length (children internal)
            then find_leaf_loop E db key ((current, idx) # path) (children internal ! idx)
            else ok None))"

definition find_leaf_with_path ::
  "('db, 'z) env_scheme \<Rightarrow> 'db \<Rightarrow> bytes \<Rightarrow> bytes \<Rightarrow> (rocks_error, (bytes \<times> path) option) reader" where
  "find_leaf_with_path E db root key = find_leaf_loop E db key [] root"

partial_function (option) rightmost_loop ::
  "('db, 'z) env_scheme \<Rightarrow> 'db \<Rightarrow> path \<Rightarrow> bytes \<Rightarrow> (rocks_error + (bytes \<times> path) option) option" where
  "rightmost_loop E db path current = bindr (Some (load_node E db current)) (\<lambda>node. case node of
       Leaf _ \<Rightarrow> ok (Some (current, path))
     | Internal internal \<Rightarrow>
         (if children internal = [] then ok None
          else let last_idx = length (children internal) - 1 in
            rightmost_loop E db ((current, last_idx) # path) (children internal ! last_idx)))"

definition rightmost_leaf_with_path ::
  "('db, 'z) env_scheme \<Rightarrow> 'db \<Rightarrow> bytes \<Rightarrow> (rocks_error, (bytes \<times> path) option) reader" where
  "rightmost_leaf_with_path E db root = rightmost_loop E db [] root"

text \<open>The inner loops of \<open>next_leaf_from_path\<close> and \<open>prev_leaf_from_path\<close>.\<close>

partial_function (option) descend_first ::
  "('db, 'z) env_scheme \<Rightarrow> 'db \<Rightarrow> path \<Rightarrow> bytes \<Rightarrow> (rocks_error + bytes option \<times> path) option" where
  "descend_first E db path node_id = bindr (Some (load_node E db node_id)) (\<lambda>node. case node of
       Leaf _ \<Rightarrow> ok (Some node_id, path)
     | Internal next_internal \<Rightarrow>
         (if children next_internal = [] then ok (None, path)
          else descend_first E db ((node_id, 0) # path) (children next_internal ! 0)))"

partial_function (option) descend_last ::
  "('db, 'z) env_scheme \<Rightarrow> 'db \<Rightarrow> path \<Rightarrow> bytes \<Rightarrow> (rocks_error + bytes option \<times> path) option" where
  "descend_last E db path node_id = bindr (Some (load_node E db node_id)) (\<lambda>node. case node of
       Leaf _ \<Rightarrow> ok (Some node_id, path)
     | Internal prev_internal \<Rightarrow>
         (if children prev_internal = [] then ok (None, path)
          else let last_idx = length (children prev_internal) - 1 in
            descend_last E db ((node_id, last_idx) # path) (children prev_internal ! last_idx)))"

fun next_leaf_from_path ::
  "('db, 'z) env_scheme \<Rightarrow> 'db \<Rightarrow> path \<Rightarrow> (rocks_error, bytes option \<times> path) reader" where
  "next_leaf_from_path E db [] = ok (None, [])"
| "next_leaf_from_path E db ((internal_id, child_idx) # path) =
     bindr (Some (load_internal E db internal_id)) (\<lambda>internal.
       let next_idx = child_idx + 1 in
       if next_idx \<ge> length (children internal) then next_leaf_from_path E db path
       else descend_first E db ((internal_id, next_idx) # path) (children internal ! next_idx))"

fun prev_leaf_from_path ::
  "('db, 'z) env_scheme \<Rightarrow> 'db \<Rightarrow> path \<Rightarrow> (rocks_error, bytes option \<times> path) reader" where
  "prev_leaf_from_path E db [] = ok (None, [])"
| "prev_leaf_from_path E db ((internal_id, child_idx) # path) =
     (if child_idx = 0 then prev_leaf_from_path E db path
      else bindr (Some (load_internal E db internal_id)) (\<lambda>internal.
        let prev_idx = child_idx - 1 in
        if prev_idx < length (children internal)
        then descend_last E db ((internal_id, prev_idx) # path) (children internal ! prev_idx)
        else prev_leaf_from_path E db path))"

text \<open>
  The loop of every scan: read the leaf at the cursor, process its entries (\<open>body\<close> is told
  whether it is the first leaf and may end the scan), step to the next leaf.
\<close>

partial_function (option) leaf_loop ::
  "('db, 'z) env_scheme \<Rightarrow> 'db \<Rightarrow> (path \<Rightarrow> (rocks_error, bytes option \<times> path) reader)
     \<Rightarrow> (bool \<Rightarrow> leaf_entry list \<Rightarrow> 's \<Rightarrow> bool \<times> 's) \<Rightarrow> bytes \<Rightarrow> path \<Rightarrow> bool \<Rightarrow> 's \<Rightarrow> (rocks_error + 's) option" where
  "leaf_loop E db step body cursor path first_leaf out =
     bindr (Some (load_leaf E db cursor)) (\<lambda>leaf.
       let r = body first_leaf (entries leaf) out in
       if fst r then ok (snd r)
       else bindr (step path) (\<lambda>np. case fst np of
           None \<Rightarrow> ok (snd r)
         | Some next \<Rightarrow> leaf_loop E db step body next (snd np) False (snd r)))"

fun range_scan :: "bytes option \<Rightarrow> leaf_entry list \<Rightarrow> kvs \<Rightarrow> bool \<times> kvs" where
  "range_scan end_exclusive [] out = (False, out)"
| "range_scan end_exclusive (e # es) out =
     (if (case end_exclusive of Some end' \<Rightarrow> le_key e \<ge> end' | None \<Rightarrow> False) then (True, out)
      else range_scan end_exclusive es
        (case le_value e of Some v \<Rightarrow> out @ [(le_key e, v)] | None \<Rightarrow> out))"

definition skip_before :: "bytes \<Rightarrow> bool \<Rightarrow> leaf_entry list \<Rightarrow> leaf_entry list" where
  "skip_before start first_leaf es =
     drop (if first_leaf then partition_point (\<lambda>e. le_key e < start) es else 0) es"

definition range_entries_at_root ::
  "('db, 'z) env_scheme \<Rightarrow> 'db \<Rightarrow> bytes \<Rightarrow> bytes \<Rightarrow> bytes option \<Rightarrow> (rocks_error, kvs) reader" where
  "range_entries_at_root E db root start_inclusive end_exclusive =
     bindr (find_leaf_with_path E db root start_inclusive) (\<lambda>found. case found of
       None \<Rightarrow> ok []
     | Some (cursor, path) \<Rightarrow> leaf_loop E db (next_leaf_from_path E db)
         (\<lambda>first_leaf es. range_scan end_exclusive (skip_before start_inclusive first_leaf es))
         cursor path True [])"

text \<open>
  The entry loop of the two paged scans: \<open>stop\<close> is the bound that ends the scan, the state is the
  offset still to skip and the output.
\<close>

fun page_scan :: "(bytes \<Rightarrow> bool) \<Rightarrow> nat \<Rightarrow> leaf_entry list \<Rightarrow> nat \<times> kvs \<Rightarrow> bool \<times> nat \<times> kvs" where
  "page_scan stop limit [] st = (False, st)"
| "page_scan stop limit (e # es) st =
     (if stop (le_key e) then (True, st)
      else case le_value e of
        None \<Rightarrow> page_scan stop limit es st
      | Some v \<Rightarrow>
          (if fst st > 0 then page_scan stop limit es (fst st - 1, snd st)
           else let out = snd st @ [(le_key e, v)] in
             if length out \<ge> limit then (True, (fst st, out))
             else page_scan stop limit es (fst st, out)))"

definition range_entries_page_at_root_forward ::
  "('db, 'z) env_scheme \<Rightarrow> 'db \<Rightarrow> bytes \<Rightarrow> bytes \<Rightarrow> bytes option \<Rightarrow> nat \<Rightarrow> nat \<Rightarrow> (rocks_error, kvs) reader" where
  "range_entries_page_at_root_forward E db root start_inclusive end_exclusive offset limit =
     with_capacity 48 limit (bindr (find_leaf_with_path E db root start_inclusive) (\<lambda>found. case found of
       None \<Rightarrow> ok []
     | Some (cursor, path) \<Rightarrow> bindr (leaf_loop E db (next_leaf_from_path E db)
         (\<lambda>first_leaf es. page_scan (\<lambda>k. case end_exclusive of Some end' \<Rightarrow> k \<ge> end' | None \<Rightarrow> False) limit
           (skip_before start_inclusive first_leaf es))
         cursor path True (offset, [])) (\<lambda>r. ok (snd r))))"

definition upper_entries :: "bytes option \<Rightarrow> bool \<Rightarrow> leaf_entry list \<Rightarrow> leaf_entry list" where
  "upper_entries end_exclusive first_leaf es =
     (let upper = (if first_leaf then (case end_exclusive of
            Some end' \<Rightarrow> partition_point (\<lambda>e. le_key e < end') es | None \<Rightarrow> length es)
          else length es) in rev (take upper es))"

definition range_entries_page_at_root_reverse ::
  "('db, 'z) env_scheme \<Rightarrow> 'db \<Rightarrow> bytes \<Rightarrow> bytes \<Rightarrow> bytes option \<Rightarrow> nat \<Rightarrow> nat \<Rightarrow> (rocks_error, kvs) reader" where
  "range_entries_page_at_root_reverse E db root start_inclusive end_exclusive offset limit =
     with_capacity 48 limit (bindr (case end_exclusive of
         Some end' \<Rightarrow> find_leaf_with_path E db root end'
       | None \<Rightarrow> rightmost_leaf_with_path E db root) (\<lambda>found. case found of
       None \<Rightarrow> ok []
     | Some (cursor, path) \<Rightarrow> bindr (leaf_loop E db (prev_leaf_from_path E db)
         (\<lambda>first_leaf es. page_scan (\<lambda>k. k < start_inclusive) limit (upper_entries end_exclusive first_leaf es))
         cursor path True (offset, [])) (\<lambda>r. ok (snd r))))"

definition range_entries_page_at_root ::
  "('db, 'z) env_scheme \<Rightarrow> 'db \<Rightarrow> bytes \<Rightarrow> bytes \<Rightarrow> bytes option \<Rightarrow> nat \<Rightarrow> nat \<Rightarrow> bool \<Rightarrow> (rocks_error, kvs) reader" where
  "range_entries_page_at_root E db root start_inclusive end_exclusive offset limit reverse =
     (if limit = 0 then ok []
      else if reverse then
        range_entries_page_at_root_reverse E db root start_inclusive end_exclusive offset limit
      else range_entries_page_at_root_forward E db root start_inclusive end_exclusive offset limit)"

definition range_entries ::
  "('db, 'z) env_scheme \<Rightarrow> 'db tree_db \<Rightarrow> bytes \<Rightarrow> bytes option \<Rightarrow> (rocks_error, kvs) reader" where
  "range_entries E d = range_entries_at_root E (tdb d) (active_root (tstate d))"

definition collect_prefixed_entries_at_root ::
  "('db, 'z) env_scheme \<Rightarrow> 'db \<Rightarrow> bytes \<Rightarrow> bytes \<Rightarrow> (rocks_error, kvs) reader" where
  "collect_prefixed_entries_at_root E db root prefix =
     bindr (range_entries_at_root E db root prefix (prefix_end_exclusive prefix)) (\<lambda>out.
       ok (filter (\<lambda>e. starts_with (fst e) prefix) out))"

definition collect_prefixed_entries ::
  "('db, 'z) env_scheme \<Rightarrow> 'db tree_db \<Rightarrow> bytes \<Rightarrow> (rocks_error, kvs) reader" where
  "collect_prefixed_entries E d = collect_prefixed_entries_at_root E (tdb d) (active_root (tstate d))"

definition collect_prefixed_keys_at_root ::
  "('db, 'z) env_scheme \<Rightarrow> 'db \<Rightarrow> bytes \<Rightarrow> bytes \<Rightarrow> (rocks_error, bytes list) reader" where
  "collect_prefixed_keys_at_root E db root prefix =
     bindr (collect_prefixed_entries_at_root E db root prefix) (\<lambda>entries. ok (map fst entries))"

definition collect_prefixed_keys ::
  "('db, 'z) env_scheme \<Rightarrow> 'db tree_db \<Rightarrow> bytes \<Rightarrow> (rocks_error, bytes list) reader" where
  "collect_prefixed_keys E d = collect_prefixed_keys_at_root E (tdb d) (active_root (tstate d))"

section \<open>Walking over the leaves\<close>

text \<open>What the scan loop computes when the remaining leaves are known.\<close>

fun run_leaves :: "(bool \<Rightarrow> leaf_entry list \<Rightarrow> 's \<Rightarrow> bool \<times> 's) \<Rightarrow> bool \<Rightarrow> leaf_entry list list \<Rightarrow> 's \<Rightarrow> 's" where
  "run_leaves body first_leaf [] st = st"
| "run_leaves body first_leaf (es # rest) st = (let r = body first_leaf es st in
     if fst r then snd r else run_leaves body False rest (snd r))"

text \<open>
  The interface of a walk: the cursor is at a leaf with entries \<open>es\<close>, and the leaves still to come
  have the entries \<open>rest\<close>.
\<close>

locale leaf_walk =
  fixes E :: "('db, 'z) env_scheme" and db :: 'db
    and step :: "path \<Rightarrow> (rocks_error, bytes option \<times> path) reader"
    and at :: "bytes \<Rightarrow> path \<Rightarrow> leaf_entry list \<Rightarrow> leaf_entry list list \<Rightarrow> bool"
  assumes at_load: "at c p es rest \<Longrightarrow> \<exists>leaf. load_leaf E db c = Inr leaf \<and> entries leaf = es"
    and at_last: "at c p es [] \<Longrightarrow> \<exists>q. step p = ok (None, q)"
    and at_next: "at c p es (es' # rest) \<Longrightarrow> \<exists>c' q. step p = ok (Some c', q) \<and> at c' q es' rest"
begin

lemma leaf_loop_runs:
  "at c p es rest \<Longrightarrow> leaf_loop E db step body c p first_leaf st = ok (run_leaves body first_leaf (es # rest) st)"
proof (induction rest arbitrary: c p es first_leaf st)
  case Nil
  from at_load [OF Nil] at_last [OF Nil] show ?case
    by (subst leaf_loop.simps) (auto simp: Let_def)
next
  case (Cons es' rest)
  from at_load [OF Cons.prems] at_next [OF Cons.prems] show ?case
    by (subst leaf_loop.simps) (auto simp: Let_def Cons.IH)
qed

end

text \<open>A body that scans a selection of the entries and composes over concatenation.\<close>

lemma run_leaves_scan:
  assumes "\<And>xs ys st. scan (xs @ ys) st =
    (let r = scan xs st in if fst r then r else scan ys (snd r))" and "\<And>st. scan [] st = (False, st)"
  shows "run_leaves (\<lambda>f es. scan (sel f es)) f (es # rest) st
    = snd (scan (sel f es @ concat (map (sel False) rest)) st)"
proof -
  have tail: "run_leaves (\<lambda>f es. scan (sel f es)) False rest st
      = snd (scan (concat (map (sel False) rest)) st)" for st
    by (induction rest arbitrary: st) (simp_all add: assms Let_def)
  show ?thesis by (simp add: assms(1) tail Let_def)
qed

subsection \<open>Positions in a tree\<close>

text \<open>
  The path of the code with the trees it leads through: from the cursor upwards, the separators
  and children of each internal node and the position taken.
\<close>

type_synonym zipper = "(bytes list \<times> btree list \<times> nat) list"

definition path_of :: "(bptree_node \<Rightarrow> bytes) \<Rightarrow> zipper \<Rightarrow> path" where
  "path_of H z = map (\<lambda>(ks, ts, c). (root_id H (TInner ks ts), c)) z"

fun at_pos :: "zipper \<Rightarrow> btree \<Rightarrow> btree \<Rightarrow> bool" where
  "at_pos [] u t \<longleftrightarrow> u = t"
| "at_pos ((ks, ts, c) # z) u t \<longleftrightarrow> c < length ts \<and> u = ts ! c \<and> at_pos z (TInner ks ts) t"

fun leaves :: "btree \<Rightarrow> leaf_entry list list" where
  "leaves (TLeaf es nx) = [es]"
| "leaves (TInner ks ts) = concat (map leaves ts)"

fun leaves_after :: "zipper \<Rightarrow> leaf_entry list list" where
  "leaves_after [] = []"
| "leaves_after ((ks, ts, c) # z) = concat (map leaves (drop (Suc c) ts)) @ leaves_after z"

fun leaves_before :: "zipper \<Rightarrow> leaf_entry list list" where
  "leaves_before [] = []"
| "leaves_before ((ks, ts, c) # z) = leaves_before z @ concat (map leaves (take c ts))"

fun inhabited :: "btree \<Rightarrow> bool" where
  "inhabited (TLeaf es nx) \<longleftrightarrow> True"
| "inhabited (TInner ks ts) \<longleftrightarrow> ts \<noteq> [] \<and> (\<forall>t\<in>set ts. inhabited t)"

lemma path_of_simps [simp]:
  "path_of H [] = []" "path_of H ((ks, ts, c) # z) = (root_id H (TInner ks ts), c) # path_of H z"
  by (simp_all add: path_of_def)

lemma ordered_inhabited: "ordered lo hi t \<Longrightarrow> inhabited t"
proof (induction t arbitrary: lo hi)
  case (TInner ks ts)
  then have ch: "chain ordered lo hi ks ts" by simp
  have "inhabited t" if "t \<in> set ts" for t
    using chain_member [OF ch that] TInner.IH [OF that] by blast
  moreover have "ts \<noteq> []" using chain_length [OF ch] by auto
  ultimately show ?case by simp
qed simp

lemma concat_concat_map: "concat (concat (map f xs)) = concat (map (\<lambda>x. concat (f x)) xs)"
  by (induction xs) simp_all

lemma concat_leaves: "concat (leaves t) = t_entries t"
proof (induction t)
  case (TInner ks ts)
  then have "map (\<lambda>t. concat (leaves t)) ts = map t_entries ts" by simp
  then show ?case by (simp only: leaves.simps t_entries.simps concat_concat_map)
qed simp

lemma at_pos_leaves: "at_pos z u t \<Longrightarrow> leaves t = leaves_before z @ leaves u @ leaves_after z"
proof (induction z u t rule: at_pos.induct)
  case (2 ks ts c z u t)
  then have "leaves (TInner ks ts) = concat (map leaves (take c ts)) @ leaves u @ concat (map leaves (drop (Suc c) ts))"
    using arg_cong [OF id_take_nth_drop [of c ts], of "\<lambda>ts. concat (map leaves ts)"] by simp
  with 2 show ?case by simp
qed simp

text \<open>Positions in a stored tree lead through stored, inhabited nodes.\<close>

lemma at_pos_sub:
  "at_pos z u t \<Longrightarrow> stored E C db t \<Longrightarrow> inhabited t \<Longrightarrow> stored E C db u \<and> inhabited u"
proof (induction z u t rule: at_pos.induct)
  case (2 ks ts c z u t)
  then have "stored E C db (TInner ks ts)" "inhabited (TInner ks ts)" by simp_all
  with 2 show ?case using stored_child [of E C db ks ts u] by simp
qed simp

subsection \<open>The steps of the walk\<close>

lemma load_internal_stored:
  "env_ok E C \<Longrightarrow> stored E C db (TInner ks ts) \<Longrightarrow> load_internal E db (root_id (hash_node E) (TInner ks ts))
     = Inr \<lparr>sep_keys = ks, children = map (root_id (hash_node E)) ts\<rparr>"
  by (simp add: load_internal_def load_stored node_of_inner del: node_of.simps)

lemma load_leaf_stored:
  "env_ok E C \<Longrightarrow> stored E C db (TLeaf es nx) \<Longrightarrow> load_leaf E db (root_id (hash_node E) (TLeaf es nx))
     = Inr \<lparr>entries = es, next_leaf = nx\<rparr>"
  by (simp add: load_leaf_def load_stored)

text \<open>Descending to the first and to the last leaf of a subtree.\<close>

lemma descend_first_leaf:
  assumes E: "env_ok E C"
  shows "stored E C db u \<Longrightarrow> inhabited u \<Longrightarrow> at_pos z u t \<Longrightarrow>
    \<exists>z' es nx. descend_first E db (path_of (hash_node E) z) (root_id (hash_node E) u)
        = ok (Some (root_id (hash_node E) (TLeaf es nx)), path_of (hash_node E) z')
      \<and> at_pos z' (TLeaf es nx) t \<and> leaves u @ leaves_after z = es # leaves_after z'"
proof (induction u arbitrary: z)
  case (TLeaf es nx)
  then show ?case
    by (intro exI [of _ z] exI [of _ es] exI [of _ nx], subst descend_first.simps) (simp add: load_stored [OF E])
next
  case (TInner ks ts)
  obtain c us where ts: "ts = c # us" using TInner.prems(2) by (cases ts) auto
  have "at_pos ((ks, ts, 0) # z) c t" using TInner.prems(3) ts by simp
  from TInner.IH [OF _ _ _ this] TInner.prems(1,2) stored_child [OF TInner.prems(1)] ts obtain z' es nx where
    "descend_first E db (path_of (hash_node E) ((ks, ts, 0) # z)) (root_id (hash_node E) c)
        = ok (Some (root_id (hash_node E) (TLeaf es nx)), path_of (hash_node E) z')"
    "at_pos z' (TLeaf es nx) t" "leaves c @ leaves_after ((ks, ts, 0) # z) = es # leaves_after z'" by auto
  then show ?case
    by (intro exI [of _ z'] exI [of _ es] exI [of _ nx], subst descend_first.simps)
      (simp add: load_stored [OF E TInner.prems(1), unfolded node_of_inner, unfolded ts] ts)
qed

lemma descend_last_leaf:
  assumes E: "env_ok E C"
  shows "stored E C db u \<Longrightarrow> inhabited u \<Longrightarrow> at_pos z u t \<Longrightarrow>
    \<exists>z' es nx. descend_last E db (path_of (hash_node E) z) (root_id (hash_node E) u)
        = ok (Some (root_id (hash_node E) (TLeaf es nx)), path_of (hash_node E) z')
      \<and> at_pos z' (TLeaf es nx) t \<and> leaves_before z @ leaves u = leaves_before z' @ [es]"
proof (induction u arbitrary: z)
  case (TLeaf es nx)
  then show ?case
    by (intro exI [of _ z] exI [of _ es] exI [of _ nx], subst descend_last.simps) (simp add: load_stored [OF E])
next
  case (TInner ks ts)
  obtain c us where ts: "ts = us @ [c]" using TInner.prems(2) by (cases ts rule: rev_cases) auto
  have "at_pos ((ks, ts, length us) # z) c t" using TInner.prems(3) ts by simp
  from TInner.IH [OF _ _ _ this] TInner.prems(1,2) stored_child [OF TInner.prems(1)] ts obtain z' es nx where
    "descend_last E db (path_of (hash_node E) ((ks, ts, length us) # z)) (root_id (hash_node E) c)
        = ok (Some (root_id (hash_node E) (TLeaf es nx)), path_of (hash_node E) z')"
    "at_pos z' (TLeaf es nx) t" "leaves_before ((ks, ts, length us) # z) @ leaves c = leaves_before z' @ [es]" by auto
  then show ?case
    by (intro exI [of _ z'] exI [of _ es] exI [of _ nx], subst descend_last.simps)
      (simp add: load_stored [OF E TInner.prems(1), unfolded node_of_inner, unfolded ts] ts nth_append Let_def)
qed

text \<open>The next leaf is the first one after the position, if there is one.\<close>

lemma leaves_nonempty: "inhabited t \<Longrightarrow> leaves t \<noteq> []"
  by (induction t) auto

lemma next_leaf:
  assumes E: "env_ok E C"
  shows "at_pos z u t \<Longrightarrow> stored E C db t \<Longrightarrow> inhabited t \<Longrightarrow> (case leaves_after z of
      [] \<Rightarrow> \<exists>q. next_leaf_from_path E db (path_of (hash_node E) z) = ok (None, q)
    | es # rest \<Rightarrow> \<exists>z' nx. next_leaf_from_path E db (path_of (hash_node E) z)
          = ok (Some (root_id (hash_node E) (TLeaf es nx)), path_of (hash_node E) z')
        \<and> at_pos z' (TLeaf es nx) t \<and> leaves_after z' = rest)"
proof (induction z u t rule: at_pos.induct)
  case (2 ks ts c z u t)
  have par: "stored E C db (TInner ks ts)" "inhabited (TInner ks ts)"
    using at_pos_sub [of z "TInner ks ts" t E C db] 2(2-4) by simp_all
  note load = load_internal_stored [OF E par(1)]
  show ?case
  proof (cases "Suc c < length ts")
    case False
    then have "next_leaf_from_path E db (path_of (hash_node E) ((ks, ts, c) # z))
        = next_leaf_from_path E db (path_of (hash_node E) z)" by (simp add: load Let_def)
    moreover have "leaves_after ((ks, ts, c) # z) = leaves_after z" using False by simp
    ultimately show ?thesis using 2 by (simp only: at_pos.simps)
  next
    case True
    let ?z = "(ks, ts, Suc c) # z" and ?v = "ts ! Suc c"
    have v: "?v \<in> set ts" using True by simp
    have "at_pos ?z ?v t" using True 2 by simp
    from descend_first_leaf [OF E stored_child [OF par(1) v] _ this] par(2) v obtain z' es nx where
      z': "descend_first E db (path_of (hash_node E) ?z) (root_id (hash_node E) ?v)
          = ok (Some (root_id (hash_node E) (TLeaf es nx)), path_of (hash_node E) z')"
      "at_pos z' (TLeaf es nx) t" "leaves ?v @ leaves_after ?z = es # leaves_after z'" by auto
    have "leaves_after ((ks, ts, c) # z) = es # leaves_after z'"
      using True z'(3) by (simp add: Cons_nth_drop_Suc [symmetric])
    with z' True show ?thesis by (auto simp: load Let_def)
  qed
qed (auto simp: ok_def)

lemma prev_leaf:
  assumes E: "env_ok E C"
  shows "at_pos z u t \<Longrightarrow> stored E C db t \<Longrightarrow> inhabited t \<Longrightarrow> (case rev (leaves_before z) of
      [] \<Rightarrow> \<exists>q. prev_leaf_from_path E db (path_of (hash_node E) z) = ok (None, q)
    | es # rest \<Rightarrow> \<exists>z' nx. prev_leaf_from_path E db (path_of (hash_node E) z)
          = ok (Some (root_id (hash_node E) (TLeaf es nx)), path_of (hash_node E) z')
        \<and> at_pos z' (TLeaf es nx) t \<and> rev (leaves_before z') = rest)"
proof (induction z u t rule: at_pos.induct)
  case (2 ks ts c z u t)
  have par: "stored E C db (TInner ks ts)" "inhabited (TInner ks ts)"
    using at_pos_sub [of z "TInner ks ts" t E C db] 2(2-4) by simp_all
  note load = load_internal_stored [OF E par(1)]
  show ?case
  proof (cases c)
    case 0
    then have "prev_leaf_from_path E db (path_of (hash_node E) ((ks, ts, c) # z))
        = prev_leaf_from_path E db (path_of (hash_node E) z)" by simp
    moreover have "leaves_before ((ks, ts, c) # z) = leaves_before z" using 0 by simp
    ultimately show ?thesis using 2 by (simp only: at_pos.simps)
  next
    case (Suc d)
    let ?z = "(ks, ts, d) # z" and ?v = "ts ! d"
    have d: "d < length ts" using 2 Suc by simp
    have "at_pos ?z ?v t" using d 2 by simp
    from descend_last_leaf [OF E stored_child [OF par(1) nth_mem [OF d]] _ this] par(2) d obtain z' es nx where
      z': "descend_last E db (path_of (hash_node E) ?z) (root_id (hash_node E) ?v)
          = ok (Some (root_id (hash_node E) (TLeaf es nx)), path_of (hash_node E) z')"
      "at_pos z' (TLeaf es nx) t" "leaves_before ?z @ leaves ?v = leaves_before z' @ [es]" by auto
    have "leaves_before ((ks, ts, c) # z) = leaves_before z' @ [es]"
      using d z'(3) by (simp add: Suc take_Suc_conv_app_nth)
    with z' d show ?thesis by (auto simp: load Let_def Suc)
  qed
qed (auto simp: ok_def)

text \<open>The cursor of a scan in a stored tree, going forward and going backward.\<close>

definition forward_at ::
  "('db, 'z) env_scheme \<Rightarrow> ('db \<Rightarrow> bytes \<rightharpoonup> bytes) \<Rightarrow> 'db \<Rightarrow> btree \<Rightarrow> bytes \<Rightarrow> path \<Rightarrow> leaf_entry list \<Rightarrow> leaf_entry list list \<Rightarrow> bool"
where
  "forward_at E C db t c p es rest \<longleftrightarrow> env_ok E C \<and> stored E C db t \<and> inhabited t
     \<and> (\<exists>z nx. c = root_id (hash_node E) (TLeaf es nx) \<and> p = path_of (hash_node E) z
          \<and> at_pos z (TLeaf es nx) t \<and> rest = leaves_after z)"

definition backward_at ::
  "('db, 'z) env_scheme \<Rightarrow> ('db \<Rightarrow> bytes \<rightharpoonup> bytes) \<Rightarrow> 'db \<Rightarrow> btree \<Rightarrow> bytes \<Rightarrow> path \<Rightarrow> leaf_entry list \<Rightarrow> leaf_entry list list \<Rightarrow> bool"
where
  "backward_at E C db t c p es rest \<longleftrightarrow> env_ok E C \<and> stored E C db t \<and> inhabited t
     \<and> (\<exists>z nx. c = root_id (hash_node E) (TLeaf es nx) \<and> p = path_of (hash_node E) z
          \<and> at_pos z (TLeaf es nx) t \<and> rest = rev (leaves_before z))"

lemma at_pos_load:
  "env_ok E C \<Longrightarrow> stored E C db t \<Longrightarrow> inhabited t \<Longrightarrow> at_pos z (TLeaf es nx) t \<Longrightarrow>
   load_leaf E db (root_id (hash_node E) (TLeaf es nx)) = Inr \<lparr>entries = es, next_leaf = nx\<rparr>"
  using at_pos_sub [of z "TLeaf es nx" t E C db] by (simp add: load_leaf_stored)

interpretation fw: leaf_walk E db "next_leaf_from_path E db" "forward_at E C db t" for E C db t
proof
  show "\<exists>leaf. load_leaf E db c = Inr leaf \<and> entries leaf = es" if "forward_at E C db t c p es rest" for c p es rest
    using that at_pos_load [of E C db t] by (fastforce simp: forward_at_def)
  show "\<exists>q. next_leaf_from_path E db p = ok (None, q)" if "forward_at E C db t c p es []" for c p es
    using that next_leaf [of E C] by (fastforce simp: forward_at_def)
  show "\<exists>c' q. next_leaf_from_path E db p = ok (Some c', q) \<and> forward_at E C db t c' q es' rest"
    if "forward_at E C db t c p es (es' # rest)" for c p es es' rest
  proof -
    from that obtain z nx where z: "env_ok E C" "stored E C db t" "inhabited t" "p = path_of (hash_node E) z"
      "at_pos z (TLeaf es nx) t" "es' # rest = leaves_after z" unfolding forward_at_def by blast
    from next_leaf [OF z(1,5,2,3)] obtain z' nx' where
      "next_leaf_from_path E db p = ok (Some (root_id (hash_node E) (TLeaf es' nx')), path_of (hash_node E) z')"
      "at_pos z' (TLeaf es' nx') t" "leaves_after z' = rest" by (auto simp: z(4) z(6) [symmetric])
    with z(1-3) show ?thesis by (auto simp: forward_at_def)
  qed
qed

interpretation bw: leaf_walk E db "prev_leaf_from_path E db" "backward_at E C db t" for E C db t
proof
  show "\<exists>leaf. load_leaf E db c = Inr leaf \<and> entries leaf = es" if "backward_at E C db t c p es rest" for c p es rest
    using that at_pos_load [of E C db t] by (fastforce simp: backward_at_def)
  show "\<exists>q. prev_leaf_from_path E db p = ok (None, q)" if "backward_at E C db t c p es []" for c p es
    using that prev_leaf [of E C] by (fastforce simp: backward_at_def)
  show "\<exists>c' q. prev_leaf_from_path E db p = ok (Some c', q) \<and> backward_at E C db t c' q es' rest"
    if "backward_at E C db t c p es (es' # rest)" for c p es es' rest
  proof -
    from that obtain z nx where z: "env_ok E C" "stored E C db t" "inhabited t" "p = path_of (hash_node E) z"
      "at_pos z (TLeaf es nx) t" "es' # rest = rev (leaves_before z)" unfolding backward_at_def by blast
    from prev_leaf [OF z(1,5,2,3)] obtain z' nx' where
      "prev_leaf_from_path E db p = ok (Some (root_id (hash_node E) (TLeaf es' nx')), path_of (hash_node E) z')"
      "at_pos z' (TLeaf es' nx') t" "rev (leaves_before z') = rest" by (auto simp: z(4) z(6) [symmetric])
    with z(1-3) show ?thesis by (auto simp: backward_at_def)
  qed
qed

section \<open>Scans return the live entries of the range\<close>

text \<open>
  The leaf found for a key: the entries before it are smaller than the key, those after it greater.
\<close>

definition splits_at :: "bytes \<Rightarrow> zipper \<Rightarrow> bool" where
  "splits_at k z \<longleftrightarrow> (\<forall>e\<in>set (concat (leaves_before z)). le_key e < k) \<and> (\<forall>e\<in>set (concat (leaves_after z)). k < le_key e)"

lemma find_leaf_loop_finds:
  assumes E: "env_ok E C"
  shows "stored E C db u \<Longrightarrow> ordered lo hi u \<Longrightarrow> at_pos z u t \<Longrightarrow> splits_at k z \<Longrightarrow>
    \<exists>z' es nx. find_leaf_loop E db k (path_of (hash_node E) z) (root_id (hash_node E) u)
        = ok (Some (root_id (hash_node E) (TLeaf es nx), path_of (hash_node E) z'))
      \<and> at_pos z' (TLeaf es nx) t \<and> splits_at k z'"
proof (induction u arbitrary: z lo hi)
  case (TLeaf es nx)
  then show ?case
    by (intro exI [of _ z] exI [of _ es] exI [of _ nx], subst find_leaf_loop.simps) (simp add: load_stored [OF E])
next
  case (TInner ks ts)
  let ?i = "child_index_for_key ks k" and ?H = "hash_node E"
  have ch: "chain ordered lo hi ks ts" using TInner.prems(2) by simp
  note c = chain_child [OF ch, of k]
  have ch': "chain ordered lo hi (take ?i ks @ drop ?i ks) (take ?i ts @ ts ! ?i # drop (Suc ?i) ts)"
    using ch c(4,5) by simp
  have len: "length (take ?i ts) = length (take ?i ks)" using c(2,3) by simp
  obtain l h where o: "ordered l h (ts ! ?i)" using chain_member [OF ch nth_mem [OF c(1)]] by blast
  have "splits_at k ((ks, ts, ?i) # z)"
    using TInner.prems(4) chain_left_entries [OF len ch' c(6)] chain_right_entries [OF len ch' c(7)]
    by (auto simp: splits_at_def concat_concat_map concat_leaves)
  moreover have "at_pos ((ks, ts, ?i) # z) (ts ! ?i) t" using TInner.prems(3) c(1) by simp
  ultimately obtain z' es nx where
    "find_leaf_loop E db k (path_of ?H ((ks, ts, ?i) # z)) (root_id ?H (ts ! ?i))
        = ok (Some (root_id ?H (TLeaf es nx), path_of ?H z'))" "at_pos z' (TLeaf es nx) t" "splits_at k z'"
    using TInner.IH [OF nth_mem [OF c(1)] stored_child [OF TInner.prems(1) nth_mem [OF c(1)]] o] by blast
  moreover have "ts \<noteq> []" using c(1) by auto
  ultimately show ?case
    using c(1) by (intro exI [of _ z'] exI [of _ es] exI [of _ nx], subst find_leaf_loop.simps)
      (simp add: load_stored [OF E TInner.prems(1)] node_of_inner Let_def del: node_of.simps)
qed

lemma rightmost_loop_finds:
  assumes E: "env_ok E C"
  shows "stored E C db u \<Longrightarrow> inhabited u \<Longrightarrow> at_pos z u t \<Longrightarrow> leaves_after z = [] \<Longrightarrow>
    \<exists>z' es nx. rightmost_loop E db (path_of (hash_node E) z) (root_id (hash_node E) u)
        = ok (Some (root_id (hash_node E) (TLeaf es nx), path_of (hash_node E) z'))
      \<and> at_pos z' (TLeaf es nx) t \<and> leaves_after z' = []"
proof (induction u arbitrary: z)
  case (TLeaf es nx)
  then show ?case
    by (intro exI [of _ z] exI [of _ es] exI [of _ nx], subst rightmost_loop.simps) (simp add: load_stored [OF E])
next
  case (TInner ks ts)
  obtain c us where ts: "ts = us @ [c]" using TInner.prems(2) by (cases ts rule: rev_cases) auto
  have "at_pos ((ks, ts, length us) # z) c t" "leaves_after ((ks, ts, length us) # z) = []"
    using TInner.prems(3,4) ts by simp_all
  from TInner.IH [OF _ _ _ this] TInner.prems(1,2) stored_child [OF TInner.prems(1)] ts obtain z' es nx where
    "rightmost_loop E db (path_of (hash_node E) ((ks, ts, length us) # z)) (root_id (hash_node E) c)
        = ok (Some (root_id (hash_node E) (TLeaf es nx), path_of (hash_node E) z'))"
    "at_pos z' (TLeaf es nx) t" "leaves_after z' = []" by auto
  then show ?case
    by (intro exI [of _ z'] exI [of _ es] exI [of _ nx], subst rightmost_loop.simps)
      (simp add: load_stored [OF E TInner.prems(1), unfolded node_of_inner, unfolded ts] ts nth_append Let_def)
qed

lemma takeWhile_eq_filter:
  "sorted_wrt R xs \<Longrightarrow> (\<And>x y. R x y \<Longrightarrow> P y \<Longrightarrow> P x) \<Longrightarrow> takeWhile P xs = filter P xs"
proof (induction xs)
  case (Cons x xs)
  then have "\<not> P x \<Longrightarrow> \<forall>y\<in>set xs. \<not> P y" by auto
  with Cons show ?case by simp
qed simp

lemma range_scan_append:
  "range_scan e (xs @ ys) st = (let r = range_scan e xs st in if fst r then r else range_scan e ys (snd r))"
  by (induction xs arbitrary: st) (simp_all add: Let_def)

lemma page_scan_append:
  "page_scan stop limit (xs @ ys) st
     = (let r = page_scan stop limit xs st in if fst r then r else page_scan stop limit ys (snd r))"
  by (induction xs arbitrary: st) (simp_all add: Let_def split: option.split)

lemma range_scan_live:
  "snd (range_scan e xs out) = out @ live (takeWhile (\<lambda>x. below e (le_key x)) xs)"
  by (induction xs arbitrary: out) (auto split: option.splits)

lemma page_scan_live:
  "length (snd st) < limit \<Longrightarrow> snd (snd (page_scan stop limit xs st))
     = snd st @ take (limit - length (snd st)) (drop (fst st) (live (takeWhile (\<lambda>x. \<not> stop (le_key x)) xs)))"
proof (induction xs arbitrary: st)
  case (Cons x xs)
  show ?case
  proof (cases "stop (le_key x) \<or> le_value x = None \<or> fst st > 0")
    case True
    with Cons show ?thesis by (auto simp: drop_Cons' split: option.splits)
  next
    case False
    then obtain v where v: "le_value x = Some v" "\<not> stop (le_key x)" "fst st = 0" by auto
    show ?thesis
    proof (cases "Suc (length (snd st)) \<ge> limit")
      case True
      with Cons.prems have "limit - length (snd st) = Suc 0" by simp
      with True v show ?thesis by simp
    next
      case False
      with Cons.prems have "limit - length (snd st) = Suc (limit - Suc (length (snd st)))" by simp
      with False v Cons.IH [of "(0, snd st @ [(le_key x, v)])"] show ?thesis by simp
    qed
  qed
qed simp

text \<open>The entries the forward scan sees are those from the start on, in order.\<close>

lemma skip_before_entries:
  assumes "sorted_wrt (<) (map le_key (t_entries t))" "at_pos z (TLeaf es nx) t" "splits_at start z"
  shows "skip_before start True es @ concat (map (skip_before start False) (leaves_after z))
    = filter (\<lambda>e. start \<le> le_key e) (t_entries t)"
proof -
  let ?B = "concat (leaves_before z)" and ?A = "concat (leaves_after z)"
  have t: "t_entries t = ?B @ es @ ?A"
    using at_pos_leaves [OF assms(2)] concat_leaves [of t] by simp
  have "filter (\<lambda>e. start \<le> le_key e) ?B = []" "filter (\<lambda>e. start \<le> le_key e) ?A = ?A"
    using assms(3) unfolding splits_at_def by (auto simp: filter_empty_conv filter_id_conv not_le less_imp_le)
  moreover have "skip_before start True es = filter (\<lambda>e. start \<le> le_key e) es"
    using assms(1) filter_sorted_eq_dropWhile [of le_key es start]
    by (simp add: t sorted_wrt_append skip_before_def partition_point_def dropWhile_eq_drop)
  moreover have "skip_before start False = id" by (simp add: skip_before_def fun_eq_iff)
  ultimately show ?thesis by (simp add: t)
qed

lemma live_range:
  assumes "sorted_wrt (<) (map le_key es)"
  shows "live (takeWhile (\<lambda>x. below hi (le_key x)) (filter (\<lambda>e. lo \<le> le_key e) es)) = kv_range lo hi (live es)"
proof -
  let ?es = "filter (\<lambda>e. lo \<le> le_key e) es"
  have "sorted_wrt (\<lambda>x y. le_key x < le_key y) ?es"
    using sorted_wrt_less_filter [OF assms] by (simp add: sorted_wrt_map)
  then have "takeWhile (\<lambda>x. below hi (le_key x)) ?es = filter (\<lambda>x. below hi (le_key x)) ?es"
    by (rule takeWhile_eq_filter) (auto intro: below_trans less_imp_le)
  also have "\<dots> = filter (\<lambda>e. lo \<le> le_key e \<and> below hi (le_key e)) es" by (auto intro: filter_cong)
  finally show ?thesis
    using live_filter_key [of "\<lambda>k. lo \<le> k \<and> below hi k" es] by (simp add: kv_range_def)
qed

lemma find_leaf_with_path_finds:
  assumes "env_ok E C" "stored E C db t" "ordered lo hi t"
  obtains z es nx where "find_leaf_with_path E db (root_id (hash_node E) t) k
      = ok (Some (root_id (hash_node E) (TLeaf es nx), path_of (hash_node E) z))"
    "at_pos z (TLeaf es nx) t" "splits_at k z"
  using find_leaf_loop_finds [OF assms, of "[]" t k]
  by (auto simp: find_leaf_with_path_def splits_at_def)

lemma range_entries_live:
  assumes E: "env_ok E C" and t: "stored E C db t" "ordered l h t"
  shows "range_entries_at_root E db (root_id (hash_node E) t) lo hi = ok (kv_range lo hi (t_live t))"
proof -
  obtain z es nx where z: "find_leaf_with_path E db (root_id (hash_node E) t) lo
      = ok (Some (root_id (hash_node E) (TLeaf es nx), path_of (hash_node E) z))"
    "at_pos z (TLeaf es nx) t" "splits_at lo z"
    using find_leaf_with_path_finds [OF E t] .
  have "forward_at E C db t (root_id (hash_node E) (TLeaf es nx)) (path_of (hash_node E) z) es (leaves_after z)"
    using E t z(2) ordered_inhabited unfolding forward_at_def by blast
  then have "range_entries_at_root E db (root_id (hash_node E) t) lo hi
      = ok (run_leaves (\<lambda>f es. range_scan hi (skip_before lo f es)) True (es # leaves_after z) [])"
    using fw.leaf_loop_runs by (simp add: range_entries_at_root_def z(1))
  also have "\<dots> = ok (kv_range lo hi (t_live t))"
    using sorted_t_entries [OF t(2)]
    by (subst run_leaves_scan [where scan = "range_scan hi"])
      (simp_all add: range_scan_append skip_before_entries [OF _ z(2,3)] range_scan_live live_range t_live_def)
  finally show ?thesis .
qed

lemma page_forward_live:
  assumes E: "env_ok E C" and t: "stored E C db t" "ordered l h t" and limit: "0 < limit"
  shows "range_entries_page_at_root_forward E db (root_id (hash_node E) t) lo hi offset limit
    = with_capacity 48 limit (ok (take limit (drop offset (kv_range lo hi (t_live t)))))"
proof -
  let ?scan = "page_scan (\<lambda>k. case hi of Some end' \<Rightarrow> k \<ge> end' | None \<Rightarrow> False) limit"
  have stop: "(\<lambda>x. \<not> (case hi of Some end' \<Rightarrow> le_key x \<ge> end' | None \<Rightarrow> False)) = (\<lambda>x. below hi (le_key x))"
    by (cases hi) (auto simp: fun_eq_iff)
  obtain z es nx where z: "find_leaf_with_path E db (root_id (hash_node E) t) lo
      = ok (Some (root_id (hash_node E) (TLeaf es nx), path_of (hash_node E) z))"
    "at_pos z (TLeaf es nx) t" "splits_at lo z"
    using find_leaf_with_path_finds [OF E t] .
  have "forward_at E C db t (root_id (hash_node E) (TLeaf es nx)) (path_of (hash_node E) z) es (leaves_after z)"
    using E t z(2) ordered_inhabited unfolding forward_at_def by blast
  then have "range_entries_page_at_root_forward E db (root_id (hash_node E) t) lo hi offset limit
      = with_capacity 48 limit (ok (snd (run_leaves (\<lambda>f es. ?scan (skip_before lo f es)) True (es # leaves_after z) (offset, []))))"
    by (simp add: range_entries_page_at_root_forward_def z(1) fw.leaf_loop_runs del: run_leaves.simps)
  also have "\<dots> = with_capacity 48 limit (ok (take limit (drop offset (kv_range lo hi (t_live t)))))"
    using sorted_t_entries [OF t(2)] limit
    by (subst run_leaves_scan [where scan = ?scan])
      (simp_all add: page_scan_append skip_before_entries [OF _ z(2,3)] page_scan_live stop live_range t_live_def)
  finally show ?thesis .
qed

text \<open>The entries the backward scan sees are those below the end, from the last to the first.\<close>

definition ends_at :: "bytes option \<Rightarrow> zipper \<Rightarrow> bool" where
  "ends_at hi z \<longleftrightarrow> (case hi of Some k \<Rightarrow> splits_at k z | None \<Rightarrow> leaves_after z = [])"

lemma upper_entries_entries:
  assumes "sorted_wrt (<) (map le_key (t_entries t))" "at_pos z (TLeaf es nx) t" "ends_at hi z"
  shows "upper_entries hi True es @ concat (map (upper_entries hi False) (rev (leaves_before z)))
    = rev (filter (\<lambda>e. below hi (le_key e)) (t_entries t))"
proof -
  let ?B = "concat (leaves_before z)" and ?A = "concat (leaves_after z)"
  have t: "t_entries t = ?B @ es @ ?A"
    using at_pos_leaves [OF assms(2)] concat_leaves [of t] by simp
  have B: "filter (\<lambda>e. below hi (le_key e)) ?B = ?B" and A: "filter (\<lambda>e. below hi (le_key e)) ?A = []"
    using assms(3) by (auto simp: ends_at_def splits_at_def filter_empty_conv filter_id_conv not_less less_imp_le
        split: option.splits)
  have "upper_entries hi True es = rev (filter (\<lambda>e. below hi (le_key e)) es)"
  proof (cases hi)
    case (Some k)
    have "sorted_wrt (<) (map le_key es)" using assms(1) by (simp add: t sorted_wrt_append)
    with filter_sorted_eq_takeWhile [of le_key es k] takeWhile_eq_take [of "\<lambda>e. le_key e < k" es] Some
    show ?thesis by (simp add: upper_entries_def partition_point_def)
  qed (simp add: upper_entries_def)
  moreover have "upper_entries hi False = rev" by (simp add: upper_entries_def fun_eq_iff)
  ultimately show ?thesis by (simp add: t A B rev_concat)
qed

lemma live_rev: "live (rev es) = rev (live es)"
  by (induction es) (auto split: option.split)

lemma live_range_rev:
  assumes "sorted_wrt (<) (map le_key es)"
  shows "live (takeWhile (\<lambda>x. \<not> le_key x < lo) (rev (filter (\<lambda>e. below hi (le_key e)) es)))
    = rev (kv_range lo hi (live es))"
proof -
  let ?es = "filter (\<lambda>e. below hi (le_key e)) es"
  have "sorted_wrt (\<lambda>x y. le_key y < le_key x) (rev ?es)"
    using sorted_wrt_less_filter [OF assms] by (simp add: sorted_wrt_map sorted_wrt_rev)
  then have "takeWhile (\<lambda>x. \<not> le_key x < lo) (rev ?es) = filter (\<lambda>x. \<not> le_key x < lo) (rev ?es)"
    by (rule takeWhile_eq_filter) (auto simp: not_less)
  also have "\<dots> = rev (filter (\<lambda>e. lo \<le> le_key e \<and> below hi (le_key e)) es)"
    by (auto simp: rev_filter [symmetric] not_less intro: filter_cong)
  finally show ?thesis
    using live_filter_key [of "\<lambda>k. lo \<le> k \<and> below hi k" es] by (simp add: kv_range_def live_rev)
qed

lemma page_reverse_live:
  assumes E: "env_ok E C" and t: "stored E C db t" "ordered l h t" and limit: "0 < limit"
  shows "range_entries_page_at_root_reverse E db (root_id (hash_node E) t) lo hi offset limit
    = with_capacity 48 limit (ok (take limit (drop offset (rev (kv_range lo hi (t_live t))))))"
proof -
  let ?scan = "page_scan (\<lambda>k. k < lo) limit" and ?H = "hash_node E"
  obtain z es nx where z: "(case hi of Some end' \<Rightarrow> find_leaf_with_path E db (root_id ?H t) end'
        | None \<Rightarrow> rightmost_leaf_with_path E db (root_id ?H t)) = ok (Some (root_id ?H (TLeaf es nx), path_of ?H z))"
    "at_pos z (TLeaf es nx) t" "ends_at hi z"
  proof (cases hi)
    case None
    then show ?thesis
      using that rightmost_loop_finds [OF E t(1) ordered_inhabited [OF t(2)], of "[]" t]
      by (auto simp: rightmost_leaf_with_path_def ends_at_def)
  next
    case (Some k)
    obtain z es nx where "find_leaf_with_path E db (root_id ?H t) k = ok (Some (root_id ?H (TLeaf es nx), path_of ?H z))"
      "at_pos z (TLeaf es nx) t" "splits_at k z" using find_leaf_with_path_finds [OF E t] .
    with Some that show ?thesis by (simp add: ends_at_def)
  qed
  have "backward_at E C db t (root_id ?H (TLeaf es nx)) (path_of ?H z) es (rev (leaves_before z))"
    using E t z(2) ordered_inhabited unfolding backward_at_def by blast
  then have "range_entries_page_at_root_reverse E db (root_id ?H t) lo hi offset limit
      = with_capacity 48 limit (ok (snd (run_leaves (\<lambda>f es. ?scan (upper_entries hi f es)) True (es # rev (leaves_before z)) (offset, []))))"
    by (simp add: range_entries_page_at_root_reverse_def z(1) bw.leaf_loop_runs del: run_leaves.simps)
  also have "\<dots> = with_capacity 48 limit (ok (take limit (drop offset (rev (kv_range lo hi (t_live t))))))"
    using sorted_t_entries [OF t(2)] limit
    by (subst run_leaves_scan [where scan = ?scan])
      (simp_all add: page_scan_append upper_entries_entries [OF _ z(2,3)] page_scan_live live_range_rev t_live_def)
  finally show ?thesis .
qed

lemma page_live:
  assumes "env_ok E C" "stored E C db t" "ordered l h t"
  shows "range_entries_page_at_root E db (root_id (hash_node E) t) lo hi offset limit reverse
    = with_capacity 48 limit (ok (take limit (drop offset ((if reverse then rev else id) (kv_range lo hi (t_live t))))))"
  using page_forward_live [OF assms, of limit] page_reverse_live [OF assms, of limit]
  by (simp add: range_entries_page_at_root_def)

lemma collect_prefixed_live:
  assumes "env_ok E C" "stored E C db t" "ordered l h t"
  shows "collect_prefixed_entries_at_root E db (root_id (hash_node E) t) p
    = ok (filter (\<lambda>e. starts_with (fst e) p) (t_live t))"
  by (simp add: collect_prefixed_entries_at_root_def range_entries_live [OF assms] bt.prefix_range)

end
