(* ===== verification/Tree_Blocks.thy ===== *)
theory Tree_Blocks
  imports Tree_Range
begin

text \<open>
  Blocks of \<^verbatim>\<open>src/runtime/tree_db.rs\<close>: opening the database, the block life cycle (\<open>begin_block\<close>,
  \<open>finish_block\<close>, \<open>abort_block\<close>), pinning the active root, rewinding to a height, and the
  lookups from heights and block hashes to roots.
\<close>

section \<open>Operations\<close>

datatype tree_error = Rocks rocks_error | Missing_parent_root u32 bytes
  | Missing_block_hash u32 | Missing_root u32 bytes

text \<open>The calls on the database handle.\<close>

definition get_c :: "('db, 'z) env_scheme \<Rightarrow> bytes \<Rightarrow> ('db, rocks_error, bytes option) comp" where
  "get_c E k db = Some (db_get E db k, db)"

definition put_c :: "('db, 'z) env_scheme \<Rightarrow> bytes \<Rightarrow> bytes \<Rightarrow> ('db, rocks_error, unit) comp" where
  "put_c E k v db = Some (db_put E db k v)"

definition array_of :: "nat \<Rightarrow> bytes option \<Rightarrow> bytes option" where
  "array_of n v = (case v of Some bs \<Rightarrow> if length bs = n then Some bs else None | None \<Rightarrow> None)"

definition tree_new :: "('db, 'z) env_scheme \<Rightarrow> ('db, rocks_error, tree_state) comp" where
  "tree_new E =
     (let empty = Leaf default_leaf; empty_key = node_key (hash_node E empty) in
      bindc (get_c E empty_key) (\<lambda>present.
      bindc (if present = None then put_c E empty_key (encode_node_page E empty) else ret ()) (\<lambda>_.
      bindc (get_c E META_ACTIVE_ROOT) (\<lambda>root.
      bindc (get_c E META_ACTIVE_BLOCK) (\<lambda>block.
      bindc (get_c E META_PINNED_ROOT) (\<lambda>pinned.
      bindc (get_c E META_PIN_UNTIL_HEIGHT) (\<lambda>until.
      ret \<lparr>st_active_root = (case array_of 32 root of Some arr \<Rightarrow> arr
              | None \<Rightarrow> st_active_root (default_tree_state E)),
           active_block = array_of 32 block,
           pinned_root = array_of 32 pinned,
           pin_until_height = map_option u32_from_be_bytes (array_of 4 until),
           current_block = None\<rparr>)))))))"

definition get_array :: "('db, 'z) env_scheme \<Rightarrow> 'db \<Rightarrow> nat \<Rightarrow> bytes \<Rightarrow> rocks_error + bytes option" where
  "get_array E db n k = (case db_get E db k of Inl e \<Rightarrow> Inl e | Inr v \<Rightarrow> Inr (array_of n v))"

definition root_for_blockhash :: "('db, 'z) env_scheme \<Rightarrow> 'db tree_db \<Rightarrow> bytes \<Rightarrow> rocks_error + bytes option" where
  "root_for_blockhash E d block_hash =
     (let other = get_array E (tdb d) 32 (block_root_key block_hash) in
      case current_block (tstate d) of
        Some ctx \<Rightarrow> if bc_block_hash ctx = block_hash then Inr (Some (working_root ctx)) else other
      | None \<Rightarrow> other)"

definition has_committed_blocks :: "('db, 'z) env_scheme \<Rightarrow> 'db \<Rightarrow> rocks_error + bool" where
  "has_committed_blocks E db = (case db_iterator E db (IterFrom HEIGHT_BLOCK_PREFIX Forward) of
       [] \<Rightarrow> Inr False
     | Inl e # _ \<Rightarrow> Inl e
     | Inr kv # _ \<Rightarrow> Inr (starts_with (fst kv) HEIGHT_BLOCK_PREFIX))"

definition begin_block ::
  "('db, 'z) env_scheme \<Rightarrow> u32 \<Rightarrow> bytes \<Rightarrow> bytes \<Rightarrow> ('db tree_db, tree_error, unit) comp" where
  "begin_block E height block_hash parent_hash d =
     (let st = tstate d;
          enter = (\<lambda>base_root. Some (Inr (), d\<lparr>tstate := st\<lparr>current_block := Some
            \<lparr>bc_height = height, bc_block_hash = block_hash, bc_parent_hash = parent_hash,
             working_root = base_root\<rparr>\<rparr>\<rparr>));
          bail = Some (Inl (Missing_parent_root height parent_hash), d) in
      case root_for_blockhash E d parent_hash of
        Inl e \<Rightarrow> Some (Inl (Rocks e), d)
      | Inr (Some root) \<Rightarrow> enter root
      | Inr None \<Rightarrow>
          (if active_block st \<noteq> None then bail
           else if st_active_root st = empty_root_id E then enter (empty_root_id E)
           else case has_committed_blocks E (tdb d) of
             Inl e \<Rightarrow> Some (Inl (Rocks e), d)
           | Inr committed \<Rightarrow> if \<not> committed then enter (empty_root_id E) else bail))"

definition abort_block :: "'db tree_db \<Rightarrow> 'db tree_db" where
  "abort_block d = d\<lparr>tstate := (tstate d)\<lparr>current_block := None\<rparr>\<rparr>"

text \<open>The state and the writes of \<open>finish_block\<close>.\<close>

definition finish_plan :: "tree_state \<Rightarrow> block_context \<Rightarrow> tree_state \<times> batch_op list" where
  "finish_plan st ctx =
     (let st = st\<lparr>current_block := None\<rparr>;
          wb = [BPut (block_root_key (bc_block_hash ctx)) (working_root ctx),
                BPut (height_block_key (bc_height ctx)) (bc_block_hash ctx),
                BPut (block_height_key (bc_block_hash ctx)) (u32_to_be_bytes (bc_height ctx)),
                BPut (block_parent_key (bc_block_hash ctx)) (bc_parent_hash ctx)];
          keep = (case pin_until_height st of Some until \<Rightarrow> bc_height ctx \<le> until | None \<Rightarrow> False);
          unpin = (pin_until_height st \<noteq> None \<and> \<not> keep);
          st = (if unpin then st\<lparr>pin_until_height := None, pinned_root := None\<rparr> else st);
          wb = (if unpin then wb @ [BDelete META_PIN_UNTIL_HEIGHT, BDelete META_PINNED_ROOT] else wb);
          st = (if keep then st else st\<lparr>st_active_root := working_root ctx, active_block := Some (bc_block_hash ctx)\<rparr>)
      in (st, wb @ active_ops st))"

definition finish_block :: "('db, 'z) env_scheme \<Rightarrow> ('db tree_db, rocks_error, unit) comp" where
  "finish_block E d = (case current_block (tstate d) of
       None \<Rightarrow> ret () d
     | Some ctx \<Rightarrow>
         let plan = finish_plan (tstate d) ctx in
         on_db (\<lambda>db. Some (db_write E db (snd plan))) (d\<lparr>tstate := fst plan\<rparr>))"

definition blockhash_for_height :: "('db, 'z) env_scheme \<Rightarrow> 'db \<Rightarrow> u32 \<Rightarrow> rocks_error + bytes option" where
  "blockhash_for_height E db height = get_array E db 32 (height_block_key height)"

text \<open>The scan for the index entries above the target (\<open>None\<close> makes all of them stale).\<close>

fun stale_keys :: "u32 option \<Rightarrow> (rocks_error + bytes \<times> bytes) list \<Rightarrow> rocks_error + bytes list \<times> bytes list" where
  "stale_keys target [] = Inr ([], [])"
| "stale_keys target (Inl e # rest) = Inl e"
| "stale_keys target (Inr (key, value) # rest) =
     (if \<not> starts_with key HEIGHT_BLOCK_PREFIX then Inr ([], [])
      else case stale_keys target rest of
        Inl e \<Rightarrow> Inl e
      | Inr (hs, bs) \<Rightarrow>
          (case decode_height_block_key key of
             None \<Rightarrow> Inr (hs, bs)
           | Some height \<Rightarrow>
               if (case target of Some t \<Rightarrow> height > t | None \<Rightarrow> True)
               then Inr (key # hs, (if length value = 32 then [block_height_key value] else []) @ bs)
               else Inr (hs, bs)))"

definition rewind_target ::
  "('db, 'z) env_scheme \<Rightarrow> 'db tree_db \<Rightarrow> u32 option \<Rightarrow> tree_error + bytes \<times> bytes option" where
  "rewind_target E d target_height = (case target_height of
       None \<Rightarrow> Inr (empty_root_id E, None)
     | Some height \<Rightarrow> (case blockhash_for_height E (tdb d) height of
           Inl e \<Rightarrow> Inl (Rocks e)
         | Inr None \<Rightarrow> Inl (Missing_block_hash height)
         | Inr (Some block_hash) \<Rightarrow> (case root_for_blockhash E d block_hash of
               Inl e \<Rightarrow> Inl (Rocks e)
             | Inr None \<Rightarrow> Inl (Missing_root height block_hash)
             | Inr (Some root) \<Rightarrow> Inr (root, Some block_hash))))"

definition rewind_ops :: "bytes \<Rightarrow> bytes option \<Rightarrow> bytes list \<Rightarrow> bytes list \<Rightarrow> batch_op list" where
  "rewind_ops root block hs bs =
     [BPut META_ACTIVE_ROOT root,
      (case block of Some b \<Rightarrow> BPut META_ACTIVE_BLOCK b | None \<Rightarrow> BDelete META_ACTIVE_BLOCK),
      BDelete META_PINNED_ROOT, BDelete META_PIN_UNTIL_HEIGHT] @ map BDelete hs @ map BDelete bs"

definition rewind_to_height ::
  "('db, 'z) env_scheme \<Rightarrow> u32 option \<Rightarrow> ('db tree_db, tree_error, unit) comp" where
  "rewind_to_height E target_height d = (case rewind_target E d target_height of
       Inl e \<Rightarrow> Some (Inl e, d)
     | Inr (root, block) \<Rightarrow>
         (case stale_keys target_height (db_iterator E (tdb d) (IterFrom HEIGHT_BLOCK_PREFIX Forward)) of
            Inl e \<Rightarrow> Some (Inl (Rocks e), d)
          | Inr (hs, bs) \<Rightarrow>
              let st = \<lparr>st_active_root = root, active_block = block, pinned_root = None,
                    pin_until_height = None, current_block = None\<rparr>;
                  w = db_write E (tdb d) (rewind_ops root block hs bs) in
              Some (map_sum Rocks id (fst w), \<lparr>tdb = snd w, tstate = st\<rparr>)))"

definition pin_active_root_until_height ::
  "('db, 'z) env_scheme \<Rightarrow> u32 \<Rightarrow> ('db tree_db, rocks_error, unit) comp" where
  "pin_active_root_until_height E until_height d =
     (let st = tstate d in
      on_db (\<lambda>db. Some (db_write E db [BPut META_PINNED_ROOT (st_active_root st),
          BPut META_PIN_UNTIL_HEIGHT (u32_to_be_bytes until_height)]))
        (d\<lparr>tstate := st\<lparr>pinned_root := Some (st_active_root st), pin_until_height := Some until_height\<rparr>\<rparr>))"

definition active_blockhash :: "tree_state \<Rightarrow> bytes option" where
  "active_blockhash st = active_block st"

definition height_for_blockhash :: "('db, 'z) env_scheme \<Rightarrow> 'db \<Rightarrow> bytes \<Rightarrow> rocks_error + u32 option" where
  "height_for_blockhash E db block_hash =
     map_sum id (map_option u32_from_be_bytes) (get_array E db 4 (block_height_key block_hash))"

definition parent_for_blockhash :: "('db, 'z) env_scheme \<Rightarrow> 'db \<Rightarrow> bytes \<Rightarrow> rocks_error + bytes option" where
  "parent_for_blockhash E db block_hash = get_array E db 32 (block_parent_key block_hash)"

definition u32_saturating_sub :: "u32 \<Rightarrow> u32 \<Rightarrow> u32" where
  "u32_saturating_sub a b = (if a < b then 0 else a - b)"

function ancestor_loop ::
  "('db, 'z) env_scheme \<Rightarrow> 'db \<Rightarrow> u32 \<Rightarrow> u32 \<Rightarrow> bytes \<Rightarrow> rocks_error + bytes option" where
  "ancestor_loop E db ancestor_height current_height cursor =
     (if current_height > ancestor_height then
        (case parent_for_blockhash E db cursor of
           Inl e \<Rightarrow> Inl e
         | Inr None \<Rightarrow> Inr None
         | Inr (Some parent) \<Rightarrow>
             ancestor_loop E db ancestor_height (u32_saturating_sub current_height 1) parent)
      else Inr (Some cursor))"
  by pat_completeness auto

lemma u32_saturating_sub_less: "(a :: u32) < b \<Longrightarrow> unat (u32_saturating_sub b 1) < unat b"
  unfolding u32_saturating_sub_def by unat_arith

termination ancestor_loop
  by (relation "measure (\<lambda>(E, db, a, c, cursor). unat c)") (auto intro: u32_saturating_sub_less)

declare ancestor_loop.simps [simp del]

definition is_ancestor :: "('db, 'z) env_scheme \<Rightarrow> 'db \<Rightarrow> bytes \<Rightarrow> bytes \<Rightarrow> rocks_error + bool" where
  "is_ancestor E db ancestor descendant = (case height_for_blockhash E db ancestor of
       Inl e \<Rightarrow> Inl e
     | Inr None \<Rightarrow> Inr False
     | Inr (Some ancestor_height) \<Rightarrow> (case height_for_blockhash E db descendant of
           Inl e \<Rightarrow> Inl e
         | Inr None \<Rightarrow> Inr False
         | Inr (Some current_height) \<Rightarrow>
             if ancestor_height > current_height then Inr False
             else map_sum id (\<lambda>cursor. cursor = Some ancestor)
               (ancestor_loop E db ancestor_height current_height descendant)))"

fun first_height :: "(rocks_error + bytes \<times> bytes) list \<Rightarrow> rocks_error + u32 option" where
  "first_height [] = Inr None"
| "first_height (Inl e # rest) = Inl e"
| "first_height (Inr (key, value) # rest) =
     (if \<not> starts_with key HEIGHT_BLOCK_PREFIX then Inr None
      else case decode_height_block_key key of Some height \<Rightarrow> Inr (Some height) | None \<Rightarrow> first_height rest)"

fun last_height :: "u32 \<Rightarrow> (rocks_error + bytes \<times> bytes) list \<Rightarrow> rocks_error + u32" where
  "last_height last' [] = Inr last'"
| "last_height last' (Inl e # rest) = Inl e"
| "last_height last' (Inr (key, value) # rest) =
     (if \<not> starts_with key HEIGHT_BLOCK_PREFIX then
        (if key < HEIGHT_BLOCK_PREFIX then Inr last' else last_height last' rest)
      else case decode_height_block_key key of Some height \<Rightarrow> Inr height | None \<Rightarrow> last_height last' rest)"

definition indexed_height_bounds :: "('db, 'z) env_scheme \<Rightarrow> 'db \<Rightarrow> rocks_error + (u32 \<times> u32) option" where
  "indexed_height_bounds E db =
     (case first_height (db_iterator E db (IterFrom HEIGHT_BLOCK_PREFIX Forward)) of
        Inl e \<Rightarrow> Inl e
      | Inr None \<Rightarrow> Inr None
      | Inr (Some first) \<Rightarrow>
          (case prefix_end_exclusive HEIGHT_BLOCK_PREFIX of
             None \<Rightarrow> Inr (Some (first, first))
           | Some end_prefix \<Rightarrow> map_sum id (\<lambda>last'. Some (first, last'))
               (last_height first (db_iterator E db (IterFrom end_prefix Reverse)))))"

section \<open>Scanning the height index\<close>

text \<open>The height index as a map, and the keys of the database that belong to it.\<close>

lemma map_entries_keys: "map fst (map_entries m) = sorted_list_of_set (dom m)"
  by (simp add: map_entries_def comp_def)

lemma set_map_entries: "finite (dom m) \<Longrightarrow> (k, v) \<in> set (map_entries m) \<longleftrightarrow> m k = Some v"
  by (auto simp: map_entries_def)

lemma sorted_map_entries: "sorted_wrt (<) (map fst (map_entries m))"
  by (simp add: map_entries_keys)

lemma prefixed_takeWhile:
  assumes "sorted_wrt (<) (map fst es)"
  shows "takeWhile (\<lambda>e. starts_with (fst e) p) (filter (\<lambda>e. p \<le> fst e) es) = filter (\<lambda>e. starts_with (fst e) p) es"
proof -
  let ?es = "filter (\<lambda>e. p \<le> fst e) es"
  have "sorted_wrt (\<lambda>x y. fst x < fst y) ?es"
    using sorted_wrt_less_filter [OF assms] by (simp add: sorted_wrt_map)
  then have "takeWhile (\<lambda>e. below (prefix_end_exclusive p) (fst e)) ?es
      = filter (\<lambda>e. below (prefix_end_exclusive p) (fst e)) ?es"
    by (rule takeWhile_eq_filter) (auto intro: below_trans less_imp_le)
  moreover have "takeWhile (\<lambda>e. starts_with (fst e) p) ?es
      = takeWhile (\<lambda>e. below (prefix_end_exclusive p) (fst e)) ?es"
    by (rule takeWhile_cong) (auto simp: prefix_end_range)
  ultimately show ?thesis by (auto simp: prefix_end_range intro!: filter_cong)
qed

lemma prefix_iterator:
  assumes "env_ok E C"
  shows "takeWhile (\<lambda>e. starts_with (fst e) p) (iter_entries (C db) (IterFrom p Forward))
    = filter (\<lambda>e. starts_with (fst e) p) (map_entries (C db))"
  by (simp add: prefixed_takeWhile sorted_map_entries)

definition stale :: "u32 option \<Rightarrow> u32 \<Rightarrow> bool" where
  "stale target h \<longleftrightarrow> (case target of Some t \<Rightarrow> t < h | None \<Rightarrow> True)"

definition stale_entry :: "u32 option \<Rightarrow> bytes \<times> bytes \<Rightarrow> bool" where
  "stale_entry target e \<longleftrightarrow> (case decode_height_block_key (fst e) of Some h \<Rightarrow> stale target h | None \<Rightarrow> False)"

lemma stale_keys_eq:
  "stale_keys target (map Inr es) = (let st = filter (stale_entry target)
       (takeWhile (\<lambda>e. starts_with (fst e) HEIGHT_BLOCK_PREFIX) es) in
     Inr (map fst st, map (\<lambda>e. block_height_key (snd e)) (filter (\<lambda>e. length (snd e) = 32) st)))"
proof (induction es)
  case (Cons e es)
  then show ?case
    by (cases e) (auto simp: Let_def stale_entry_def stale_def split: option.splits)
qed simp

lemma decode_height_block_key_SomeD: "decode_height_block_key k = Some h \<Longrightarrow> k = height_block_key h"
proof -
  assume "decode_height_block_key k = Some h"
  then obtain s where s: "k = HEIGHT_BLOCK_PREFIX @ s" "length s = 4" "h = u32_from_be_bytes s"
    by (auto simp: decode_height_block_key_def starts_with_iff split: if_splits)
  then show ?thesis by (simp add: height_block_key_def u32_to_from_be_bytes)
qed

lemma starts_with_height_block_key [simp]: "starts_with (height_block_key h) HEIGHT_BLOCK_PREFIX"
  by (simp add: height_block_key_def)

lemma stale_keys_set:
  assumes "env_ok E C"
    "stale_keys target (db_iterator E db (IterFrom HEIGHT_BLOCK_PREFIX Forward)) = Inr (hs, bs)"
  shows "set hs = {height_block_key h | h. C db (height_block_key h) \<noteq> None \<and> stale target h}"
    and "set bs = {block_height_key b | b h. C db (height_block_key h) = Some b \<and> stale target h \<and> length b = 32}"
proof -
  let ?st = "filter (stale_entry target) (filter (\<lambda>e. starts_with (fst e) HEIGHT_BLOCK_PREFIX) (map_entries (C db)))"
  have fin: "finite (dom (C db))" using assms(1) by (rule env_ok_finite)
  have st: "set ?st = {(height_block_key h, b) | h b. C db (height_block_key h) = Some b \<and> stale target h}"
    by (auto simp: set_map_entries [OF fin] stale_entry_def split: option.splits
        dest!: decode_height_block_key_SomeD)
  have eq: "hs = map fst ?st" "bs = map (\<lambda>e. block_height_key (snd e)) (filter (\<lambda>e. length (snd e) = 32) ?st)"
    using assms(2) prefix_iterator [OF assms(1), of HEIGHT_BLOCK_PREFIX db]
    by (simp_all add: env_ok_iterator [OF assms(1)] stale_keys_eq Let_def del: iter_entries.simps)
  show "set hs = {height_block_key h | h. C db (height_block_key h) \<noteq> None \<and> stale target h}"
    unfolding eq set_map st by force
  show "set bs = {block_height_key b | b h. C db (height_block_key h) = Some b \<and> stale target h \<and> length b = 32}"
    unfolding eq set_map set_filter [of _ ?st] st by force
qed

lemma has_committed_blocks_iff:
  assumes "env_ok E C"
  shows "has_committed_blocks E db = Inr (\<exists>k. starts_with k HEIGHT_BLOCK_PREFIX \<and> C db k \<noteq> None)"
proof -
  let ?it = "iter_entries (C db) (IterFrom HEIGHT_BLOCK_PREFIX Forward)"
  have fin: "finite (dom (C db))" using assms by (rule env_ok_finite)
  have "(\<exists>k. starts_with k HEIGHT_BLOCK_PREFIX \<and> C db k \<noteq> None)
      \<longleftrightarrow> filter (\<lambda>e. starts_with (fst e) HEIGHT_BLOCK_PREFIX) (map_entries (C db)) \<noteq> []"
    unfolding filter_empty_conv using set_map_entries [OF fin] by (metis fst_conv not_None_eq surj_pair)
  also have "\<dots> \<longleftrightarrow> ?it \<noteq> [] \<and> starts_with (fst (hd ?it)) HEIGHT_BLOCK_PREFIX"
    unfolding prefix_iterator [OF assms, symmetric] by (cases ?it) (auto simp del: iter_entries.simps)
  finally show ?thesis
    unfolding has_committed_blocks_def env_ok_iterator [OF assms]
    by (cases ?it) (auto simp del: iter_entries.simps)
qed

lemma fold_delete: "fold batch_effect (map BDelete ks) m = (\<lambda>k. if k \<in> set ks then None else m k)"
  by (induction ks arbitrary: m) (auto simp: fun_eq_iff)

text \<open>The first and the last indexed height.\<close>

definition indexed_heights :: "(bytes \<rightharpoonup> bytes) \<Rightarrow> u32 set" where
  "indexed_heights m = {h. m (height_block_key h) \<noteq> None}"

lemma height_block_key_less: "height_block_key m < height_block_key n \<longleftrightarrow> m < n"
  by (simp add: height_block_key_def u32_to_be_bytes_less)

definition height_list :: "(bytes \<times> bytes) list \<Rightarrow> u32 list" where
  "height_list es = List.map_filter (\<lambda>e. decode_height_block_key (fst e)) es"

lemma height_list_simps [simp]:
  "height_list [] = []"
  "height_list (e # es) = (case decode_height_block_key (fst e) of None \<Rightarrow> height_list es | Some h \<Rightarrow> h # height_list es)"
  by (simp_all add: height_list_def split: option.split)

lemma height_list_rev: "height_list (rev es) = rev (height_list es)"
  by (simp add: height_list_def List.map_filter_def rev_filter rev_map)

lemma height_list_filter:
  "(\<And>h. Q (height_block_key h)) \<Longrightarrow> height_list (filter (\<lambda>e. Q (fst e)) es) = height_list es"
proof (induction es)
  case (Cons e es)
  then show ?case by (cases e) (auto split: option.split dest!: decode_height_block_key_SomeD)
qed simp

lemma first_height_eq:
  "first_height (map Inr es) = Inr (case height_list
      (takeWhile (\<lambda>e. starts_with (fst e) HEIGHT_BLOCK_PREFIX) es) of [] \<Rightarrow> None | h # _ \<Rightarrow> Some h)"
proof (induction es)
  case (Cons e es)
  then show ?case by (cases e) (auto split: option.split)
qed simp

lemma prefix_le: "starts_with k p \<Longrightarrow> p \<le> k"
  by (simp add: prefix_end_range)

lemma last_height_eq:
  "last_height init (map Inr es) = Inr (case height_list
      (takeWhile (\<lambda>e. HEIGHT_BLOCK_PREFIX \<le> fst e) es) of [] \<Rightarrow> init | h # _ \<Rightarrow> h)"
proof (induction es)
  case (Cons e es)
  have "decode_height_block_key (fst e) = None" if "\<not> starts_with (fst e) HEIGHT_BLOCK_PREFIX"
    using that by (simp add: decode_height_block_key_def)
  with Cons show ?case
    by (cases e) (auto simp: not_less split: option.split dest: prefix_le)
qed simp

lemma height_list_entries:
  assumes "finite (dom m)"
  shows "sorted_wrt (<) (height_list (map_entries m))" "set (height_list (map_entries m)) = indexed_heights m"
proof -
  have "sorted_wrt (<) (map fst es) \<Longrightarrow> sorted_wrt (<) (height_list es)" for es
  proof (induction es)
    case (Cons e es)
    have "h' \<in> set (height_list es) \<Longrightarrow> \<exists>x\<in>set es. fst x = height_block_key h'" for h'
      by (force simp: height_list_def List.map_filter_def dest!: decode_height_block_key_SomeD)
    then have "h < h'" if "decode_height_block_key (fst e) = Some h" "h' \<in> set (height_list es)" for h h'
      using that Cons.prems by (force simp: height_block_key_less [symmetric] dest!: decode_height_block_key_SomeD)
    with Cons show ?case by (simp split: option.split)
  qed simp
  then show "sorted_wrt (<) (height_list (map_entries m))" by (simp add: sorted_map_entries)
  show "set (height_list (map_entries m)) = indexed_heights m"
    using set_map_entries [OF assms]
    by (force simp: height_list_def List.map_filter_def indexed_heights_def dest!: decode_height_block_key_SomeD)
qed

lemma indexed_height_bounds_eq:
  assumes E: "env_ok E C"
  shows "indexed_height_bounds E db = Inr (if indexed_heights (C db) = {} then None
    else Some (Min (indexed_heights (C db)), Max (indexed_heights (C db))))"
proof -
  let ?hs = "height_list (map_entries (C db))" and ?p = HEIGHT_BLOCK_PREFIX
  have fin: "finite (dom (C db))" using E by (rule env_ok_finite)
  note hs = height_list_entries [OF fin]
  obtain e where e: "prefix_end_exclusive ?p = Some e"
    by (simp add: prefix_defs prefix_end_exclusive_def)
  have below_e: "height_block_key h \<le> e" for h
    using prefix_end_range [of "height_block_key h" ?p] e by (simp add: less_imp_le)
  have first: "first_height (db_iterator E db (IterFrom ?p Forward)) = Inr (case ?hs of [] \<Rightarrow> None | h # _ \<Rightarrow> Some h)"
    using prefix_iterator [OF E, of ?p db] height_list_filter [of "\<lambda>k. starts_with k ?p" "map_entries (C db)"]
    by (simp add: env_ok_iterator [OF E] first_height_eq)
  have "height_list (takeWhile (\<lambda>e. ?p \<le> fst e) (iter_entries (C db) (IterFrom e Reverse))) = rev ?hs"
  proof -
    let ?es = "rev (filter (\<lambda>x. fst x \<le> e) (map_entries (C db)))"
    have "sorted_wrt (\<lambda>x y. fst y < fst x) ?es"
      using sorted_wrt_less_filter [OF sorted_map_entries] by (simp add: sorted_wrt_map sorted_wrt_rev)
    then have "takeWhile (\<lambda>e. ?p \<le> fst e) ?es = filter (\<lambda>e. ?p \<le> fst e) ?es"
      by (rule takeWhile_eq_filter) auto
    then show ?thesis
      using height_list_filter [of "\<lambda>k. ?p \<le> k"] height_list_filter [of "\<lambda>k. k \<le> e"] below_e
      by (simp add: height_list_rev prefix_le)
  qed
  then have last: "last_height init (db_iterator E db (IterFrom e Reverse)) = Inr (case rev ?hs of [] \<Rightarrow> init | h # _ \<Rightarrow> h)" for init
    by (simp add: env_ok_iterator [OF E] last_height_eq del: iter_entries.simps)
  show ?thesis
  proof (cases ?hs rule: rev_cases)
    case Nil
    then show ?thesis using hs by (simp add: indexed_height_bounds_def first)
  next
    case (snoc js j)
    have "Max (set ?hs) = j" using hs(1) snoc by (intro Max_eqI) (auto simp: sorted_wrt_append less_imp_le)
    moreover obtain i "is" where i: "?hs = i # is" using snoc by (metis Nil_is_append_conv list.exhaust not_Cons_self2)
    moreover have "Min (set ?hs) = i" using hs(1) i by (intro Min_eqI) (auto simp: less_imp_le)
    moreover have "first_height (db_iterator E db (IterFrom ?p Forward)) = Inr (Some i)"
      by (simp add: first i)
    moreover have "last_height i (db_iterator E db (IterFrom e Reverse)) = Inr j" by (simp add: last snoc)
    moreover have "indexed_heights (C db) \<noteq> {}" using i unfolding hs(2) [symmetric] by simp
    ultimately show ?thesis by (simp add: indexed_height_bounds_def e hs(2) [symmetric])
  qed
qed

end
