(* ===== verification/Versioned_Store.thy ===== *)
theory Versioned_Store
  imports Tree_Blocks
begin

text \<open>
  What the versioned tree database promises, and that the code keeps the promise.

  The specification (\<open>versions\<close>) is a store of trees: the active one, one per finished block, the
  tree of the block being built, the pinned tree, and the indexes from heights to blocks. The
  operations of \<open>Tree_Blocks\<close> and \<open>Tree_Batch\<close> on a database and its in-memory state simulate it
  step by step, for every sequence of operations, restarts of the process included.
\<close>

section \<open>The specification\<close>

record version_block =
  vb_height :: u32
  vb_hash :: bytes
  vb_parent :: bytes
  vb_tree :: btree

record versions =
  v_active :: btree
  v_active_block :: "bytes option"
  v_pin :: "(btree \<times> u32) option"
  v_current :: "version_block option"
  v_roots :: "bytes \<rightharpoonup> btree"
  v_heights :: "u32 \<rightharpoonup> bytes"
  v_block_heights :: "bytes \<rightharpoonup> u32"
  v_parents :: "bytes \<rightharpoonup> bytes"

definition no_versions :: versions where
  "no_versions = \<lparr>v_active = empty_tree, v_active_block = None, v_pin = None, v_current = None,
     v_roots = Map.empty, v_heights = Map.empty, v_block_heights = Map.empty, v_parents = Map.empty\<rparr>"

datatype tree_op = Begin u32 bytes bytes | Abort | Finish | Rewind "u32 option" | Pin u32
  | Write bytes "bytes option" | Batch "change list" | Reopen

text \<open>The tree reads see, the tree writes change, and the tree of a block.\<close>

definition v_visible :: "versions \<Rightarrow> btree" where
  "v_visible v = (case v_pin v of Some p \<Rightarrow> fst p | None \<Rightarrow> v_active v)"

definition v_target :: "versions \<Rightarrow> btree" where
  "v_target v = (case v_current v of Some c \<Rightarrow> vb_tree c | None \<Rightarrow> v_active v)"

definition v_set_target :: "btree \<Rightarrow> versions \<Rightarrow> versions" where
  "v_set_target t v = (case v_current v of
       Some c \<Rightarrow> v\<lparr>v_current := Some (c\<lparr>vb_tree := t\<rparr>)\<rparr> | None \<Rightarrow> v\<lparr>v_active := t\<rparr>)"

definition v_tree_of :: "versions \<Rightarrow> bytes \<rightharpoonup> btree" where
  "v_tree_of v b = (case v_current v of
       Some c \<Rightarrow> if vb_hash c = b then Some (vb_tree c) else v_roots v b | None \<Rightarrow> v_roots v b)"

definition v_enter :: "u32 \<Rightarrow> bytes \<Rightarrow> bytes \<Rightarrow> btree \<Rightarrow> versions \<Rightarrow> versions" where
  "v_enter h b p t v = v\<lparr>v_current := Some \<lparr>vb_height = h, vb_hash = b, vb_parent = p, vb_tree = t\<rparr>\<rparr>"

definition v_begin :: "u32 \<Rightarrow> bytes \<Rightarrow> bytes \<Rightarrow> versions \<Rightarrow> (tree_error + unit) \<times> versions" where
  "v_begin h b p v = (case v_tree_of v p of
       Some t \<Rightarrow> (Inr (), v_enter h b p t v)
     | None \<Rightarrow>
         if v_active_block v = None \<and> (v_active v = empty_tree \<or> v_heights v = Map.empty)
         then (Inr (), v_enter h b p empty_tree v) else (Inl (Missing_parent_root h p), v))"

definition v_finish :: "versions \<Rightarrow> versions" where
  "v_finish v = (case v_current v of
       None \<Rightarrow> v
     | Some c \<Rightarrow>
         let keep = (case v_pin v of Some p \<Rightarrow> vb_height c \<le> snd p | None \<Rightarrow> False) in
         v\<lparr>v_current := None,
           v_roots := (v_roots v)(vb_hash c \<mapsto> vb_tree c),
           v_heights := (v_heights v)(vb_height c \<mapsto> vb_hash c),
           v_block_heights := (v_block_heights v)(vb_hash c \<mapsto> vb_height c),
           v_parents := (v_parents v)(vb_hash c \<mapsto> vb_parent c),
           v_pin := (if keep then v_pin v else None),
           v_active := (if keep then v_active v else vb_tree c),
           v_active_block := (if keep then v_active_block v else Some (vb_hash c))\<rparr>)"

definition v_rewind_target :: "u32 option \<Rightarrow> versions \<Rightarrow> tree_error + btree \<times> bytes option" where
  "v_rewind_target target v = (case target of
       None \<Rightarrow> Inr (empty_tree, None)
     | Some h \<Rightarrow> (case v_heights v h of
           None \<Rightarrow> Inl (Missing_block_hash h)
         | Some b \<Rightarrow> (case v_tree_of v b of
               None \<Rightarrow> Inl (Missing_root h b) | Some t \<Rightarrow> Inr (t, Some b))))"

definition v_rewind :: "u32 option \<Rightarrow> versions \<Rightarrow> (tree_error + unit) \<times> versions" where
  "v_rewind target v = (case v_rewind_target target v of
       Inl e \<Rightarrow> (Inl e, v)
     | Inr (t, b) \<Rightarrow> (Inr (), v\<lparr>v_active := t, v_active_block := b, v_pin := None, v_current := None,
         v_heights := (\<lambda>h. if stale target h then None else v_heights v h),
         v_block_heights := (\<lambda>b. if \<exists>h. stale target h \<and> v_heights v h = Some b then None
            else v_block_heights v b)\<rparr>))"

fun v_op :: "(bptree_node \<Rightarrow> bytes) \<Rightarrow> tree_op \<Rightarrow> versions \<Rightarrow> (tree_error + unit) \<times> versions" where
  "v_op H (Begin h b p) v = v_begin h b p v"
| "v_op H Abort v = (Inr (), v\<lparr>v_current := None\<rparr>)"
| "v_op H Finish v = (Inr (), v_finish v)"
| "v_op H (Rewind target) v = v_rewind target v"
| "v_op H (Pin h) v = (Inr (), v\<lparr>v_pin := Some (v_active v, h)\<rparr>)"
| "v_op H (Write k x) v = (Inr (), v_set_target (t_apply H k x (v_target v)) v)"
| "v_op H (Batch cs) v =
     (Inr (), if cs = [] then v else v_set_target (bt.apply_all H (canonicalize cs) (v_target v)) v)"
| "v_op H Reopen v = (Inr (), v\<lparr>v_current := None\<rparr>)"

text \<open>The same operations on the code's state.\<close>

definition rocks :: "('s, rocks_error, 'a) comp \<Rightarrow> ('s, tree_error, 'a) comp" where
  "rocks m s = map_option (\<lambda>rs. (map_sum Rocks id (fst rs), snd rs)) (m s)"

definition reopen :: "('db, 'z) env_scheme \<Rightarrow> ('db tree_db, rocks_error, unit) comp" where
  "reopen E d = (case tree_new E (tdb d) of
       None \<Rightarrow> None
     | Some (Inl e, db) \<Rightarrow> Some (Inl e, d\<lparr>tdb := db\<rparr>)
     | Some (Inr st, db) \<Rightarrow> Some (Inr (), \<lparr>tdb = db, tstate = st\<rparr>))"

fun run_op :: "('db, 'z) env_scheme \<Rightarrow> tree_op \<Rightarrow> ('db tree_db, tree_error, unit) comp" where
  "run_op E (Begin h b p) = begin_block E h b p"
| "run_op E Abort = (\<lambda>d. Some (Inr (), abort_block d))"
| "run_op E Finish = rocks (finish_block E)"
| "run_op E (Rewind target) = rewind_to_height E target"
| "run_op E (Pin h) = rocks (pin_active_root_until_height E h)"
| "run_op E (Write k (Some x)) = rocks (tree_put E k x)"
| "run_op E (Write k None) = rocks (tree_delete E k)"
| "run_op E (Batch cs) = rocks (apply_batch E cs)"
| "run_op E Reopen = rocks (reopen E)"

section \<open>The simulation relation\<close>

definition tree_at ::
  "('db, 'z) env_scheme \<Rightarrow> ('db \<Rightarrow> bytes \<rightharpoonup> bytes) \<Rightarrow> bptree_node set \<Rightarrow> 'db \<Rightarrow> bytes \<Rightarrow> btree \<Rightarrow> bool" where
  "tree_at E C T db root t \<longleftrightarrow> denotes E C db root t \<and> tree_nodes (hash_node E) t \<subseteq> T \<and> length root = 32"

definition index_rel ::
  "('db, 'z) env_scheme \<Rightarrow> ('db \<Rightarrow> bytes \<rightharpoonup> bytes) \<Rightarrow> bptree_node set \<Rightarrow> 'db \<Rightarrow> versions \<Rightarrow> bool" where
  "index_rel E C T db v \<longleftrightarrow>
     (\<forall>b. rel_option (tree_at E C T db) (array_of 32 (C db (block_root_key b))) (v_roots v b))
     \<and> (\<forall>h. C db (height_block_key h) = v_heights v h \<and> (\<forall>b. v_heights v h = Some b \<longrightarrow> length b = 32))
     \<and> (\<forall>b. map_option u32_from_be_bytes (array_of 4 (C db (block_height_key b))) = v_block_heights v b)
     \<and> (\<forall>b. array_of 32 (C db (block_parent_key b)) = v_parents v b)
     \<and> (\<forall>k. starts_with k HEIGHT_BLOCK_PREFIX \<longrightarrow> C db k \<noteq> None \<longrightarrow> (\<exists>h. k = height_block_key h))"

definition block_rel ::
  "('db, 'z) env_scheme \<Rightarrow> ('db \<Rightarrow> bytes \<rightharpoonup> bytes) \<Rightarrow> bptree_node set \<Rightarrow> 'db \<Rightarrow> block_context \<Rightarrow> version_block \<Rightarrow> bool" where
  "block_rel E C T db ctx c \<longleftrightarrow> bc_height ctx = vb_height c \<and> bc_block_hash ctx = vb_hash c
     \<and> bc_parent_hash ctx = vb_parent c \<and> tree_at E C T db (working_root ctx) (vb_tree c)
     \<and> length (vb_hash c) = 32 \<and> length (vb_parent c) = 32"

definition state_rel ::
  "('db, 'z) env_scheme \<Rightarrow> ('db \<Rightarrow> bytes \<rightharpoonup> bytes) \<Rightarrow> bptree_node set \<Rightarrow> 'db \<Rightarrow> tree_state \<Rightarrow> versions \<Rightarrow> bool" where
  "state_rel E C T db st v \<longleftrightarrow> tree_at E C T db (st_active_root st) (v_active v)
     \<and> active_block st = v_active_block v \<and> (\<forall>b. v_active_block v = Some b \<longrightarrow> length b = 32)
     \<and> rel_option (\<lambda>r p. tree_at E C T db r (fst p)) (pinned_root st) (v_pin v)
     \<and> pin_until_height st = map_option snd (v_pin v)
     \<and> rel_option (block_rel E C T db) (current_block st) (v_current v)"

text \<open>The metadata on disk is the state in memory, but for the block being built.\<close>

definition durable :: "('db, 'z) env_scheme \<Rightarrow> (bytes \<rightharpoonup> bytes) \<Rightarrow> tree_state \<Rightarrow> bool" where
  "durable E m st \<longleftrightarrow>
     (case array_of 32 (m META_ACTIVE_ROOT) of Some r \<Rightarrow> r | None \<Rightarrow> empty_root_id E) = st_active_root st
     \<and> array_of 32 (m META_ACTIVE_BLOCK) = active_block st
     \<and> array_of 32 (m META_PINNED_ROOT) = pinned_root st
     \<and> map_option u32_from_be_bytes (array_of 4 (m META_PIN_UNTIL_HEIGHT)) = pin_until_height st"

definition sim ::
  "('db, 'z) env_scheme \<Rightarrow> ('db \<Rightarrow> bytes \<rightharpoonup> bytes) \<Rightarrow> bptree_node set \<Rightarrow> 'db tree_db \<Rightarrow> versions \<Rightarrow> bool" where
  "sim E C T d v \<longleftrightarrow> collision_free E C (tdb d, None) T \<and> tree_at E C T (tdb d) (empty_root_id E) empty_tree
     \<and> index_rel E C T (tdb d) v \<and> state_rel E C T (tdb d) (tstate d) v \<and> durable E (C (tdb d)) (tstate d)"

section \<open>Frame lemmas\<close>

definition keeps_nodes :: "('db, 'z) env_scheme \<Rightarrow> ('db \<Rightarrow> bytes \<rightharpoonup> bytes) \<Rightarrow> 'db \<Rightarrow> 'db \<Rightarrow> bool" where
  "keeps_nodes E C db db' \<longleftrightarrow> (\<forall>i n. db_node E C db i = Some n \<longrightarrow> db_node E C db' i = Some n)"

definition hash_len :: "('db, 'z) env_scheme \<Rightarrow> bool" where
  "hash_len E \<longleftrightarrow> (\<forall>bs. length (sha256 E bs) = 32)"

lemma db_extendsD:
  assumes "db_extends E C db db'"
  shows "keeps_nodes E C db db'" "\<And>k. (\<forall>i. k \<noteq> node_key i) \<Longrightarrow> C db' k = C db k"
  using assms by (simp_all add: db_extends_def keeps_nodes_def)

text \<open>A write of metadata only.\<close>

lemma meta_write:
  assumes "\<And>i. C db' (node_key i) = C db (node_key i)"
  shows "keeps_nodes E C db db'" "collision_free E C (db', None) T = collision_free E C (db, None) T"
proof -
  have "db_node E C db' = db_node E C db" by (simp add: db_node_def assms fun_eq_iff)
  then show "keeps_nodes E C db db'" "collision_free E C (db', None) T = collision_free E C (db, None) T"
    by (simp_all add: keeps_nodes_def collision_free_def assms)
qed

lemma tree_at_mono: "keeps_nodes E C db db' \<Longrightarrow> tree_at E C T db r t \<Longrightarrow> tree_at E C T db' r t"
  by (auto simp: tree_at_def denotes_def stored_def keeps_nodes_def)

lemma rel_tree_at_mono:
  "keeps_nodes E C db db' \<Longrightarrow> rel_option (tree_at E C T db) x y \<Longrightarrow> rel_option (tree_at E C T db') x y"
  by (erule option.rel_mono_strong) (rule tree_at_mono)

lemma state_rel_mono: "keeps_nodes E C db db' \<Longrightarrow> state_rel E C T db st v \<Longrightarrow> state_rel E C T db' st v"
  by (auto simp: state_rel_def block_rel_def elim!: option.rel_mono_strong intro: tree_at_mono)

lemma index_rel_frame:
  assumes "keeps_nodes E C db db'" "index_rel E C T db v"
    and "\<And>b. C db' (block_root_key b) = C db (block_root_key b)"
    and "\<And>h. C db' (height_block_key h) = C db (height_block_key h)"
    and "\<And>b. C db' (block_height_key b) = C db (block_height_key b)"
    and "\<And>b. C db' (block_parent_key b) = C db (block_parent_key b)"
    and "\<And>k. starts_with k HEIGHT_BLOCK_PREFIX \<Longrightarrow> C db' k = C db k"
  shows "index_rel E C T db' v"
  using assms(2) rel_tree_at_mono [OF assms(1)] unfolding index_rel_def by (simp add: assms(3-7))

lemma node_key_not_height [simp]: "\<not> starts_with (node_key i) HEIGHT_BLOCK_PREFIX"
  by (simp add: starts_with_def key_defs prefix_defs)

lemma meta_not_height [simp]:
  "\<not> starts_with META_ACTIVE_ROOT HEIGHT_BLOCK_PREFIX" "\<not> starts_with META_ACTIVE_BLOCK HEIGHT_BLOCK_PREFIX"
  "\<not> starts_with META_PINNED_ROOT HEIGHT_BLOCK_PREFIX" "\<not> starts_with META_PIN_UNTIL_HEIGHT HEIGHT_BLOCK_PREFIX"
  "\<not> starts_with (block_root_key b) HEIGHT_BLOCK_PREFIX" "\<not> starts_with (block_height_key b) HEIGHT_BLOCK_PREFIX"
  "\<not> starts_with (block_parent_key b) HEIGHT_BLOCK_PREFIX"
  by (simp_all add: starts_with_def key_defs prefix_defs)

lemma index_rel_extends:
  assumes "db_extends E C db db'" "index_rel E C T db v"
  shows "index_rel E C T db' v"
  by (rule index_rel_frame [OF db_extendsD(1) [OF assms(1)] assms(2)])
    (auto intro!: db_extendsD(2) [OF assms(1)])

lemma durable_frame:
  assumes "durable E m st" "\<And>k. k \<in> {META_ACTIVE_ROOT, META_ACTIVE_BLOCK, META_PINNED_ROOT, META_PIN_UNTIL_HEIGHT}
    \<Longrightarrow> m' k = m k"
  shows "durable E m' st"
  using assms by (simp add: durable_def)

lemma durable_extends:
  assumes "db_extends E C db db'" "durable E (C db) st"
  shows "durable E (C db') st"
  by (rule durable_frame [OF assms(2)]) (auto intro!: db_extendsD(2) [OF assms(1)])

lemma index_rel_upd [simp]:
  "index_rel E C T db (v\<lparr>v_current := c\<rparr>) = index_rel E C T db v"
  "index_rel E C T db (v\<lparr>v_active := t\<rparr>) = index_rel E C T db v"
  "index_rel E C T db (v\<lparr>v_active_block := b\<rparr>) = index_rel E C T db v"
  "index_rel E C T db (v\<lparr>v_pin := p\<rparr>) = index_rel E C T db v"
  by (simp_all add: index_rel_def)

lemma index_rel_set_target [simp]: "index_rel E C T db (v_set_target t v) = index_rel E C T db v"
  by (simp add: v_set_target_def split: option.split)

lemma durable_upd [simp]: "durable E m (st\<lparr>current_block := c\<rparr>) = durable E m st"
  by (simp add: durable_def)

lemma simD:
  assumes "sim E C T d v"
  shows "collision_free E C (tdb d, None) T" "tree_at E C T (tdb d) (empty_root_id E) empty_tree"
    "index_rel E C T (tdb d) v" "state_rel E C T (tdb d) (tstate d) v" "durable E (C (tdb d)) (tstate d)"
  using assms by (simp_all add: sim_def)

lemma tree_at_root_id:
  "hash_len E \<Longrightarrow> stored E C db t \<Longrightarrow> t_inv t \<Longrightarrow> tree_nodes (hash_node E) t \<subseteq> T \<Longrightarrow>
   tree_at E C T db (root_id (hash_node E) t) t"
  by (simp add: tree_at_def denotes_def root_id_def hash_node_def hash_len_def)

lemma tree_at_inj:
  assumes "collision_free E C s T" "tree_at E C T db r t" "tree_at E C T db r u"
  shows "t = u"
  using assms root_id_eqD [of "hash_node E" T t u] by (simp add: collision_free_def tree_at_def denotes_def)

lemma array_of_length [simp]: "length bs = n \<Longrightarrow> array_of n (Some bs) = Some bs"
  by (simp add: array_of_def)

lemma array_of_None [simp]: "array_of n None = None"
  by (simp add: array_of_def)

section \<open>Writes\<close>

text \<open>
  Installing a new tree: as the working root of the block being built, or as the active root,
  which is then written to the database.
\<close>

lemma install_working:
  assumes sim: "sim E C T d v" and db: "db_extends E C (tdb d) db'" "collision_free E C (db', None) T"
    and t: "tree_at E C T db' root t" and cur: "current_block (tstate d) = Some ctx"
  shows "sim E C T (d\<lparr>tdb := db', tstate := set_working_root root (tstate d)\<rparr>) (v_set_target t v)"
proof -
  note kn = db_extendsD(1) [OF db(1)]
  have st: "state_rel E C T db' (tstate d) v" by (rule state_rel_mono [OF kn simD(4) [OF sim]])
  with cur obtain c where c: "v_current v = Some c" "block_rel E C T db' ctx c"
    by (auto simp: state_rel_def option_rel_Some1)
  have "state_rel E C T db' (set_working_root root (tstate d)) (v_set_target t v)"
    using st cur c t by (simp add: state_rel_def set_working_root_def v_set_target_def block_rel_def)
  moreover have "durable E (C db') (set_working_root root (tstate d))"
    using durable_extends [OF db(1) simD(5) [OF sim]] by (simp add: set_working_root_def)
  ultimately show ?thesis
    using db(2) tree_at_mono [OF kn simD(2) [OF sim]] index_rel_extends [OF db(1) simD(3) [OF sim]]
    by (simp add: sim_def)
qed

lemma durable_active_ops:
  assumes "durable E m st" "length (st_active_root st') = 32" "\<forall>b. active_block st' = Some b \<longrightarrow> length b = 32"
    and "pinned_root st' = pinned_root st" "pin_until_height st' = pin_until_height st"
    and "active_block st' = None \<longrightarrow> active_block st = None"
  shows "durable E (fold batch_effect (active_ops st') m) st'"
  using assms by (auto simp: durable_def active_ops_def split: option.split)

lemma install_active:
  assumes E: "env_ok E C" and sim: "sim E C T d v" and db: "db_extends E C (tdb d) db'" "collision_free E C (db', None) T"
    and t: "tree_at E C T db' root t" and cur: "current_block (tstate d) = None"
  defines "st' \<equiv> (tstate d)\<lparr>st_active_root := root\<rparr>"
  shows "fst (db_write E db' (active_ops st')) = Inr ()"
    and "sim E C T (d\<lparr>tstate := st', tdb := snd (db_write E db' (active_ops st'))\<rparr>) (v_set_target t v)"
proof -
  show "fst (db_write E db' (active_ops st')) = Inr ()" by (rule env_ok_write(1) [OF E])
  let ?db = "snd (db_write E db' (active_ops st'))"
  have C: "C ?db = fold batch_effect (active_ops st') (C db')" by (rule env_ok_write(2) [OF E])
  have same: "C ?db k = C db' k" if "k \<noteq> META_ACTIVE_ROOT" "k \<noteq> META_ACTIVE_BLOCK" for k
    using that unfolding C by (simp add: active_ops_def split: option.split)
  have mw: "keeps_nodes E C db' ?db" "collision_free E C (?db, None) T = collision_free E C (db', None) T"
    using meta_write [of C ?db db'] same by simp_all
  note kn = db_extendsD(1) [OF db(1)]
  have st: "state_rel E C T db' (tstate d) v" by (rule state_rel_mono [OF kn simD(4) [OF sim]])
  have none: "v_current v = None" using st cur by (cases "v_current v") (auto simp: state_rel_def)
  have "state_rel E C T ?db st' (v_set_target t v)"
    using st cur t none by (intro state_rel_mono [OF mw(1)]) (simp add: state_rel_def st'_def v_set_target_def)
  moreover have "index_rel E C T ?db v"
    by (rule index_rel_frame [OF mw(1) index_rel_extends [OF db(1) simD(3) [OF sim]]]) (auto intro!: same)
  moreover have "durable E (C ?db) st'"
    unfolding C using durable_extends [OF db(1) simD(5) [OF sim]] st t
    by (intro durable_active_ops [of E "C db'" "tstate d"]) (simp_all add: st'_def tree_at_def state_rel_def)
  ultimately show "sim E C T (d\<lparr>tstate := st', tdb := ?db\<rparr>) (v_set_target t v)"
    using db(2) mw(2) tree_at_mono [OF mw(1) tree_at_mono [OF kn simD(2) [OF sim]]] by (simp add: sim_def)
qed

text \<open>The target of a write is stored under the root the code starts from.\<close>

lemma sim_target:
  assumes "sim E C T d v"
  shows "tree_at E C T (tdb d) (case current_block (tstate d) of Some ctx \<Rightarrow> working_root ctx
    | None \<Rightarrow> st_active_root (tstate d)) (v_target v)"
  using assms by (cases "current_block (tstate d)"; cases "v_current v")
    (auto simp: sim_def state_rel_def block_rel_def v_target_def)

text \<open>A computation of a new root from that root, followed by its installation.\<close>

definition installs :: "('db, 'z) env_scheme \<Rightarrow> (bytes \<Rightarrow> ('db, rocks_error, bytes) comp) \<Rightarrow> ('db tree_db, rocks_error, unit) comp" where
  "installs E m d = (case current_block (tstate d) of
       Some ctx \<Rightarrow> bindc (on_db (m (working_root ctx))) (\<lambda>root. on_state (set_working_root root)) d
     | None \<Rightarrow> bindc (on_db (m (st_active_root (tstate d)))) (\<lambda>root.
         bindc (on_state (\<lambda>st. st\<lparr>st_active_root := root\<rparr>)) (\<lambda>_ d.
           on_db (\<lambda>db. Some (db_write E db (active_ops (tstate d)))) d)) d)"

lemma installs_sim:
  assumes E: "env_ok E C" and sim: "sim E C T d v"
    and m: "\<And>root. tree_at E C T (tdb d) root (v_target v) \<Longrightarrow> \<exists>root' db'. m root (tdb d) = Some (Inr root', db')
      \<and> db_extends E C (tdb d) db' \<and> collision_free E C (db', None) T \<and> tree_at E C T db' root' t"
  shows "\<exists>d'. installs E m d = Some (Inr (), d') \<and> sim E C T d' (v_set_target t v)"
proof (cases "current_block (tstate d)")
  case None
  from sim_target [OF sim] None obtain root' db' where m': "m (st_active_root (tstate d)) (tdb d) = Some (Inr root', db')"
    and db': "db_extends E C (tdb d) db'" "collision_free E C (db', None) T" "tree_at E C T db' root' t"
    using m [of "st_active_root (tstate d)"] by auto
  from install_active [OF E sim db' None] show ?thesis
    by (simp add: installs_def None bindc_def on_db_def on_state_def m')
next
  case (Some ctx)
  from sim_target [OF sim] Some obtain root' db' where m': "m (working_root ctx) (tdb d) = Some (Inr root', db')"
    and db': "db_extends E C (tdb d) db'" "collision_free E C (db', None) T" "tree_at E C T db' root' t"
    using m [of "working_root ctx"] by auto
  from install_working [OF sim db' Some] show ?thesis
    by (simp add: installs_def Some bindc_def on_db_def on_state_def m')
qed

lemma sim_write:
  assumes E: "env_ok E C" and h: "hash_len E" and sim: "sim E C T d v"
    and T: "batch_nodes (hash_node E) [(k, x)] (v_target v) \<subseteq> T"
  shows "\<exists>d'. apply_mutation E k x d = Some (Inr (), d')
    \<and> sim E C T d' (v_set_target (t_apply (hash_node E) k x (v_target v)) v)"
proof -
  let ?H = "hash_node E" and ?u = "t_apply (hash_node E) k x (v_target v)"
  let ?m = "\<lambda>root db. map_option (\<lambda>rs. (fst rs, fst (snd rs))) (apply_single E root k x (db, None))"
  have "\<exists>root' db'. ?m root (tdb d) = Some (Inr root', db') \<and> db_extends E C (tdb d) db'
      \<and> collision_free E C (db', None) T \<and> tree_at E C T db' root' ?u"
    if "tree_at E C T (tdb d) root (v_target v)" for root
  proof -
    from that have t: "root = root_id ?H (v_target v)" "stored E C (tdb d) (v_target v)" "t_inv (v_target v)"
      by (auto simp: tree_at_def denotes_def)
    then have "backed E C (tdb d, None) (v_target v)" by (simp add: backed_direct)
    moreover have "ordered [] None (v_target v)" using t(3) by (simp add: t_inv_def)
    ultimately obtain s' where s': "apply_single E root k x (tdb d, None) = Some (Inr (root_id ?H ?u), s')"
      "extends E C (tdb d, None) s'" "collision_free E C s' T" "backed E C s' ?u"
      using apply_single_produces [OF E simD(1) [OF sim], of "v_target v" "[]" None k x] T
      by (auto simp: produces_def t(1))
    moreover obtain db' where db': "s' = (db', None)" using s'(2) by (cases s') (auto simp: extends_def)
    ultimately have "stored E C db' ?u" using backed_direct [of s' E C ?u] by simp
    then have "tree_at E C T db' (root_id ?H ?u) ?u"
      using tree_at_root_id [OF h] t_inv_t_apply [OF t(3)] T by auto
    with s' db' show ?thesis by (auto simp: extends_def)
  qed
  from installs_sim [OF E sim, of ?m, OF this] show ?thesis
    by (simp add: apply_mutation_def installs_def Let_def)
qed

lemma sim_batch:
  assumes E: "env_ok E C" and h: "hash_len E" and sim: "sim E C T d v" and cs: "cs \<noteq> []"
    and T: "batch_nodes (hash_node E) (canonicalize cs) (v_target v) \<subseteq> T"
  shows "\<exists>d'. apply_batch_owned E cs d = Some (Inr (), d')
    \<and> sim E C T d' (v_set_target (bt.apply_all (hash_node E) (canonicalize cs) (v_target v)) v)"
proof -
  let ?H = "hash_node E" and ?u = "bt.apply_all (hash_node E) (canonicalize cs) (v_target v)"
  have "\<exists>root' db'. run_batch E root (canonicalize cs) (tdb d) = Some (Inr root', db') \<and> db_extends E C (tdb d) db'
      \<and> collision_free E C (db', None) T \<and> tree_at E C T db' root' ?u"
    if "tree_at E C T (tdb d) root (v_target v)" for root
  proof -
    from that have t: "root = root_id ?H (v_target v)" "stored E C (tdb d) (v_target v)" "t_inv (v_target v)"
      by (auto simp: tree_at_def denotes_def)
    from run_batch_applies [OF E simD(1) [OF sim] t(2,3) T] show ?thesis
      using tree_at_root_id [OF h] bt.inv_apply_all [OF t(3)] batch_nodes_last [of ?H "canonicalize cs" "v_target v"] T
      unfolding t(1) by blast
  qed
  from installs_sim [OF E sim, of "\<lambda>root. run_batch E root (canonicalize cs)", OF this] cs show ?thesis
    by (simp add: apply_batch_owned_def installs_def Let_def)
qed

section \<open>Blocks\<close>

lemma tree_db_update [simp]: "d\<lparr>tstate := st, tdb := db\<rparr> = \<lparr>tdb = db, tstate = st\<rparr>"
  by simp

lemma root_for_blockhash_sim:
  assumes E: "env_ok E C" and sim: "sim E C T d v"
  shows "\<exists>x. root_for_blockhash E d b = Inr x \<and> rel_option (tree_at E C T (tdb d)) x (v_tree_of v b)"
proof -
  have "rel_option (tree_at E C T (tdb d)) (array_of 32 (C (tdb d) (block_root_key b))) (v_roots v b)"
    using simD(3) [OF sim] by (simp add: index_rel_def)
  with simD(4) [OF sim] show ?thesis
    by (cases "current_block (tstate d)"; cases "v_current v")
      (auto simp: root_for_blockhash_def v_tree_of_def get_array_def env_ok_get [OF E] state_rel_def block_rel_def)
qed

lemma has_committed_blocks_sim:
  assumes E: "env_ok E C" and sim: "sim E C T d v"
  shows "has_committed_blocks E (tdb d) = Inr (v_heights v \<noteq> Map.empty)"
proof -
  have "(\<exists>k. starts_with k HEIGHT_BLOCK_PREFIX \<and> C (tdb d) k \<noteq> None) \<longleftrightarrow> (\<exists>h. v_heights v h \<noteq> None)"
    using simD(3) [OF sim] unfolding index_rel_def by (metis starts_with_height_block_key)
  then show ?thesis by (auto simp: has_committed_blocks_iff [OF E] fun_eq_iff)
qed

lemma sim_enter:
  assumes "sim E C T d v" "tree_at E C T (tdb d) root t" "length b = 32" "length p = 32"
  shows "sim E C T (d\<lparr>tstate := (tstate d)\<lparr>current_block := Some \<lparr>bc_height = h, bc_block_hash = b,
    bc_parent_hash = p, working_root = root\<rparr>\<rparr>\<rparr>) (v_enter h b p t v)"
  using assms by (simp add: sim_def v_enter_def state_rel_def block_rel_def)

lemma sim_begin:
  assumes E: "env_ok E C" and sim: "sim E C T d v" and len: "length b = 32" "length p = 32"
  shows "\<exists>d'. begin_block E h b p d = Some (fst (v_begin h b p v), d') \<and> sim E C T d' (snd (v_begin h b p v))"
proof -
  obtain x where x: "root_for_blockhash E d p = Inr x" "rel_option (tree_at E C T (tdb d)) x (v_tree_of v p)"
    using root_for_blockhash_sim [OF E sim] by blast
  have root: "st_active_root (tstate d) = empty_root_id E \<longleftrightarrow> v_active v = empty_tree"
    using simD(1,2,4) [OF sim] tree_at_inj [of E C "(tdb d, None)" T "tdb d" "empty_root_id E" "v_active v" empty_tree]
    by (auto simp: state_rel_def tree_at_def denotes_def)
  have block: "active_block (tstate d) = v_active_block v" using simD(4) [OF sim] by (simp add: state_rel_def)
  note enter = sim_enter [OF sim _ len] and empty = simD(2) [OF sim]
  show ?thesis
  proof (cases "v_tree_of v p")
    case (Some t)
    with x obtain r where "x = Some r" "tree_at E C T (tdb d) r t" by (auto simp: option_rel_Some2)
    with x(1) Some enter show ?thesis by (simp add: begin_block_def v_begin_def Let_def)
  next
    case None
    with x have "x = None" by simp
    with x(1) None enter [OF empty] sim show ?thesis
      by (auto simp: begin_block_def v_begin_def Let_def block root has_committed_blocks_sim [OF E sim])
  qed
qed

lemma sim_abort: "sim E C T d v \<Longrightarrow> sim E C T (abort_block d) (v\<lparr>v_current := None\<rparr>)"
  by (simp add: sim_def abort_block_def state_rel_def)

lemma sim_pin:
  assumes E: "env_ok E C" and sim: "sim E C T d v"
  shows "\<exists>d'. pin_active_root_until_height E h d = Some (Inr (), d') \<and> sim E C T d' (v\<lparr>v_pin := Some (v_active v, h)\<rparr>)"
proof -
  let ?r = "st_active_root (tstate d)"
  let ?ops = "[BPut META_PINNED_ROOT ?r, BPut META_PIN_UNTIL_HEIGHT (u32_to_be_bytes h)]"
  let ?db = "snd (db_write E (tdb d) ?ops)"
  let ?st = "(tstate d)\<lparr>pinned_root := Some ?r, pin_until_height := Some h\<rparr>"
  have C: "C ?db = (C (tdb d))(META_PINNED_ROOT \<mapsto> ?r, META_PIN_UNTIL_HEIGHT \<mapsto> u32_to_be_bytes h)"
    by (simp add: env_ok_write(2) [OF E])
  have mw: "keeps_nodes E C (tdb d) ?db" "collision_free E C (?db, None) T = collision_free E C (tdb d, None) T"
    using meta_write [of C ?db "tdb d"] by (simp_all add: C)
  have "state_rel E C T ?db ?st (v\<lparr>v_pin := Some (v_active v, h)\<rparr>)"
    using simD(4) [OF sim] by (intro state_rel_mono [OF mw(1)]) (simp add: state_rel_def)
  moreover have "durable E (C ?db) ?st"
    using simD(4,5) [OF sim] by (simp add: C durable_def state_rel_def tree_at_def)
  moreover have "index_rel E C T ?db v"
    by (rule index_rel_frame [OF mw(1) simD(3) [OF sim]]) (auto simp: C)
  ultimately have "sim E C T \<lparr>tdb = ?db, tstate = ?st\<rparr> (v\<lparr>v_pin := Some (v_active v, h)\<rparr>)"
    using mw tree_at_mono [OF mw(1) simD(2) [OF sim]] simD(1) [OF sim] by (simp add: sim_def)
  then show ?thesis
    using env_ok_write(1) [OF E] by (simp add: pin_active_root_until_height_def on_db_def Let_def)
qed

text \<open>The state and the database after the writes of \<open>finish_block\<close>.\<close>

definition finish_keep :: "tree_state \<Rightarrow> block_context \<Rightarrow> bool" where
  "finish_keep st ctx \<longleftrightarrow> (case pin_until_height st of Some until \<Rightarrow> bc_height ctx \<le> until | None \<Rightarrow> False)"

lemma finish_plan_state:
  "fst (finish_plan st ctx) = (if finish_keep st ctx then st\<lparr>current_block := None\<rparr>
     else st\<lparr>current_block := None, st_active_root := working_root ctx, active_block := Some (bc_block_hash ctx),
       pinned_root := (if pin_until_height st = None then pinned_root st else None), pin_until_height := None\<rparr>)"
  by (simp add: finish_plan_def finish_keep_def Let_def split: option.split)

lemma finish_plan_effect:
  defines "m' \<equiv> \<lambda>st ctx. fold batch_effect (snd (finish_plan st ctx))"
  shows "m' st ctx m (node_key i) = m (node_key i)"
    and "m' st ctx m (block_root_key b) = (if b = bc_block_hash ctx then Some (working_root ctx) else m (block_root_key b))"
    and "m' st ctx m (height_block_key h) = (if h = bc_height ctx then Some (bc_block_hash ctx) else m (height_block_key h))"
    and "m' st ctx m (block_height_key b)
      = (if b = bc_block_hash ctx then Some (u32_to_be_bytes (bc_height ctx)) else m (block_height_key b))"
    and "m' st ctx m (block_parent_key b) = (if b = bc_block_hash ctx then Some (bc_parent_hash ctx) else m (block_parent_key b))"
    and "starts_with k HEIGHT_BLOCK_PREFIX \<Longrightarrow>
      m' st ctx m k = (if k = height_block_key (bc_height ctx) then Some (bc_block_hash ctx) else m k)"
  unfolding m'_def finish_plan_def Let_def active_ops_def
  by (auto split: option.split if_splits)

lemma finish_plan_durable:
  assumes "durable E m st" "length (working_root ctx) = 32" "length (bc_block_hash ctx) = 32"
    "length (st_active_root st) = 32" "\<forall>b. active_block st = Some b \<longrightarrow> length b = 32"
    "pin_until_height st = None \<Longrightarrow> pinned_root st = None"
  shows "durable E (fold batch_effect (snd (finish_plan st ctx)) m) (fst (finish_plan st ctx))"
  using assms unfolding finish_plan_def Let_def active_ops_def durable_def
  by (auto split: option.splits if_splits)

lemma sim_finish:
  assumes E: "env_ok E C" and sim: "sim E C T d v"
  shows "\<exists>d'. finish_block E d = Some (Inr (), d') \<and> sim E C T d' (v_finish v)"
proof (cases "current_block (tstate d)")
  case None
  then have "v_current v = None" using simD(4) [OF sim] by (cases "v_current v") (auto simp: state_rel_def)
  with None sim show ?thesis by (simp add: finish_block_def v_finish_def)
next
  case (Some ctx)
  let ?st = "tstate d" and ?plan = "finish_plan (tstate d) ctx"
  obtain c where c: "v_current v = Some c" "block_rel E C T (tdb d) ctx c"
    using simD(4) [OF sim] Some by (auto simp: state_rel_def option_rel_Some1)
  let ?db = "snd (db_write E (tdb d) (snd ?plan))"
  have C: "C ?db = fold batch_effect (snd ?plan) (C (tdb d))" by (rule env_ok_write(2) [OF E])
  have mw: "keeps_nodes E C (tdb d) ?db" "collision_free E C (?db, None) T = collision_free E C (tdb d, None) T"
    using meta_write [of C ?db "tdb d"] by (simp_all add: C finish_plan_effect(1))
  have st: "state_rel E C T ?db ?st v" by (rule state_rel_mono [OF mw(1) simD(4) [OF sim]])
  have ctx: "bc_height ctx = vb_height c" "bc_block_hash ctx = vb_hash c" "bc_parent_hash ctx = vb_parent c"
    "tree_at E C T ?db (working_root ctx) (vb_tree c)" "length (vb_hash c) = 32" "length (vb_parent c) = 32"
    using c(2) tree_at_mono [OF mw(1)] by (auto simp: block_rel_def)
  have keep: "finish_keep ?st ctx \<longleftrightarrow> (case v_pin v of Some p \<Rightarrow> vb_height c \<le> snd p | None \<Rightarrow> False)"
    using st ctx by (auto simp: finish_keep_def state_rel_def split: option.split)
  have pin: "pin_until_height ?st = None \<Longrightarrow> pinned_root ?st = None"
    using st by (auto simp: state_rel_def)
  have "state_rel E C T ?db (fst ?plan) (v_finish v)"
    using st ctx pin keep by (auto simp: finish_plan_state v_finish_def c state_rel_def Let_def)
  moreover have "index_rel E C T ?db (v_finish v)"
  proof -
    have ix: "index_rel E C T (tdb d) v" by (rule simD(3) [OF sim])
    have "rel_option (tree_at E C T ?db) (array_of 32 (C ?db (block_root_key b))) (v_roots (v_finish v) b)" for b
      using ix rel_tree_at_mono [OF mw(1)] ctx
      by (auto simp: index_rel_def C finish_plan_effect v_finish_def c Let_def tree_at_def)
    moreover have "starts_with k HEIGHT_BLOCK_PREFIX \<Longrightarrow> C ?db k \<noteq> None \<Longrightarrow> \<exists>h. k = height_block_key h" for k
      using ix finish_plan_effect(6) [of k ?st ctx "C (tdb d)"] unfolding index_rel_def C by (metis (full_types))
    ultimately show ?thesis
      using ix ctx by (simp add: index_rel_def C finish_plan_effect v_finish_def c Let_def)
  qed
  moreover have "durable E (C ?db) (fst ?plan)"
    unfolding C using simD(5) [OF sim] st ctx pin
    by (intro finish_plan_durable) (auto simp: state_rel_def tree_at_def)
  ultimately have "sim E C T \<lparr>tdb = ?db, tstate = fst ?plan\<rparr> (v_finish v)"
    using mw simD(1) [OF sim] tree_at_mono [OF mw(1) simD(2) [OF sim]] by (simp add: sim_def)
  then show ?thesis
    using env_ok_write(1) [OF E] by (simp add: finish_block_def Some Let_def on_db_def)
qed

section \<open>Rewinding and reopening\<close>

lemma rewind_target_sim:
  assumes E: "env_ok E C" and sim: "sim E C T d v"
  shows "case v_rewind_target target v of
      Inl e \<Rightarrow> rewind_target E d target = Inl e
    | Inr tb \<Rightarrow> \<exists>r. rewind_target E d target = Inr (r, snd tb) \<and> tree_at E C T (tdb d) r (fst tb)
        \<and> (\<forall>b. snd tb = Some b \<longrightarrow> length b = 32)"
proof (cases target)
  case None
  then show ?thesis using simD(2) [OF sim] by (simp add: v_rewind_target_def rewind_target_def)
next
  case (Some h)
  have ix: "C (tdb d) (height_block_key h) = v_heights v h" "\<forall>b. v_heights v h = Some b \<longrightarrow> length b = 32"
    using simD(3) [OF sim] by (simp_all add: index_rel_def)
  show ?thesis
  proof (cases "v_heights v h")
    case None
    with Some ix show ?thesis
      by (simp add: v_rewind_target_def rewind_target_def blockhash_for_height_def get_array_def env_ok_get [OF E])
  next
    case (Some b)
    obtain x where x: "root_for_blockhash E d b = Inr x" "rel_option (tree_at E C T (tdb d)) x (v_tree_of v b)"
      using root_for_blockhash_sim [OF E sim] by blast
    have "blockhash_for_height E (tdb d) h = Inr (Some b)"
      using ix Some by (simp add: blockhash_for_height_def get_array_def env_ok_get [OF E])
    with \<open>target = Some h\<close> Some x ix show ?thesis
      by (cases "v_tree_of v b"; cases x) (auto simp: v_rewind_target_def rewind_target_def)
  qed
qed

lemma rewind_ops_effect:
  "fold batch_effect (rewind_ops root block hs bs) m k = (if k \<in> set hs \<union> set bs then None
     else if k = META_ACTIVE_ROOT then Some root else if k = META_ACTIVE_BLOCK then block
     else if k = META_PINNED_ROOT \<or> k = META_PIN_UNTIL_HEIGHT then None else m k)"
  by (auto simp: rewind_ops_def fold_delete split: option.split)

lemma sim_rewind:
  assumes E: "env_ok E C" and sim: "sim E C T d v"
  shows "\<exists>d'. rewind_to_height E target d = Some (fst (v_rewind target v), d') \<and> sim E C T d' (snd (v_rewind target v))"
proof (cases "v_rewind_target target v")
  case (Inl e)
  with rewind_target_sim [OF E sim, of target] sim show ?thesis
    by (simp add: rewind_to_height_def v_rewind_def)
next
  case (Inr tb)
  obtain t b where tb: "tb = (t, b)" by (cases tb)
  from rewind_target_sim [OF E sim, of target] Inr obtain r where r: "rewind_target E d target = Inr (r, b)"
    "tree_at E C T (tdb d) r t" "\<forall>x. b = Some x \<longrightarrow> length x = 32" by (auto simp: tb)
  obtain hs bs where st: "stale_keys target (db_iterator E (tdb d) (IterFrom HEIGHT_BLOCK_PREFIX Forward)) = Inr (hs, bs)"
    by (simp add: env_ok_iterator [OF E] stale_keys_eq Let_def del: iter_entries.simps)
  note sets = stale_keys_set [OF E st]
  let ?db = "snd (db_write E (tdb d) (rewind_ops r b hs bs))" and ?v = "snd (v_rewind target v)"
  let ?st = "\<lparr>st_active_root = r, active_block = b, pinned_root = None, pin_until_height = None, current_block = None\<rparr>"
  have C: "C ?db k = (if k \<in> set hs \<union> set bs then None else if k = META_ACTIVE_ROOT then Some r
      else if k = META_ACTIVE_BLOCK then b else if k = META_PINNED_ROOT \<or> k = META_PIN_UNTIL_HEIGHT then None
      else C (tdb d) k)" for k
    unfolding env_ok_write(2) [OF E] by (rule rewind_ops_effect)
  have ix: "index_rel E C T (tdb d) v" by (rule simD(3) [OF sim])
  have mw: "keeps_nodes E C (tdb d) ?db" "collision_free E C (?db, None) T = collision_free E C (tdb d, None) T"
    using meta_write [of C ?db "tdb d"] by (auto simp: C sets)
  have v: "?v = v\<lparr>v_active := t, v_active_block := b, v_pin := None, v_current := None,
      v_heights := (\<lambda>h. if stale target h then None else v_heights v h),
      v_block_heights := (\<lambda>b. if \<exists>h. stale target h \<and> v_heights v h = Some b then None else v_block_heights v b)\<rparr>"
    by (simp add: v_rewind_def Inr tb)
  have "state_rel E C T ?db ?st ?v"
    using r by (simp add: v state_rel_def tree_at_mono [OF mw(1)])
  moreover have "durable E (C ?db) ?st"
    using r by (auto simp: durable_def C sets tree_at_def array_of_def split: option.split)
  moreover have "index_rel E C T ?db ?v"
    using ix rel_tree_at_mono [OF mw(1)] by (auto simp: index_rel_def C v sets)
  ultimately have "sim E C T \<lparr>tdb = ?db, tstate = ?st\<rparr> ?v"
    using mw simD(1) [OF sim] tree_at_mono [OF mw(1) simD(2) [OF sim]] by (simp add: sim_def)
  then show ?thesis
    using env_ok_write(1) [OF E] by (simp add: rewind_to_height_def r(1) st v_rewind_def Inr tb Let_def)
qed

lemma tree_new_sim:
  assumes E: "env_ok E C" and sim: "sim E C T d v"
  shows "tree_new E (tdb d) = Some (Inr ((tstate d)\<lparr>current_block := None\<rparr>), tdb d)"
proof -
  have "db_node E C (tdb d) (hash_node E (Leaf default_leaf)) = Some (Leaf default_leaf)"
    using simD(2) [OF sim] by (simp add: tree_at_def denotes_def stored_def empty_tree_def default_leaf_def)
  then obtain page where present: "C (tdb d) (node_key (hash_node E (Leaf default_leaf))) = Some page"
    by (auto simp: db_node_def split: option.splits)
  have root: "st_active_root (default_tree_state E) = empty_root_id E" by (simp add: default_tree_state_def)
  show ?thesis
    using simD(5) [OF sim] unfolding tree_new_def root Let_def
    by (cases "tstate d") (simp add: get_c_def env_ok_get [OF E] bindc_def durable_def present)
qed

lemma sim_reopen:
  assumes E: "env_ok E C" and sim: "sim E C T d v"
  shows "\<exists>d'. reopen E d = Some (Inr (), d') \<and> sim E C T d' (v\<lparr>v_current := None\<rparr>)"
proof -
  have "abort_block d = \<lparr>tdb = tdb d, tstate = (tstate d)\<lparr>current_block := None\<rparr>\<rparr>"
    by (cases d) (simp add: abort_block_def)
  then have "reopen E d = Some (Inr (), abort_block d)" by (simp add: reopen_def tree_new_sim [OF E sim])
  then show ?thesis using sim_abort [OF sim] by blast
qed

section \<open>The refinement\<close>

fun op_wf :: "tree_op \<Rightarrow> bool" where
  "op_wf (Begin h b p) \<longleftrightarrow> length b = 32 \<and> length p = 32"
| "op_wf _ \<longleftrightarrow> True"

text \<open>The nodes an operation creates, and those of a sequence of operations.\<close>

fun op_nodes :: "(bptree_node \<Rightarrow> bytes) \<Rightarrow> tree_op \<Rightarrow> versions \<Rightarrow> bptree_node set" where
  "op_nodes H (Write k x) v = batch_nodes H [(k, x)] (v_target v)"
| "op_nodes H (Batch cs) v = batch_nodes H (canonicalize cs) (v_target v)"
| "op_nodes H _ v = {}"

lemma sim_step:
  assumes E: "env_ok E C" "hash_len E" and sim: "sim E C T d v" and op: "op_wf op" "op_nodes (hash_node E) op v \<subseteq> T"
  shows "\<exists>d'. run_op E op d = Some (fst (v_op (hash_node E) op v), d') \<and> sim E C T d' (snd (v_op (hash_node E) op v))"
proof (cases op)
  case (Begin h b p)
  then show ?thesis using sim_begin [OF E(1) sim, of b p h] op by simp
next
  case Finish
  then show ?thesis using sim_finish [OF E(1) sim] by (auto simp: rocks_def)
next
  case (Pin h)
  then show ?thesis using sim_pin [OF E(1) sim, of h] by (auto simp: rocks_def)
next
  case (Write k x)
  then show ?thesis using sim_write [OF E sim, of k x] op(2)
    by (cases x) (auto simp: rocks_def tree_put_def tree_delete_def)
next
  case (Batch cs)
  then show ?thesis using sim_batch [OF E sim, of cs] op(2) sim
    by (cases "cs = []") (auto simp: rocks_def apply_batch_def)
next
  case Reopen
  then show ?thesis using sim_reopen [OF E(1) sim] by (auto simp: rocks_def)
qed (use sim_abort [OF sim] sim_rewind [OF E(1) sim] in auto)

fun v_run :: "(bptree_node \<Rightarrow> bytes) \<Rightarrow> tree_op list \<Rightarrow> versions \<Rightarrow> versions" where
  "v_run H [] v = v"
| "v_run H (op # ops) v = v_run H ops (snd (v_op H op v))"

fun run_ops :: "('db, 'z) env_scheme \<Rightarrow> tree_op list \<Rightarrow> 'db tree_db \<Rightarrow> 'db tree_db option" where
  "run_ops E [] d = Some d"
| "run_ops E (op # ops) d = (case run_op E op d of None \<Rightarrow> None | Some (r, d') \<Rightarrow> run_ops E ops d')"

fun run_nodes :: "(bptree_node \<Rightarrow> bytes) \<Rightarrow> tree_op list \<Rightarrow> versions \<Rightarrow> bptree_node set" where
  "run_nodes H [] v = {}"
| "run_nodes H (op # ops) v = op_nodes H op v \<union> run_nodes H ops (snd (v_op H op v))"

lemma sim_run:
  "env_ok E C \<Longrightarrow> hash_len E \<Longrightarrow> sim E C T d v \<Longrightarrow> \<forall>op\<in>set ops. op_wf op \<Longrightarrow> run_nodes (hash_node E) ops v \<subseteq> T \<Longrightarrow>
   \<exists>d'. run_ops E ops d = Some d' \<and> sim E C T d' (v_run (hash_node E) ops v)"
proof (induction ops arbitrary: d v)
  case (Cons op ops)
  then have "op_wf op" "op_nodes (hash_node E) op v \<subseteq> T" by simp_all
  from sim_step [OF Cons.prems(1-3) this] obtain d' where
    "run_op E op d = Some (fst (v_op (hash_node E) op v), d')" "sim E C T d' (snd (v_op (hash_node E) op v))" by blast
  with Cons show ?case by simp
qed simp

text \<open>Opening an empty database.\<close>

lemma sim_new:
  assumes E: "env_ok E C" "hash_len E" and db: "C db = Map.empty"
    and T: "inj_on (hash_node E) T" "node_of (hash_node E) empty_tree \<in> T"
  shows "\<exists>db'. tree_new E db = Some (Inr (default_tree_state E), db')
    \<and> sim E C T \<lparr>tdb = db', tstate = default_tree_state E\<rparr> no_versions"
proof -
  let ?n = "Leaf default_leaf" and ?st = "default_tree_state E"
  have n: "node_of (hash_node E) empty_tree = ?n" by (simp add: empty_tree_def default_leaf_def)
  let ?db = "snd (db_put E db (node_key (hash_node E ?n)) (encode_node_page E ?n))"
  have C: "C ?db = [node_key (hash_node E ?n) \<mapsto> encode_node_page E ?n]"
    by (simp add: env_ok_put(2) [OF E(1)] db)
  have node: "db_node E C ?db (hash_node E ?n) = Some ?n"
    using E(1) by (simp add: db_node_def C)
  have "stored E C ?db empty_tree" using node by (simp add: stored_def tree_nodes_def n empty_tree_def default_leaf_def)
  moreover have "empty_root_id E = root_id (hash_node E) empty_tree" by (simp add: empty_root_id_def root_id_def n)
  ultimately have "tree_at E C T ?db (empty_root_id E) empty_tree"
    using T(2) tree_at_root_id [OF E(2) _ t_inv_empty, of C ?db T] by (simp add: tree_nodes_def empty_tree_def)
  moreover have "collision_free E C (?db, None) T"
    using T n node by (auto simp: collision_free_def C dest: inj_onD)
  moreover have "tree_new E db = Some (Inr ?st, ?db)"
    using env_ok_put(1) [OF E(1)]
    by (simp add: tree_new_def get_c_def put_c_def env_ok_get [OF E(1)] bindc_def Let_def db C default_tree_state_def)
  ultimately show ?thesis
    by (auto simp: sim_def index_rel_def state_rel_def durable_def no_versions_def default_tree_state_def C)
qed

end
