(* ===== verification/Store_Observations.thy ===== *)
theory Store_Observations
  imports Versioned_Store
begin

text \<open>
  What the callers of the tree database observe, in terms of the specification of
  \<open>Versioned_Store\<close>: the entries a read returns, the live entries after a write and after a
  batch, the block a tree is recorded for, and the ancestors of a block.
\<close>

section \<open>Reads\<close>

lemma sim_visible: "sim E C T d v \<Longrightarrow> tree_at E C T (tdb d) (active_root (tstate d)) (v_visible v)"
  by (cases "pinned_root (tstate d)"; cases "v_pin v")
    (auto simp: sim_def state_rel_def active_root_def v_visible_def)

lemma tree_atD:
  assumes "tree_at E C T db r t"
  shows "r = root_id (hash_node E) t" "stored E C db t" "ordered [] None t" "t_inv t"
  using assms by (auto simp: tree_at_def denotes_def t_inv_def)

lemma sim_get:
  assumes "env_ok E C" "sim E C T d v"
  shows "tree_get E d k = ok (map_of (t_live (v_visible v)) k)"
  using get_at_root_live [OF assms(1) tree_atD(2,3) [OF sim_visible [OF assms(2)]]]
    tree_atD(1) [OF sim_visible [OF assms(2)]] by (simp add: tree_get_def)

lemma tree_at_get:
  assumes "env_ok E C" "tree_at E C T db r t"
  shows "get_at_root E db r k = ok (map_of (t_live t) k)"
  using get_at_root_live [OF assms(1) tree_atD(2,3) [OF assms(2)]] tree_atD(1) [OF assms(2)] by simp

lemma sim_root_for:
  assumes "env_ok E C" "sim E C T d v"
  shows "root_for_blockhash E d b = Inr (map_option (root_id (hash_node E)) (v_tree_of v b))"
proof -
  obtain x where x: "root_for_blockhash E d b = Inr x" "rel_option (tree_at E C T (tdb d)) x (v_tree_of v b)"
    using root_for_blockhash_sim [OF assms] by blast
  then show ?thesis by (cases x; cases "v_tree_of v b") (auto dest: tree_atD(1))
qed

lemma sim_tree_of:
  assumes "env_ok E C" "sim E C T d v" "v_tree_of v b = Some t"
  shows "tree_at E C T (tdb d) (root_id (hash_node E) t) t"
proof -
  obtain x where "rel_option (tree_at E C T (tdb d)) x (Some t)"
    using root_for_blockhash_sim [OF assms(1,2), of b] unfolding assms(3) by blast
  then obtain r where "tree_at E C T (tdb d) r t" by (auto simp: option_rel_Some2)
  with tree_atD(1) [OF this] show ?thesis by simp
qed

text \<open>The indices.\<close>

lemma sim_blockhash:
  assumes "env_ok E C" "sim E C T d v"
  shows "blockhash_for_height E (tdb d) h = Inr (v_heights v h)"
  using simD(3) [OF assms(2)]
  by (cases "v_heights v h") (auto simp: blockhash_for_height_def get_array_def env_ok_get [OF assms(1)] index_rel_def array_of_def)

lemma sim_parent:
  assumes "env_ok E C" "sim E C T d v"
  shows "parent_for_blockhash E (tdb d) b = Inr (v_parents v b)"
  using simD(3) [OF assms(2)] by (simp add: parent_for_blockhash_def get_array_def env_ok_get [OF assms(1)] index_rel_def)

lemma sim_height:
  assumes "env_ok E C" "sim E C T d v"
  shows "height_for_blockhash E (tdb d) b = Inr (v_block_heights v b)"
  using simD(3) [OF assms(2)] by (simp add: height_for_blockhash_def get_array_def env_ok_get [OF assms(1)] index_rel_def)

lemma denotesD:
  assumes "denotes E C db root t"
  shows "root = root_id (hash_node E) t" "stored E C db t" "ordered [] None t" "t_inv t"
  using assms by (simp_all add: denotes_def t_inv_def)

lemma live_distinct: "t_inv t \<Longrightarrow> map_of (t_live t) k = Some x \<longleftrightarrow> (k, x) \<in> set (t_live t)"
  using bt.sorted_live [of t] by (simp add: strict_sorted_iff)

lemma denotes_get:
  assumes "env_ok E C" "denotes E C db root t"
  shows "get_at_root E db root k = ok (Some x) \<longleftrightarrow> (k, x) \<in> set (t_live t)"
  using get_at_root_live [OF assms(1) denotesD(2,3) [OF assms(2)], of k] live_distinct [OF denotesD(4) [OF assms(2)]]
  by (simp add: denotesD(1) [OF assms(2)] ok_def)

lemma sim_idle:
  assumes "sim E C T d v" "current_block (tstate d) = None" "pinned_root (tstate d) = None"
  shows "v_current v = None" "v_pin v = None"
  using assms by (cases "v_current v"; cases "v_pin v"; simp add: sim_def state_rel_def)+

lemma sim_active_inv: "sim E C T d v \<Longrightarrow> t_inv (v_active v)"
  by (simp add: sim_def state_rel_def tree_at_def denotes_def)

text \<open>The live entries after a write and after a batch.\<close>

lemma live_write:
  "t_inv t \<Longrightarrow> map_of (t_live (t_apply H k x t)) = (map_of (t_live t))(k := x)"
  using bt.lookup_apply1 [of t H k x] by (simp add: bt.lookup_def)

lemma live_batch:
  "t_inv t \<Longrightarrow> map_of (t_live (bt.apply_all H (canonicalize cs) t)) = kv_changes cs (map_of (t_live t))"
  using bt.lookup_apply_all [of t H "canonicalize cs"] by (simp add: bt.lookup_def canonicalize_changes)

text \<open>Only finishing a block changes the tree recorded for it.\<close>

definition leaves_block :: "bytes \<Rightarrow> versions \<Rightarrow> bool" where
  "leaves_block b v \<longleftrightarrow> (\<forall>c. v_current v = Some c \<longrightarrow> vb_hash c \<noteq> b)"

fun begins :: "bytes \<Rightarrow> tree_op \<Rightarrow> bool" where
  "begins b (Begin h b' p) \<longleftrightarrow> b = b'"
| "begins b _ \<longleftrightarrow> False"

lemma v_op_roots:
  assumes "leaves_block b v" "\<not> begins b op"
  shows "leaves_block b (snd (v_op H op v))" "v_roots (snd (v_op H op v)) b = v_roots v b"
  using assms
  by (cases op; auto simp: leaves_block_def v_begin_def v_enter_def v_finish_def v_rewind_def v_set_target_def Let_def
      split: option.splits if_splits sum.splits prod.splits)+

lemma v_run_roots:
  "leaves_block b v \<Longrightarrow> \<forall>op\<in>set ops. \<not> begins b op \<Longrightarrow>
   leaves_block b (v_run H ops v) \<and> v_roots (v_run H ops v) b = v_roots v b"
  by (induction ops arbitrary: v) (simp_all add: v_op_roots)

lemma leaves_block_tree_of: "leaves_block b v \<Longrightarrow> v_tree_of v b = v_roots v b"
  by (auto simp: leaves_block_def v_tree_of_def split: option.split)

text \<open>Changes inside a block, one at a time and as a batch.\<close>

fun is_change :: "tree_op \<Rightarrow> bool" where
  "is_change (Write k x) \<longleftrightarrow> True"
| "is_change (Batch cs) \<longleftrightarrow> True"
| "is_change _ \<longleftrightarrow> False"

lemma is_change_wf: "is_change op \<Longrightarrow> op_wf op"
  by (cases op) auto

lemma v_run_append: "v_run H (xs @ ys) v = v_run H ys (v_run H xs v)"
  by (induction xs arbitrary: v) simp_all

lemma v_current_same: "v_current v = Some c \<Longrightarrow> v\<lparr>v_current := Some c\<rparr> = v"
  by (cases v) simp

lemma v_run_changes:
  "\<forall>op\<in>set ops. is_change op \<Longrightarrow> v_current v = Some c \<Longrightarrow> \<exists>c'. v_run H ops v = v\<lparr>v_current := Some c'\<rparr>"
proof (induction ops arbitrary: v c)
  case Nil
  then show ?case using v_current_same by (auto intro: exI [of _ c])
next
  case (Cons op ops)
  have "is_change op" using Cons.prems by simp
  then have "snd (v_op H op v) = v \<or> (\<exists>t. snd (v_op H op v) = v_set_target t v)" by (cases op) auto
  then obtain c1 where c1: "snd (v_op H op v) = v\<lparr>v_current := Some c1\<rparr>"
    using Cons.prems(2) v_current_same [OF Cons.prems(2)] by (metis option.simps(5) v_set_target_def)
  show ?case using Cons.IH [of "v\<lparr>v_current := Some c1\<rparr>" c1] Cons.prems by (simp add: c1)
qed

lemma v_run_abort:
  assumes "\<forall>op\<in>set ops. is_change op" "fst (v_begin h b p v) = Inr ()"
  shows "v_run H (Begin h b p # ops @ [Abort]) v = v\<lparr>v_current := None\<rparr>"
proof -
  obtain c where c: "snd (v_begin h b p v) = v\<lparr>v_current := Some c\<rparr>"
    using assms(2) by (auto simp: v_begin_def v_enter_def split: option.splits if_splits)
  obtain c' where "v_run H ops (v\<lparr>v_current := Some c\<rparr>) = v\<lparr>v_current := Some c'\<rparr>"
    using v_run_changes [OF assms(1), of "v\<lparr>v_current := Some c\<rparr>" c] by auto
  then show ?thesis by (simp add: c v_run_append)
qed

lemma v_set_target_simps [simp]:
  "v_target (v_set_target t v) = t" "v_set_target u (v_set_target t v) = v_set_target u v"
  "v_set_target (v_target v) v = v"
  by (cases v; simp add: v_target_def v_set_target_def split: option.split)+

lemma v_run_writes:
  "v_run H (map (\<lambda>(k, x). Write k x) cs) v = v_set_target (bt.apply_all H cs (v_target v)) v"
  by (induction cs arbitrary: v) (auto simp: bt.apply_all_def)

lemma visible_set_target:
  "v_visible (v_set_target t v) =
     (case v_pin v of Some p \<Rightarrow> fst p | None \<Rightarrow> if v_current v = None then t else v_active v)"
  by (auto simp: v_visible_def v_set_target_def split: option.split)

lemma visible_batch:
  assumes "t_inv (v_target v)"
  shows "map_of (t_live (v_visible (v_run H [Batch cs] v)))
    = map_of (t_live (v_visible (v_set_target (bt.apply_all H cs (v_target v)) v)))"
proof (cases "cs = []")
  case False
  then show ?thesis
    using live_batch [OF assms, of H cs] bt.lookup_apply_all [OF assms, of H cs]
    by (auto simp: visible_set_target bt.lookup_def split: option.split)
qed (simp add: bt.apply_all_def)

lemma sim_target_inv: "sim E C T d v \<Longrightarrow> t_inv (v_target v)"
  by (auto simp: sim_def state_rel_def tree_at_def denotes_def v_target_def block_rel_def option_rel_Some2
      split: option.split)

text \<open>The root that a write starts from and replaces: that of the open block, or else the active one.\<close>

definition write_root :: "tree_state \<Rightarrow> bytes" where
  "write_root st = (case current_block st of Some ctx \<Rightarrow> working_root ctx | None \<Rightarrow> st_active_root st)"

lemma sim_write_root_get:
  assumes "env_ok E C" "sim E C T d v"
  shows "get_at_root E (tdb d) (write_root (tstate d)) k = ok (map_of (t_live (v_target v)) k)"
  using tree_at_get [OF assms(1) sim_target [OF assms(2)]] by (simp add: write_root_def)

lemma sim_idle_iff:
  assumes "sim E C T d v"
  shows "current_block (tstate d) = None \<longleftrightarrow> v_current v = None" "pinned_root (tstate d) = None \<longleftrightarrow> v_pin v = None"
proof -
  have r: "rel_option (block_rel E C T (tdb d)) (current_block (tstate d)) (v_current v)"
      "rel_option (\<lambda>r p. tree_at E C T (tdb d) r (fst p)) (pinned_root (tstate d)) (v_pin v)"
    using simD(4) [OF assms] by (simp_all add: state_rel_def)
  show "current_block (tstate d) = None \<longleftrightarrow> v_current v = None" using r(1) by cases simp_all
  show "pinned_root (tstate d) = None \<longleftrightarrow> v_pin v = None" using r(2) by cases simp_all
qed

text \<open>Operations that leave a pin up to height \<open>h\<close> in place.\<close>

fun stays_pinned :: "u32 \<Rightarrow> tree_op \<Rightarrow> bool" where
  "stays_pinned h (Begin h' b p) \<longleftrightarrow> h' \<le> h"
| "stays_pinned h (Rewind target) \<longleftrightarrow> False"
| "stays_pinned h (Pin h') \<longleftrightarrow> False"
| "stays_pinned h _ \<longleftrightarrow> True"

lemma v_run_pinned:
  "\<forall>op\<in>set ops. stays_pinned h op \<Longrightarrow> v_pin v = Some (t, h) \<Longrightarrow> \<forall>c. v_current v = Some c \<longrightarrow> vb_height c \<le> h \<Longrightarrow>
   v_pin (v_run H ops v) = Some (t, h)"
proof (induction ops arbitrary: v)
  case (Cons op ops)
  then have "v_pin (snd (v_op H op v)) = Some (t, h)
      \<and> (\<forall>c. v_current (snd (v_op H op v)) = Some c \<longrightarrow> vb_height c \<le> h)"
    by (cases op) (auto simp: v_begin_def v_enter_def v_finish_def v_set_target_def split: option.splits)
  with Cons show ?case by simp
qed simp

text \<open>Ancestors.\<close>

fun nth_ancestor :: "(bytes \<rightharpoonup> bytes) \<Rightarrow> nat \<Rightarrow> bytes \<Rightarrow> bytes option" where
  "nth_ancestor parents 0 b = Some b"
| "nth_ancestor parents (Suc n) b = (case parents b of None \<Rightarrow> None | Some p \<Rightarrow> nth_ancestor parents n p)"

lemma ancestor_loop_sim:
  assumes E: "env_ok E C" and sim: "sim E C T d v"
  shows "a \<le> h \<Longrightarrow> ancestor_loop E (tdb d) a h b = Inr (nth_ancestor (v_parents v) (unat h - unat a) b)"
proof (induction "unat h - unat a" arbitrary: h b)
  case 0
  then have "h = a" by (simp add: word_le_nat_alt word_unat_eq_iff)
  with 0 show ?case by (simp add: ancestor_loop.simps)
next
  case (Suc n)
  then have lt: "a < h" by (simp add: word_less_nat_alt)
  have par: "parent_for_blockhash E (tdb d) b = Inr (v_parents v b)"
    by (rule sim_parent [OF E sim])
  have h1: "u32_saturating_sub h 1 = h - 1" "unat (h - 1) = unat h - 1" "a \<le> h - 1"
    using lt unfolding u32_saturating_sub_def by (unat_arith; simp)+
  have n: "unat h - unat a = Suc (unat (h - 1) - unat a)" "n = unat (h - 1) - unat a"
    using Suc.hyps(2) h1(2) by simp_all
  show ?case
    using lt par Suc.hyps(1) [OF n(2) h1(3)] unfolding n(1)
    by (subst ancestor_loop.simps) (simp add: h1(1) split: option.split)
qed

text \<open>Rewinding to a recorded block.\<close>

lemma rewind_reads:
  assumes "env_ok E C" "hash_len E" "sim E C T d v"
    and "blockhash_for_height E (tdb d) h = Inr (Some b)" "root_for_blockhash E d b = Inr (Some r)"
  shows "\<exists>d' v'. rewind_to_height E (Some h) d = Some (Inr (), d') \<and> sim E C T d' v'
    \<and> (\<forall>k. tree_get E d' k = get_at_root E (tdb d) r k) \<and> active_blockhash (tstate d') = Some b
    \<and> (\<forall>h'. blockhash_for_height E (tdb d') h' = (if h < h' then Inr None else blockhash_for_height E (tdb d) h'))"
proof -
  let ?v' = "snd (v_rewind (Some h) v)"
  have hb: "v_heights v h = Some b" using sim_blockhash [OF assms(1,3), of h] assms(4) by simp
  obtain t where t: "v_tree_of v b = Some t" "r = root_id (hash_node E) t"
    using sim_root_for [OF assms(1,3), of b] assms(5) by (cases "v_tree_of v b") auto
  have rw: "v_rewind_target (Some h) v = Inr (t, Some b)" by (simp add: v_rewind_target_def hb t)
  obtain d' where d': "rewind_to_height E (Some h) d = Some (Inr (), d')" "sim E C T d' ?v'"
    using sim_step [OF assms(1-3), of "Rewind (Some h)"] by (auto simp: v_rewind_def rw)
  have "tree_get E d' k = get_at_root E (tdb d) r k" for k
    using sim_get [OF assms(1) d'(2), of k] tree_at_get [OF assms(1) sim_tree_of [OF assms(1,3) t(1)], of k]
    by (simp add: v_rewind_def rw v_visible_def t(2))
  moreover have "active_blockhash (tstate d') = Some b"
    using d'(2) by (simp add: sim_def state_rel_def active_blockhash_def v_rewind_def rw)
  moreover have "blockhash_for_height E (tdb d') h' = (if h < h' then Inr None else blockhash_for_height E (tdb d) h')" for h'
    using sim_blockhash [OF assms(1) d'(2), of h'] sim_blockhash [OF assms(1,3), of h']
    by (simp add: v_rewind_def rw stale_def)
  ultimately show ?thesis using d' by blast
qed

end
