(* ===== verification/Mem_Env.thy ===== *)
theory Mem_Env
  imports Store_Observations
begin

text \<open>
  An environment that satisfies the hypotheses of the development: a database held in memory as
  an association list, a self-delimiting codec for nodes, and a 32-byte digest (the first 32
  bytes of the input, padded) that does not collide on the small nodes of the examples. It shows
  that the hypotheses on the third-party services can hold together.
\<close>

section \<open>A codec\<close>

fun enc_nat :: "nat \<Rightarrow> bytes" where
  "enc_nat 0 = [0]"
| "enc_nat (Suc n) = 1 # enc_nat n"

fun dec_nat :: "bytes \<Rightarrow> (nat \<times> bytes) option" where
  "dec_nat [] = None"
| "dec_nat (b # bs) = (if b = 0 then Some (0, bs)
     else case dec_nat bs of None \<Rightarrow> None | Some (n, rest) \<Rightarrow> Some (Suc n, rest))"

definition enc_bytes :: "bytes \<Rightarrow> bytes" where
  "enc_bytes bs = enc_nat (length bs) @ bs"

definition dec_bytes :: "bytes \<Rightarrow> (bytes \<times> bytes) option" where
  "dec_bytes bs = (case dec_nat bs of None \<Rightarrow> None | Some (n, rest) \<Rightarrow> Some (take n rest, drop n rest))"

fun enc_opt :: "bytes option \<Rightarrow> bytes" where
  "enc_opt None = [0]"
| "enc_opt (Some bs) = 1 # enc_bytes bs"

definition dec_opt :: "bytes \<Rightarrow> (bytes option \<times> bytes) option" where
  "dec_opt bs = (case bs of
       [] \<Rightarrow> None
     | b # rest \<Rightarrow> if b = 0 then Some (None, rest)
         else case dec_bytes rest of None \<Rightarrow> None | Some (x, rest) \<Rightarrow> Some (Some x, rest))"

definition enc_entry :: "leaf_entry \<Rightarrow> bytes" where
  "enc_entry e = enc_bytes (le_key e) @ enc_opt (le_value e)"

definition dec_entry :: "bytes \<Rightarrow> (leaf_entry \<times> bytes) option" where
  "dec_entry bs = (case dec_bytes bs of
       None \<Rightarrow> None
     | Some (k, rest) \<Rightarrow> (case dec_opt rest of
           None \<Rightarrow> None | Some (v, rest) \<Rightarrow> Some (\<lparr>le_key = k, le_value = v\<rparr>, rest)))"

definition enc_list :: "('a \<Rightarrow> bytes) \<Rightarrow> 'a list \<Rightarrow> bytes" where
  "enc_list f xs = enc_nat (length xs) @ concat (map f xs)"

fun dec_n :: "(bytes \<Rightarrow> ('a \<times> bytes) option) \<Rightarrow> nat \<Rightarrow> bytes \<Rightarrow> ('a list \<times> bytes) option" where
  "dec_n f 0 bs = Some ([], bs)"
| "dec_n f (Suc n) bs = (case f bs of
       None \<Rightarrow> None
     | Some (x, rest) \<Rightarrow> (case dec_n f n rest of None \<Rightarrow> None | Some (xs, rest) \<Rightarrow> Some (x # xs, rest)))"

definition dec_list :: "(bytes \<Rightarrow> ('a \<times> bytes) option) \<Rightarrow> bytes \<Rightarrow> ('a list \<times> bytes) option" where
  "dec_list f bs = (case dec_nat bs of None \<Rightarrow> None | Some (n, rest) \<Rightarrow> dec_n f n rest)"

fun enc_node :: "bptree_node \<Rightarrow> bytes" where
  "enc_node (Leaf l) = 0 # enc_list enc_entry (entries l) @ enc_opt (next_leaf l)"
| "enc_node (Internal i) = 1 # enc_list enc_bytes (sep_keys i) @ enc_list enc_bytes (children i)"

definition dec_node :: "bytes \<Rightarrow> bptree_node option" where
  "dec_node bs = (case bs of
       [] \<Rightarrow> None
     | b # rest \<Rightarrow>
         if b = 0 then (case dec_list dec_entry rest of
             None \<Rightarrow> None
           | Some (es, rest) \<Rightarrow> (case dec_opt rest of
                 None \<Rightarrow> None | Some (nx, _) \<Rightarrow> Some (Leaf \<lparr>entries = es, next_leaf = nx\<rparr>)))
         else (case dec_list dec_bytes rest of
             None \<Rightarrow> None
           | Some (ks, rest) \<Rightarrow> (case dec_list dec_bytes rest of
                 None \<Rightarrow> None | Some (cs, _) \<Rightarrow> Some (Internal \<lparr>sep_keys = ks, children = cs\<rparr>))))"

lemma dec_nat_enc [simp]: "dec_nat (enc_nat n @ rest) = Some (n, rest)"
  by (induction n) simp_all

lemma dec_bytes_enc [simp]: "dec_bytes (enc_bytes bs @ rest) = Some (bs, rest)"
  by (simp add: dec_bytes_def enc_bytes_def)

lemma dec_opt_enc [simp]: "dec_opt (enc_opt v @ rest) = Some (v, rest)"
  by (cases v) (simp_all add: dec_opt_def)

lemma dec_entry_enc [simp]: "dec_entry (enc_entry e @ rest) = Some (e, rest)"
  by (simp add: dec_entry_def enc_entry_def)

lemma dec_list_enc:
  assumes "\<And>x rest. f (g x @ rest) = Some (x, rest)"
  shows "dec_list f (enc_list g xs @ rest) = Some (xs, rest)"
proof -
  have "dec_n f (length xs) (concat (map g xs) @ rest) = Some (xs, rest)"
    by (induction xs) (simp_all add: assms)
  then show ?thesis by (simp add: dec_list_def enc_list_def)
qed

lemma dec_node_enc: "dec_node (enc_node n) = Some n"
proof (cases n)
  case (Leaf l)
  then show ?thesis
    using dec_opt_enc [of "next_leaf l" "[]"]
    by (simp add: dec_node_def dec_list_enc [of dec_entry enc_entry])
next
  case (Internal i)
  then show ?thesis
    using dec_list_enc [of dec_bytes enc_bytes "children i" "[]"]
    by (simp add: dec_node_def dec_list_enc [of dec_bytes enc_bytes])
qed

section \<open>The environment\<close>

type_synonym mem_db = "(bytes \<times> bytes) list"

fun mem_apply :: "batch_op \<Rightarrow> mem_db \<Rightarrow> mem_db" where
  "mem_apply (BPut k v) db = (k, v) # db"
| "mem_apply (BDelete k) db = filter (\<lambda>e. fst e \<noteq> k) db"

definition mem_env :: "mem_db env" where
  "mem_env = \<lparr>db_get = (\<lambda>db k. Inr (map_of db k)),
     db_multi_get = (\<lambda>db ks. map (\<lambda>k. Inr (map_of db k)) ks),
     db_put = (\<lambda>db k v. (Inr (), mem_apply (BPut k v) db)),
     db_delete = (\<lambda>db k. (Inr (), mem_apply (BDelete k) db)),
     db_write = (\<lambda>db ops. (Inr (), fold mem_apply ops db)),
     db_iterator = (\<lambda>db md. map Inr (iter_entries (map_of db) md)),
     sha256 = (\<lambda>bs. take 32 (bs @ replicate 32 0)),
     borsh_to_vec = enc_node,
     borsh_try_from_slice = dec_node\<rparr>"

lemma mem_apply_map_of: "map_of (mem_apply op db) = batch_effect op (map_of db)"
proof (cases op)
  case (BDelete k)
  have "map_of (filter (\<lambda>e. fst e \<noteq> k) db) = (map_of db)(k := None)" by (induction db) auto
  with BDelete show ?thesis by simp
qed simp

lemma fold_mem_apply: "map_of (fold mem_apply ops db) = fold batch_effect ops (map_of db)"
  by (induction ops arbitrary: db) (simp_all add: mem_apply_map_of)

lemma mem_env_ok: "env_ok mem_env map_of"
  unfolding env_ok_def rocks_reads_def rocks_writes_def borsh_inverse_def
  by (simp add: mem_env_def mem_apply_map_of fold_mem_apply dec_node_enc finite_dom_map_of
      del: mem_apply.simps)

lemma mem_hash_len: "hash_len mem_env"
  by (auto simp: hash_len_def mem_env_def min_def)

section \<open>A small store\<close>

abbreviation mem_hash :: "bptree_node \<Rightarrow> bytes" where
  "mem_hash \<equiv> hash_node mem_env"

definition one_entry :: btree where
  "one_entry = TLeaf [\<lparr>le_key = [1], le_value = Some [2]\<rparr>] None"

lemma apply_empty: "t_apply mem_hash [1] (Some [2]) empty_tree = one_entry"
  by (simp add: t_apply_def empty_tree_def one_entry_def leaf_write_def leaf_edit_def binary_search_def
      partition_point_def list_insert_at_def t_leaf_def MAX_LEAF_ENTRIES_def)

lemma mem_hash_inj: "inj_on mem_hash {node_of mem_hash empty_tree, node_of mem_hash one_entry}"
  by (simp add: inj_on_def hash_node_def mem_env_def empty_tree_def one_entry_def enc_list_def enc_entry_def
      enc_bytes_def)

definition small_nodes :: "bptree_node set" where
  "small_nodes = {node_of mem_hash empty_tree, node_of mem_hash one_entry}"

definition mem_fresh :: "mem_db tree_db" where
  "mem_fresh = \<lparr>tdb = [(node_key (mem_hash (Leaf default_leaf)), enc_node (Leaf default_leaf))],
     tstate = default_tree_state mem_env\<rparr>"

lemma mem_new: "tree_new mem_env [] = Some (Inr (default_tree_state mem_env), tdb mem_fresh)"
  by (simp add: tree_new_def mem_fresh_def get_c_def put_c_def bindc_def Let_def encode_node_page_def
      mem_env_def default_tree_state_def array_of_def)

lemma mem_fresh_sim: "sim mem_env map_of small_nodes mem_fresh no_versions"
  using sim_new [OF mem_env_ok mem_hash_len, of "[]" small_nodes] mem_hash_inj
  by (auto simp: mem_new small_nodes_def mem_fresh_def)

lemma nodes_empty: "tree_nodes mem_hash empty_tree = {node_of mem_hash empty_tree}"
  by (simp add: empty_tree_def)

lemma nodes_one: "tree_nodes mem_hash one_entry = {node_of mem_hash one_entry}"
  by (simp add: one_entry_def)

lemma mem_empty_live: "t_live empty_tree = []"
  by (simp add: empty_tree_def t_live_simps)

lemma small_write: "batch_nodes mem_hash [([1], Some [2])] empty_tree \<subseteq> small_nodes"
  by (simp add: apply_empty nodes_empty nodes_one small_nodes_def)

lemma target_no_versions [simp]: "v_target no_versions = empty_tree" "v_visible no_versions = empty_tree"
  by (simp_all add: v_target_def v_visible_def no_versions_def)

lemma mem_fresh_idle [simp]:
  "current_block (tstate mem_fresh) = None" "pinned_root (tstate mem_fresh) = None"
  by (simp_all add: mem_fresh_def default_tree_state_def)

section \<open>A stored tree with an internal node\<close>

definition low_leaf :: btree where
  "low_leaf = TLeaf [\<lparr>le_key = [1], le_value = Some [10]\<rparr>, \<lparr>le_key = [3], le_value = Some [30]\<rparr>] None"

definition high_leaf :: btree where
  "high_leaf = TLeaf [\<lparr>le_key = [7], le_value = Some [70]\<rparr>] None"

definition two_leaves :: btree where
  "two_leaves = TInner [[5]] [low_leaf, high_leaf]"

definition two_leaves_db :: mem_db where
  "two_leaves_db = map (\<lambda>t. (node_key (root_id mem_hash t), enc_node (node_of mem_hash t)))
     [two_leaves, low_leaf, high_leaf]"

lemmas small_tree_defs = two_leaves_def low_leaf_def high_leaf_def

lemma two_leaves_inv: "t_inv two_leaves"
  unfolding t_inv_def small_tree_defs
  by (auto simp: MAX_LEAF_ENTRIES_def MAX_INTERNAL_KEYS_def intro!: exI [of _ 1])

lemma two_leaves_live: "t_live two_leaves = [([1], [10]), ([3], [30]), ([7], [70])]"
  by (simp add: t_live_simps small_tree_defs)

lemma two_leaves_ids:
  "root_id mem_hash two_leaves \<noteq> root_id mem_hash low_leaf"
  "root_id mem_hash two_leaves \<noteq> root_id mem_hash high_leaf"
  "root_id mem_hash low_leaf \<noteq> root_id mem_hash high_leaf"
  by (simp_all add: root_id_def hash_node_def mem_env_def small_tree_defs enc_list_def enc_entry_def enc_bytes_def
      numeral_eq_Suc)

lemma decode_enc_node [simp]: "decode_node_page mem_env (enc_node n) = Some n"
  using decode_encode_node_page [OF mem_env_ok, of n] by (simp add: encode_node_page_def mem_env_def)

lemma two_leaves_stored: "stored mem_env map_of two_leaves_db two_leaves"
proof -
  have "db_node mem_env map_of two_leaves_db (root_id mem_hash t) = Some (node_of mem_hash t)"
    if "t \<in> {two_leaves, low_leaf, high_leaf}" for t
    using that two_leaves_ids by (auto simp: db_node_def two_leaves_db_def)
  moreover have "set (subtrees two_leaves) = {two_leaves, low_leaf, high_leaf}"
    by (simp add: small_tree_defs)
  ultimately show ?thesis by (simp add: stored_def tree_nodes_def root_id_def)
qed

lemma two_leaves_ordered: "ordered [] None two_leaves"
  using two_leaves_inv by (simp add: t_inv_def)

lemma two_leaves_denotes: "denotes mem_env map_of two_leaves_db (root_id mem_hash two_leaves) two_leaves"
  by (simp add: denotes_def two_leaves_stored two_leaves_inv)

section \<open>A run of one block\<close>

definition block_hash :: bytes where "block_hash = replicate 32 1"

definition block_ops :: "tree_op list" where
  "block_ops = [Begin 7 block_hash (replicate 32 0), Write [1] (Some [2]), Finish]"

definition block_versions :: versions where
  "block_versions = v_run mem_hash block_ops no_versions"

lemma block_versions_eq:
  "block_versions = no_versions\<lparr>v_active := one_entry, v_active_block := Some block_hash,
     v_roots := [block_hash \<mapsto> one_entry], v_heights := [7 \<mapsto> block_hash],
     v_block_heights := [block_hash \<mapsto> 7], v_parents := [block_hash \<mapsto> replicate 32 0]\<rparr>"
  by (simp add: block_versions_def block_ops_def no_versions_def v_begin_def v_tree_of_def v_enter_def
      v_set_target_def v_target_def v_finish_def apply_empty)

lemma block_run: "\<exists>d. run_ops mem_env block_ops mem_fresh = Some d \<and> sim mem_env map_of small_nodes d block_versions"
proof -
  have "run_nodes mem_hash block_ops no_versions \<subseteq> small_nodes"
    using small_write by (simp add: block_ops_def no_versions_def v_begin_def v_tree_of_def v_enter_def v_target_def)
  moreover have "\<forall>op\<in>set block_ops. op_wf op" by (simp add: block_ops_def block_hash_def)
  ultimately show ?thesis
    using sim_run [OF mem_env_ok mem_hash_len mem_fresh_sim, of block_ops] by (simp add: block_versions_def)
qed

definition block_db :: "mem_db tree_db" where
  "block_db = the (run_ops mem_env block_ops mem_fresh)"

lemma block_db_sim: "sim mem_env map_of small_nodes block_db block_versions"
  using block_run by (auto simp: block_db_def)

lemma block_db_idle: "current_block (tstate block_db) = None"
  using block_db_sim by (simp add: sim_def state_rel_def block_versions_eq no_versions_def)

end
