(* ===== verification/Tree_Properties.thy ===== *)
theory Tree_Properties
  imports Mem_Env
begin

text \<open>
  The properties of the versioned tree database of \<^verbatim>\<open>src/runtime/tree_db.rs\<close>, each with a witness
  on the in-memory environment of \<open>Mem_Env\<close>.

  The hypotheses that recur: \<open>env_ok\<close> (RocksDB, SHA-256 and Borsh behave as documented),
  \<open>hash_len\<close> (a digest has 32 bytes), \<open>sim\<close> (the state is one the operations reach), and
  that SHA-256 does not collide on the nodes \<open>T\<close> of the run.
\<close>

section \<open>The store as a whole\<close>

text \<open>
  C1. Refinement: opening an empty database and running any sequence of operations (blocks,
  writes, batches, pins, rewinds, restarts) returns, simulates the specification step by step, and
  afterwards a read returns the entry of the tree the specification shows.
\<close>

theorem store_refines_versions:
  assumes "env_ok E C" "hash_len E" "C db = Map.empty"
    and "inj_on (hash_node E) T" "node_of (hash_node E) empty_tree \<in> T"
    and "\<forall>op\<in>set ops. op_wf op" "run_nodes (hash_node E) ops no_versions \<subseteq> T"
  shows "\<exists>db' d'. tree_new E db = Some (Inr (default_tree_state E), db')
    \<and> run_ops E ops \<lparr>tdb = db', tstate = default_tree_state E\<rparr> = Some d'
    \<and> sim E C T d' (v_run (hash_node E) ops no_versions)
    \<and> (\<forall>k. tree_get E d' k = ok (map_of (t_live (v_visible (v_run (hash_node E) ops no_versions))) k))"
proof -
  obtain db' where db': "tree_new E db = Some (Inr (default_tree_state E), db')"
    "sim E C T \<lparr>tdb = db', tstate = default_tree_state E\<rparr> no_versions"
    using sim_new [OF assms(1-5)] by blast
  obtain d' where d': "run_ops E ops \<lparr>tdb = db', tstate = default_tree_state E\<rparr> = Some d'"
    "sim E C T d' (v_run (hash_node E) ops no_versions)"
    using sim_run [OF assms(1,2) db'(2) assms(6,7)] by blast
  with db'(1) sim_get [OF assms(1) d'(2)] show ?thesis by blast
qed

theorem store_refines_versions_witness:
  "\<exists>db' d'. tree_new mem_env [] = Some (Inr (default_tree_state mem_env), db')
    \<and> run_ops mem_env [Begin 7 (replicate 32 1) (replicate 32 0), Write [1] (Some [2]), Finish, Reopen]
        \<lparr>tdb = db', tstate = default_tree_state mem_env\<rparr> = Some d'
    \<and> tree_get mem_env d' [1] = ok (Some [2])"
proof -
  let ?ops = "[Begin 7 (replicate 32 1) (replicate 32 0), Write [1] (Some [2]), Finish, Reopen]"
  have run: "v_visible (v_run mem_hash ?ops no_versions) = one_entry"
    by (simp add: no_versions_def v_begin_def v_tree_of_def v_enter_def v_set_target_def v_target_def
        v_finish_def v_visible_def apply_empty)
  have "run_nodes mem_hash ?ops no_versions \<subseteq> small_nodes"
    using small_write by (simp add: no_versions_def v_begin_def v_tree_of_def v_enter_def v_target_def)
  moreover have "inj_on mem_hash small_nodes" "node_of mem_hash empty_tree \<in> small_nodes"
    using mem_hash_inj by (simp_all add: small_nodes_def)
  ultimately show ?thesis
    using store_refines_versions [OF mem_env_ok mem_hash_len, of "[]" small_nodes ?ops]
    unfolding run by (auto simp: one_entry_def t_live_simps)
qed

text \<open>
  C10. Durability: after any sequence of operations from an empty database, at whatever point it is cut off, reopening
  what is on disk gives back the state in memory (active root and block, pin and its height), except for the block
  that was being built, and writes nothing.
\<close>

theorem restart_recovers_state:
  assumes "env_ok E C" "hash_len E" "C db = Map.empty"
    and "inj_on (hash_node E) T" "node_of (hash_node E) empty_tree \<in> T"
    and "\<forall>op\<in>set ops. op_wf op" "run_nodes (hash_node E) ops no_versions \<subseteq> T"
  shows "\<exists>db' d. tree_new E db = Some (Inr (default_tree_state E), db')
    \<and> run_ops E ops \<lparr>tdb = db', tstate = default_tree_state E\<rparr> = Some d
    \<and> tree_new E (tdb d) = Some (Inr ((tstate d)\<lparr>current_block := None\<rparr>), tdb d)"
proof -
  obtain db' where db': "tree_new E db = Some (Inr (default_tree_state E), db')"
    "sim E C T \<lparr>tdb = db', tstate = default_tree_state E\<rparr> no_versions"
    using sim_new [OF assms(1-5)] by blast
  obtain d where d: "run_ops E ops \<lparr>tdb = db', tstate = default_tree_state E\<rparr> = Some d"
    "sim E C T d (v_run (hash_node E) ops no_versions)"
    using sim_run [OF assms(1,2) db'(2) assms(6,7)] by blast
  with db'(1) tree_new_sim [OF assms(1) d(2)] show ?thesis by blast
qed

theorem restart_recovers_state_witness:
  "\<exists>d. run_ops mem_env (block_ops @ [Begin 8 (replicate 32 3) block_hash]) mem_fresh = Some d
    \<and> tree_new mem_env (tdb d) = Some (Inr ((tstate d)\<lparr>current_block := None\<rparr>), tdb d)"
proof -
  let ?ops = "block_ops @ [Begin 8 (replicate 32 3) block_hash]"
  have "run_nodes mem_hash ?ops no_versions \<subseteq> small_nodes" "\<forall>op\<in>set ?ops. op_wf op"
    using small_write by (simp_all add: block_ops_def block_hash_def no_versions_def v_begin_def v_tree_of_def v_enter_def v_target_def)
  moreover have "inj_on mem_hash small_nodes" "node_of mem_hash empty_tree \<in> small_nodes"
    using mem_hash_inj by (simp_all add: small_nodes_def)
  moreover have "\<lparr>tdb = tdb mem_fresh, tstate = default_tree_state mem_env\<rparr> = mem_fresh" by (simp add: mem_fresh_def)
  ultimately show ?thesis
    using restart_recovers_state [OF mem_env_ok mem_hash_len, of "[]" small_nodes ?ops] mem_new by auto
qed

text \<open>
  Outside a block and without a pin, a put or a delete of a key (\<open>apply_mutation\<close>) is what the
  next read of that key returns, and every other key reads as before.
\<close>

theorem write_then_read:
  assumes "env_ok E C" "hash_len E" "sim E C T d v"
    and "batch_nodes (hash_node E) [(k, x)] (v_target v) \<subseteq> T"
    and "current_block (tstate d) = None" "pinned_root (tstate d) = None"
  shows "\<exists>d'. apply_mutation E k x d = Some (Inr (), d')
    \<and> (\<forall>j. tree_get E d' j = (if j = k then ok x else tree_get E d j))"
proof -
  note idle = sim_idle [OF assms(3,5,6)]
  obtain d' where d': "apply_mutation E k x d = Some (Inr (), d')"
    "sim E C T d' (v_set_target (t_apply (hash_node E) k x (v_target v)) v)"
    using sim_write [OF assms(1-4)] by blast
  have "tree_get E d' j = (if j = k then ok x else tree_get E d j)" for j
    using sim_get [OF assms(1) d'(2), of j] sim_get [OF assms(1,3), of j]
      live_write [OF sim_active_inv [OF assms(3)], of "hash_node E" k x]
    by (simp add: idle v_set_target_def v_target_def v_visible_def)
  with d'(1) show ?thesis by blast
qed

theorem write_then_read_witness:
  "\<exists>d'. apply_mutation mem_env [1] (Some [2]) mem_fresh = Some (Inr (), d')
    \<and> tree_get mem_env d' [1] = ok (Some [2]) \<and> tree_get mem_env d' [9] = tree_get mem_env mem_fresh [9]"
  using write_then_read [OF mem_env_ok mem_hash_len mem_fresh_sim, of "[1]" "Some [2]"] small_write by auto

text \<open>
  C7. A batch is atomic and last-write-wins. In the tree that writes go to, which is that of the open block and otherwise
  the active one, every key that occurs in the batch has its last change and every other key is as before. Reads see
  this at once when no block is open and no pin is set; otherwise they return what they returned before.
\<close>

theorem batch_last_write_wins:
  assumes "env_ok E C" "hash_len E" "sim E C T d v"
    and "batch_nodes (hash_node E) (canonicalize cs) (v_target v) \<subseteq> T"
  shows "\<exists>d'. apply_batch E cs d = Some (Inr (), d')
    \<and> (\<forall>j. get_at_root E (tdb d') (write_root (tstate d')) j
        = (case map_of (rev cs) j of Some x \<Rightarrow> ok x | None \<Rightarrow> get_at_root E (tdb d) (write_root (tstate d)) j))
    \<and> (\<forall>j. tree_get E d' j = (if current_block (tstate d) = None \<and> pinned_root (tstate d) = None
        then (case map_of (rev cs) j of Some x \<Rightarrow> ok x | None \<Rightarrow> tree_get E d j) else tree_get E d j))"
proof (cases "cs = []")
  case True
  then show ?thesis by (simp add: apply_batch_def)
next
  case False
  let ?t = "bt.apply_all (hash_node E) (canonicalize cs) (v_target v)"
  obtain d' where d': "apply_batch_owned E cs d = Some (Inr (), d')" "sim E C T d' (v_set_target ?t v)"
    using sim_batch [OF assms(1-3) False assms(4)] by blast
  have live: "map_of (t_live ?t) j = (case map_of (rev cs) j of Some x \<Rightarrow> x | None \<Rightarrow> map_of (t_live (v_target v)) j)" for j
    using live_batch [OF sim_target_inv [OF assms(3)], of "hash_node E" cs] by (simp add: kv_changes_apply)
  have "get_at_root E (tdb d') (write_root (tstate d')) j
      = (case map_of (rev cs) j of Some x \<Rightarrow> ok x | None \<Rightarrow> get_at_root E (tdb d) (write_root (tstate d)) j)" for j
    using sim_write_root_get [OF assms(1) d'(2), of j] sim_write_root_get [OF assms(1,3), of j] live [of j] by (simp split: option.split)
  moreover have "tree_get E d' j = (if current_block (tstate d) = None \<and> pinned_root (tstate d) = None
      then (case map_of (rev cs) j of Some x \<Rightarrow> ok x | None \<Rightarrow> tree_get E d j) else tree_get E d j)" for j
    using sim_get [OF assms(1) d'(2), of j] sim_get [OF assms(1,3), of j] live [of j] sim_idle_iff [OF assms(3)]
    unfolding visible_set_target by (cases "v_pin v"; cases "v_current v") (auto simp: v_visible_def v_target_def split: option.split)
  ultimately show ?thesis using d'(1) False by (auto simp: apply_batch_def)
qed

theorem batch_last_write_wins_witness:
  "\<exists>d'. apply_batch mem_env [([1], Some [9]), ([1], Some [2])] mem_fresh = Some (Inr (), d')
    \<and> tree_get mem_env d' [1] = ok (Some [2])"
proof -
  have "canonicalize [([1], Some [9]), ([1], Some [2])] = [([1], Some [2])]"
    by (simp add: canonicalize_eq keep_last_def)
  with batch_last_write_wins [OF mem_env_ok mem_hash_len mem_fresh_sim, of "[([1], Some [9]), ([1], Some [2])]"]
  show ?thesis using small_write by auto
qed

text \<open>
  C5. Finished blocks are immutable: whatever operations follow (rewinds and restarts included), as
  long as the block is not begun again, its root stays recorded and every read at that root
  returns what it returned before.
\<close>

theorem finished_block_immutable:
  assumes "env_ok E C" "hash_len E" "sim E C T d v"
    and "\<forall>op\<in>set ops. op_wf op" "run_nodes (hash_node E) ops v \<subseteq> T"
    and "\<forall>op\<in>set ops. \<not> begins b op" "\<forall>ctx. current_block (tstate d) = Some ctx \<longrightarrow> bc_block_hash ctx \<noteq> b"
    and "root_for_blockhash E d b = Inr (Some r)"
  shows "\<exists>d'. run_ops E ops d = Some d' \<and> root_for_blockhash E d' b = Inr (Some r)
    \<and> (\<forall>k. get_at_root E (tdb d') r k = get_at_root E (tdb d) r k)"
proof -
  have lb: "leaves_block b v"
    using assms(3,7) by (auto simp: leaves_block_def sim_def state_rel_def block_rel_def option_rel_Some2)
  obtain d' where d': "run_ops E ops d = Some d'" "sim E C T d' (v_run (hash_node E) ops v)"
    using sim_run [OF assms(1-5)] by blast
  obtain t where t: "v_tree_of v b = Some t" "r = root_id (hash_node E) t"
    using sim_root_for [OF assms(1,3), of b] assms(8) by (cases "v_tree_of v b") auto
  have t': "v_tree_of (v_run (hash_node E) ops v) b = Some t"
    using v_run_roots [OF lb assms(6)] t(1) leaves_block_tree_of lb by metis
  have "get_at_root E (tdb d') r k = get_at_root E (tdb d) r k" for k
    using tree_at_get [OF assms(1) sim_tree_of [OF assms(1) d'(2) t']]
      tree_at_get [OF assms(1) sim_tree_of [OF assms(1,3) t(1)]] by (simp add: t(2))
  then show ?thesis using d'(1) sim_root_for [OF assms(1) d'(2), of b] t(2) t' by auto
qed

theorem finished_block_immutable_witness:
  "\<exists>r d'. root_for_blockhash mem_env block_db block_hash = Inr (Some r)
    \<and> run_ops mem_env [Rewind None, Reopen] block_db = Some d'
    \<and> root_for_blockhash mem_env d' block_hash = Inr (Some r)
    \<and> get_at_root mem_env (tdb d') r [1] = get_at_root mem_env (tdb block_db) r [1]"
proof -
  have "root_for_blockhash mem_env block_db block_hash = Inr (Some (root_id mem_hash one_entry))"
    using sim_root_for [OF mem_env_ok block_db_sim, of block_hash]
    by (simp add: block_versions_eq no_versions_def v_tree_of_def)
  with finished_block_immutable [OF mem_env_ok mem_hash_len block_db_sim, of "[Rewind None, Reopen]" block_hash]
  show ?thesis by (auto simp: block_db_idle)
qed

text \<open>
  C2. Every operation, error paths included: an operation started in a reachable state returns
  exactly the outcome of the specification (a block on an unknown parent, a rewind to a height or
  block that is not recorded), and the state afterwards is the specified one.
\<close>

theorem operation_outcome:
  assumes "env_ok E C" "hash_len E" "sim E C T d v" "op_wf op" "op_nodes (hash_node E) op v \<subseteq> T"
  shows "\<exists>d'. run_op E op d = Some (fst (v_op (hash_node E) op v), d')
    \<and> sim E C T d' (snd (v_op (hash_node E) op v))
    \<and> (\<forall>e. fst (v_op (hash_node E) op v) = Inl e \<longrightarrow> snd (v_op (hash_node E) op v) = v)"
proof -
  have "fst (v_op (hash_node E) op v) = Inl e \<Longrightarrow> snd (v_op (hash_node E) op v) = v" for e
    by (cases op) (auto simp: v_begin_def v_rewind_def split: option.splits sum.splits if_splits)
  then show ?thesis using sim_step [OF assms] by blast
qed

theorem operation_outcome_witness:
  "\<exists>d'. run_op mem_env (Rewind (Some 5)) block_db = Some (Inl (Missing_block_hash 5), d')"
  using operation_outcome [OF mem_env_ok mem_hash_len block_db_sim, of "Rewind (Some 5)"]
  by (auto simp: block_versions_eq no_versions_def v_rewind_def v_rewind_target_def)

text \<open>
  C17. The optimised batch (\<open>apply_batch\<close>: the changes sorted, only the last one of a key kept,
  nodes held in memory and flushed at the end) reads like the same changes written one by one.
\<close>

theorem batch_equals_writes:
  assumes "env_ok E C" "hash_len E" "sim E C T d v"
    and "run_nodes (hash_node E) [Batch cs] v \<subseteq> T"
    and "run_nodes (hash_node E) (map (\<lambda>(k, x). Write k x) cs) v \<subseteq> T"
  shows "\<exists>d1 d2. run_ops E [Batch cs] d = Some d1 \<and> run_ops E (map (\<lambda>(k, x). Write k x) cs) d = Some d2
    \<and> (\<forall>k. tree_get E d1 k = tree_get E d2 k)"
proof -
  let ?H = "hash_node E" and ?ws = "map (\<lambda>(k, x). Write k x) cs"
  have wf: "\<forall>op\<in>set ?ws. op_wf op" by auto
  obtain d1 where d1: "run_ops E [Batch cs] d = Some d1" "sim E C T d1 (v_run ?H [Batch cs] v)"
    using sim_run [OF assms(1-3) _ assms(4)] by auto
  obtain d2 where d2: "run_ops E ?ws d = Some d2" "sim E C T d2 (v_run ?H ?ws v)"
    using sim_run [OF assms(1-3) wf assms(5)] by auto
  have "map_of (t_live (v_visible (v_run ?H [Batch cs] v))) = map_of (t_live (v_visible (v_run ?H ?ws v)))"
    unfolding v_run_writes by (rule visible_batch) (rule sim_target_inv [OF assms(3)])
  then show ?thesis using d1 d2 sim_get [OF assms(1) d1(2)] sim_get [OF assms(1) d2(2)] by auto
qed

theorem batch_equals_writes_witness:
  "\<exists>d1 d2. run_ops mem_env [Batch [([1], Some [2])]] mem_fresh = Some d1
    \<and> run_ops mem_env [Write [1] (Some [2])] mem_fresh = Some d2
    \<and> (\<forall>k. tree_get mem_env d1 k = tree_get mem_env d2 k)"
proof -
  have "canonicalize [([1], Some [2])] = [([1], Some [2])]" by (simp add: canonicalize_eq keep_last_def)
  with batch_equals_writes [OF mem_env_ok mem_hash_len mem_fresh_sim, of "[([1], Some [2])]"]
  show ?thesis using small_write by simp
qed

text \<open>
  Abort: a block that is begun, written to and aborted leaves every read as it was, and no block
  is open.
\<close>

theorem abort_discards_block:
  assumes "env_ok E C" "hash_len E" "sim E C T d v" "begin_block E h b p d = Some (Inr (), d1)"
    and "length b = 32" "length p = 32" "\<forall>op\<in>set ops. is_change op"
    and "run_nodes (hash_node E) (Begin h b p # ops @ [Abort]) v \<subseteq> T"
  shows "\<exists>d'. run_ops E (Begin h b p # ops @ [Abort]) d = Some d'
    \<and> (\<forall>k. tree_get E d' k = tree_get E d k) \<and> current_block (tstate d') = None"
proof -
  let ?v' = "v_run (hash_node E) (Begin h b p # ops @ [Abort]) v"
  have wf: "\<forall>op\<in>set (Begin h b p # ops @ [Abort]). op_wf op"
    using assms(5-7) is_change_wf by auto
  obtain d' where d': "run_ops E (Begin h b p # ops @ [Abort]) d = Some d'" "sim E C T d' ?v'"
    using sim_run [OF assms(1-3) wf assms(8)] by blast
  have "fst (v_begin h b p v) = Inr ()"
    using sim_step [OF assms(1-3), of "Begin h b p"] assms(4-6) by auto
  then have v': "?v' = v\<lparr>v_current := None\<rparr>" by (rule v_run_abort [OF assms(7)])
  have "v_visible ?v' = v_visible v" unfolding v' by (simp add: v_visible_def split: option.split)
  moreover have "current_block (tstate d') = None" using d'(2) unfolding v' by (simp add: sim_def state_rel_def)
  ultimately show ?thesis using d' sim_get [OF assms(1) d'(2)] sim_get [OF assms(1,3)] by auto
qed

theorem abort_discards_block_witness:
  "\<exists>d'. run_ops mem_env [Begin 7 block_hash (replicate 32 0), Write [1] (Some [2]), Abort] mem_fresh = Some d'
    \<and> tree_get mem_env d' [1] = tree_get mem_env mem_fresh [1]"
proof -
  have begun: "\<exists>d1. begin_block mem_env 7 block_hash (replicate 32 0) mem_fresh = Some (Inr (), d1)"
    using sim_step [OF mem_env_ok mem_hash_len mem_fresh_sim, of "Begin 7 block_hash (replicate 32 0)"]
    by (auto simp: block_hash_def no_versions_def v_begin_def v_tree_of_def)
  have "run_nodes mem_hash [Begin 7 block_hash (replicate 32 0), Write [1] (Some [2]), Abort] no_versions \<subseteq> small_nodes"
    using small_write by (simp add: no_versions_def v_begin_def v_tree_of_def v_enter_def v_target_def)
  with begun abort_discards_block [OF mem_env_ok mem_hash_len mem_fresh_sim, of 7 block_hash "replicate 32 0" _ "[Write [1] (Some [2])]"]
  show ?thesis by (auto simp: block_hash_def)
qed

text \<open>
  C20. Pinning: after \<open>pin_active_root_until_height h\<close>, blocks up to height \<open>h\<close> can be begun, written,
  finished and aborted, and the database reopened, and every read still returns what it returned
  from the active root at the time of the pin.
\<close>

theorem pin_freezes_reads:
  assumes "env_ok E C" "hash_len E" "sim E C T d v"
    and "current_block (tstate d) = None" "pinned_root (tstate d) = None"
    and "\<forall>op\<in>set ops. op_wf op \<and> stays_pinned h op"
    and "run_nodes (hash_node E) (Pin h # ops) v \<subseteq> T"
  shows "\<exists>d'. run_ops E (Pin h # ops) d = Some d' \<and> (\<forall>k. tree_get E d' k = tree_get E d k)"
proof -
  let ?v' = "v_run (hash_node E) (Pin h # ops) v"
  have wf: "\<forall>op\<in>set (Pin h # ops). op_wf op" using assms(6) by auto
  obtain d' where d': "run_ops E (Pin h # ops) d = Some d'" "sim E C T d' ?v'"
    using sim_run [OF assms(1-3) wf assms(7)] by blast
  have "v_visible ?v' = v_visible v"
    using v_run_pinned [of ops h "v\<lparr>v_pin := Some (v_active v, h)\<rparr>" "v_active v" "hash_node E"] assms(6)
      sim_idle [OF assms(3-5)] by (simp add: v_visible_def)
  then show ?thesis using d' sim_get [OF assms(1) d'(2)] sim_get [OF assms(1,3)] by auto
qed

theorem pin_freezes_reads_witness:
  "\<exists>d'. run_ops mem_env (Pin 8 # block_ops) mem_fresh = Some d'
    \<and> tree_get mem_env d' [1] = tree_get mem_env mem_fresh [1]"
proof -
  have "run_nodes mem_hash (Pin 8 # block_ops) no_versions \<subseteq> small_nodes"
    using small_write
    by (simp add: block_ops_def no_versions_def v_begin_def v_tree_of_def v_enter_def v_target_def)
  then show ?thesis
    using pin_freezes_reads [OF mem_env_ok mem_hash_len mem_fresh_sim, of block_ops 8]
    by (auto simp: block_ops_def block_hash_def)
qed

text \<open>
  C19. Rewinding to height \<open>h\<close>: it succeeds when a block is indexed at \<open>h\<close> with a recorded root;
  afterwards every read returns what it returned at that root, that block is the active one, the
  index has no height above \<open>h\<close> and is unchanged up to \<open>h\<close>.
\<close>

theorem rewind_restores_block:
  assumes "env_ok E C" "hash_len E" "sim E C T d v"
    and "blockhash_for_height E (tdb d) h = Inr (Some b)" "root_for_blockhash E d b = Inr (Some r)"
  shows "\<exists>d'. rewind_to_height E (Some h) d = Some (Inr (), d')
    \<and> (\<forall>k. tree_get E d' k = get_at_root E (tdb d) r k) \<and> active_blockhash (tstate d') = Some b
    \<and> (\<forall>h'. blockhash_for_height E (tdb d') h' = (if h < h' then Inr None else blockhash_for_height E (tdb d) h'))"
  using rewind_reads [OF assms] by blast

theorem rewind_restores_block_witness:
  "\<exists>d'. rewind_to_height mem_env (Some 7) block_db = Some (Inr (), d') \<and> active_blockhash (tstate d') = Some block_hash"
proof -
  have "blockhash_for_height mem_env (tdb block_db) 7 = Inr (Some block_hash)"
    using sim_blockhash [OF mem_env_ok block_db_sim, of 7] by (simp add: block_versions_eq)
  moreover have "root_for_blockhash mem_env block_db block_hash = Inr (Some (root_id mem_hash one_entry))"
    using sim_root_for [OF mem_env_ok block_db_sim, of block_hash]
    by (simp add: block_versions_eq no_versions_def v_tree_of_def)
  ultimately show ?thesis
    using rewind_restores_block [OF mem_env_ok mem_hash_len block_db_sim, of 7 block_hash] by blast
qed

section \<open>One write, at the level of the nodes\<close>

text \<open>
  C18. Copy-on-write: a put or delete below a root (\<open>apply_single\<close>, with or without the nodes of a
  batch in memory) returns the root of a well-formed tree with that one key changed, all of whose
  nodes can be loaded, and leaves the tree of the old root in place, node for node.
\<close>

theorem apply_single_copy_on_write:
  assumes "env_ok E C" "collision_free E C s T" "backed E C s t" "t_inv t"
    and "tree_nodes (hash_node E) t \<subseteq> T" "tree_nodes (hash_node E) (t_apply (hash_node E) k x t) \<subseteq> T"
  shows "\<exists>t' s'. apply_single E (root_id (hash_node E) t) k x s = Some (Inr (root_id (hash_node E) t'), s')
    \<and> t_inv t' \<and> map_of (t_live t') = (map_of (t_live t))(k := x)
    \<and> backed E C s' t' \<and> backed E C s' t"
proof -
  have o: "ordered [] None t" using assms(4) by (simp add: t_inv_def)
  obtain s' where s': "apply_single E (root_id (hash_node E) t) k x s
      = Some (Inr (root_id (hash_node E) (t_apply (hash_node E) k x t)), s')"
    "extends E C s s'" "backed E C s' (t_apply (hash_node E) k x t)"
    using apply_single_produces [OF assms(1-3) o assms(5,6)] by (auto simp: produces_def)
  moreover have "backed E C s' t" using extends_backed [OF s'(2) assms(3)] .
  moreover have "t_inv (t_apply (hash_node E) k x t)" using bt.inv_apply1 [OF assms(4)] .
  ultimately show ?thesis using live_write [OF assms(4)] by blast
qed

theorem apply_single_copy_on_write_witness:
  "\<exists>t' s'. apply_single mem_env (root_id mem_hash empty_tree) [1] (Some [2]) (tdb mem_fresh, None)
      = Some (Inr (root_id mem_hash t'), s')
    \<and> map_of (t_live t') = [[1] \<mapsto> [2]] \<and> backed mem_env map_of s' empty_tree"
proof -
  have "collision_free mem_env map_of (tdb mem_fresh, None) small_nodes"
    "tree_at mem_env map_of small_nodes (tdb mem_fresh) (empty_root_id mem_env) empty_tree"
    using simD [OF mem_fresh_sim] by simp_all
  then show ?thesis
    using apply_single_copy_on_write [OF mem_env_ok, of "(tdb mem_fresh, None)" small_nodes empty_tree "[1]" "Some [2]"]
      small_write by (fastforce simp: tree_at_def denotes_def backed_direct nodes_empty mem_empty_live)
qed

section \<open>Scans\<close>

text \<open>
  C21. A range scan below a root returns, in ascending order and without duplicates, exactly the
  entries in the range that point reads at that root find.
\<close>

theorem range_scan_complete:
  assumes "env_ok E C" "denotes E C db root t"
  shows "\<exists>es. range_entries_at_root E db root lo hi = ok es \<and> sorted_wrt (<) (map fst es)
    \<and> (\<forall>k x. (k, x) \<in> set es \<longleftrightarrow> lo \<le> k \<and> below hi k \<and> get_at_root E db root k = ok (Some x))"
proof -
  note d = denotesD [OF assms(2)]
  have "(k, x) \<in> set (kv_range lo hi (t_live t)) \<longleftrightarrow> lo \<le> k \<and> below hi k \<and> get_at_root E db root k = ok (Some x)" for k x
    using denotes_get [OF assms] by (auto simp: kv_range_def)
  moreover have "sorted_wrt (<) (map fst (kv_range lo hi (t_live t)))"
    using bt.sorted_live [OF d(4)] by (simp add: kv_range_def sorted_wrt_map sorted_wrt_filter)
  ultimately show ?thesis using range_entries_live [OF assms(1) d(2,3)] d(1) by blast
qed

theorem range_scan_complete_witness:
  "\<exists>es. range_entries_at_root mem_env two_leaves_db (root_id mem_hash two_leaves) [2] (Some [7]) = ok es
    \<and> sorted_wrt (<) (map fst es)
    \<and> (\<forall>k x. (k, x) \<in> set es \<longleftrightarrow>
         [2] \<le> k \<and> below (Some [7]) k \<and> get_at_root mem_env two_leaves_db (root_id mem_hash two_leaves) k = ok (Some x))"
  using range_scan_complete [OF mem_env_ok two_leaves_denotes] .

text \<open>
  C22. A page of a range, forwards or backwards, is the slice \<open>offset .. offset + limit\<close> of the whole
  range in that direction: consecutive pages tile the range without a gap or an overlap. A limit whose
  buffer of 48 bytes per entry exceeds \<open>isize::MAX\<close> panics.
\<close>

theorem page_is_slice:
  assumes "env_ok E C" "denotes E C db root t"
  shows "\<exists>es. range_entries_at_root E db root lo hi = ok es
    \<and> (\<forall>offset limit. range_entries_page_at_root E db root lo hi offset limit False = with_capacity 48 limit (ok (take limit (drop offset es)))
      \<and> range_entries_page_at_root E db root lo hi offset limit True = with_capacity 48 limit (ok (take limit (drop offset (rev es)))))"
  using range_entries_live [OF assms(1) denotesD(2,3) [OF assms(2)]]
    page_live [OF assms(1) denotesD(2,3) [OF assms(2)]] denotesD(1) [OF assms(2)] by simp

theorem page_is_slice_witness:
  "range_entries_page_at_root mem_env two_leaves_db (root_id mem_hash two_leaves) [] None 1 2 True
     = ok [([3], [30]), ([1], [10])]"
  using page_is_slice [OF mem_env_ok two_leaves_denotes, of "[]" None]
    range_entries_live [OF mem_env_ok denotesD(2,3) [OF two_leaves_denotes], of "[]" None]
  by (auto simp: two_leaves_live kv_range_def below_def with_capacity_def)

text \<open>
  A prefix scan returns exactly the live entries whose key starts with the prefix, in ascending
  order, also for a prefix of 255 bytes only, which has no upper bound.
\<close>

theorem prefix_scan_complete:
  assumes "env_ok E C" "denotes E C db root t"
  shows "\<exists>es. collect_prefixed_entries_at_root E db root p = ok es \<and> sorted_wrt (<) (map fst es)
    \<and> (\<forall>k x. (k, x) \<in> set es \<longleftrightarrow> starts_with k p \<and> get_at_root E db root k = ok (Some x))
    \<and> collect_prefixed_keys_at_root E db root p = ok (map fst es)"
proof -
  note d = denotesD [OF assms(2)]
  let ?es = "filter (\<lambda>e. starts_with (fst e) p) (t_live t)"
  have "(k, x) \<in> set ?es \<longleftrightarrow> starts_with k p \<and> get_at_root E db root k = ok (Some x)" for k x
    using denotes_get [OF assms] by auto
  moreover have "sorted_wrt (<) (map fst ?es)"
    using bt.sorted_live [OF d(4)] by (simp add: sorted_wrt_map sorted_wrt_filter)
  ultimately show ?thesis
    using collect_prefixed_live [OF assms(1) d(2,3)] d(1) by (auto simp: collect_prefixed_keys_at_root_def)
qed

theorem prefix_scan_complete_witness:
  "\<exists>es. collect_prefixed_entries_at_root mem_env two_leaves_db (root_id mem_hash two_leaves) [3] = ok es
    \<and> collect_prefixed_keys_at_root mem_env two_leaves_db (root_id mem_hash two_leaves) [3] = ok (map fst es)"
  using prefix_scan_complete [OF mem_env_ok two_leaves_denotes, of "[3]"] by blast

text \<open>
  C23. The grouped descent of \<open>multi_get_at_root\<close> (keys sorted, one visit per node) returns the same
  values, in the order of the given keys and with repetitions, as one point read per key.
\<close>

theorem multi_get_equals_gets:
  assumes "env_ok E C" "denotes E C db root t"
  shows "\<exists>xs. multi_get_at_root E db root ks = ok xs \<and> map (get_at_root E db root) ks = map ok xs"
  using multi_get_at_root_live [OF assms(1) denotesD(2,3) [OF assms(2)], of ks]
    get_at_root_live [OF assms(1) denotesD(2,3) [OF assms(2)]] denotesD(1) [OF assms(2)] by simp

theorem multi_get_equals_gets_witness:
  "\<exists>xs. multi_get_at_root mem_env two_leaves_db (root_id mem_hash two_leaves) [[7], [2], [7]] = ok xs
    \<and> map (get_at_root mem_env two_leaves_db (root_id mem_hash two_leaves)) [[7], [2], [7]] = map ok xs"
  using multi_get_equals_gets [OF mem_env_ok two_leaves_denotes] .

section \<open>Indices and helpers\<close>

text \<open>
  C24. In a reachable state \<open>is_ancestor\<close> holds exactly if both blocks have a recorded height, the ancestor's is not
  above the descendant's, and walking the recorded parents from the descendant for the difference of the
  heights arrives at the ancestor.
\<close>

theorem is_ancestor_walks_parents:
  assumes "env_ok E C" "sim E C T d v"
  shows "is_ancestor E (tdb d) a b = Inr (\<exists>ha hb. height_for_blockhash E (tdb d) a = Inr (Some ha)
    \<and> height_for_blockhash E (tdb d) b = Inr (Some hb) \<and> ha \<le> hb
    \<and> nth_ancestor (\<lambda>x. case parent_for_blockhash E (tdb d) x of Inr p \<Rightarrow> p | Inl e \<Rightarrow> None) (unat hb - unat ha) b = Some a)"
proof (cases "height_for_blockhash E (tdb d) a = Inr None \<or> height_for_blockhash E (tdb d) b = Inr None")
  case True
  then show ?thesis using sim_height [OF assms, of a] sim_height [OF assms, of b]
    by (auto simp: is_ancestor_def split: option.split)
next
  case False
  then obtain ha hb where "height_for_blockhash E (tdb d) a = Inr (Some ha)" "height_for_blockhash E (tdb d) b = Inr (Some hb)"
    using sim_height [OF assms, of a] sim_height [OF assms, of b] by auto
  then show ?thesis
    using ancestor_loop_sim [OF assms, of ha hb b] sim_parent [OF assms] by (cases "ha \<le> hb") (auto simp: is_ancestor_def)
qed

theorem is_ancestor_walks_parents_witness:
  "\<exists>d. run_ops mem_env [Begin 8 (replicate 32 3) block_hash, Finish] block_db = Some d
    \<and> is_ancestor mem_env (tdb d) block_hash (replicate 32 3) = Inr True"
proof -
  let ?ops = "[Begin 8 (replicate 32 3) block_hash, Finish]" let ?v = "v_run mem_hash ?ops block_versions"
  have "run_nodes mem_hash ?ops block_versions \<subseteq> small_nodes" "\<forall>op\<in>set ?ops. op_wf op" by (simp_all add: block_hash_def)
  then obtain d where d: "run_ops mem_env ?ops block_db = Some d" "sim mem_env map_of small_nodes d ?v"
    using sim_run [OF mem_env_ok mem_hash_len block_db_sim, of ?ops] by auto
  have v: "v_block_heights ?v block_hash = Some 7" "v_block_heights ?v (replicate 32 3) = Some 8" "v_parents ?v (replicate 32 3) = Some block_hash"
    by (simp_all add: block_versions_eq no_versions_def block_hash_def v_begin_def v_tree_of_def v_enter_def v_finish_def)
  have n: "unat (8 :: u32) - unat (7 :: u32) = Suc 0" by simp
  have "is_ancestor mem_env (tdb d) block_hash (replicate 32 3) = Inr True"
    unfolding is_ancestor_walks_parents [OF mem_env_ok d(2)] sim_height [OF mem_env_ok d(2)] sim_parent [OF mem_env_ok d(2)]
    using v n by simp
  with d(1) show ?thesis by blast
qed

text \<open>
  \<open>indexed_height_bounds\<close>, which reads the first and the last key of the height index by two
  iterators, returns the least and the greatest indexed height.
\<close>

theorem height_bounds_min_max:
  assumes "env_ok E C"
  shows "indexed_height_bounds E db = Inr (if indexed_heights (C db) = {} then None
    else Some (Min (indexed_heights (C db)), Max (indexed_heights (C db))))"
  using indexed_height_bounds_eq [OF assms] .

theorem height_bounds_min_max_witness:
  "indexed_height_bounds mem_env [(height_block_key 3, [])] = Inr (Some (3, 3))"
proof -
  have "indexed_heights (map_of [(height_block_key 3, [])]) = {3}"
    by (auto simp: indexed_heights_def height_block_key_def dest: arg_cong [of _ _ u32_from_be_bytes])
  with height_bounds_min_max [OF mem_env_ok, of "[(height_block_key 3, [])]"] show ?thesis by simp
qed

text \<open>
  C25. \<open>prefix_end_exclusive\<close> bounds a prefix: a key starts with the prefix exactly when it is at
  least the prefix and below that bound (no bound when every byte is 255).
\<close>

theorem prefix_end_bounds_prefix:
  "starts_with k p \<longleftrightarrow> p \<le> k \<and> (case prefix_end_exclusive p of None \<Rightarrow> True | Some e \<Rightarrow> k < e)"
  using prefix_end_range by (simp add: below_def)

text \<open>
  The binary search over the separators of a node agrees with a linear scan for the first
  separator greater than the key.
\<close>

theorem child_index_is_linear_scan:
  assumes "sorted_wrt (<) ks"
  shows "child_index_for_key ks k = length (takeWhile (\<lambda>s. s \<le> k) ks)"
proof -
  let ?i = "child_index_for_key ks k"
  have "takeWhile (\<lambda>s. s \<le> k) ks = take ?i ks"
    using cs.search_left [OF assms] cs.search_right [OF assms order_refl, of k]
    by (intro takeWhile_eq_take_P_nth) (auto simp: not_le)
  then show ?thesis using cs.search_le [of ks k] by simp
qed

theorem child_index_is_linear_scan_witness: "child_index_for_key [[2], [5]] [5] = 2"
  using child_index_is_linear_scan [of "[[2], [5]]" "[5]"] by simp

end
