(* ===== verification/Tree_Frame.thy ===== *)
theory Tree_Frame
  imports Versioned_Store
begin

text \<open>
  What the tree database of \<^verbatim>\<open>src/runtime/tree_db.rs\<close> leaves alone: every operation writes only keys
  under \<open>ROOT_PREFIX\<close>, and the state of the tree does not depend on the other keys. So the
  namespaces that share the database with the tree and the tree do not disturb each other.
\<close>

section \<open>Frames of computations\<close>

text \<open>A computation that returns leaves the part \<open>p\<close> of the state as it was.\<close>

definition frames :: "('s \<Rightarrow> 'b) \<Rightarrow> ('s, 'e, 'a) comp \<Rightarrow> bool" where
  "frames p m \<longleftrightarrow> (\<forall>s r s'. m s = Some (r, s') \<longrightarrow> p s' = p s)"

lemma framesD: "frames p m \<Longrightarrow> m s = Some (r, s') \<Longrightarrow> p s' = p s"
  by (auto simp: frames_def)

lemma frames_ret: "frames p (ret a)"
  by (simp add: frames_def)

lemma frames_panic: "frames p panic"
  by (simp add: frames_def panic_def)

lemma frames_bindc: "frames p m \<Longrightarrow> (\<And>a. frames p (f a)) \<Longrightarrow> frames p (bindc m f)"
  unfolding frames_def bindc_def by (fastforce split: option.splits sum.splits)

lemma frames_bindcD: "bindc m f s = Some y \<Longrightarrow> frames p m \<Longrightarrow> (\<And>a. frames p (f a)) \<Longrightarrow> p (snd y) = p s"
  using framesD [OF frames_bindc, of p m f s "fst y" "snd y"] by simp

lemma frames_if: "frames p f \<Longrightarrow> frames p g \<Longrightarrow> frames p (\<lambda>s. if c then f s else g s)"
  by (simp add: frames_def)

lemmas frames_intros = frames_if frames_bindc frames_ret frames_panic

section \<open>The keys outside the tree\<close>

definition outside :: "('db \<Rightarrow> bytes \<rightharpoonup> bytes) \<Rightarrow> 'db \<Rightarrow> bytes \<rightharpoonup> bytes" where
  "outside C db = (\<lambda>k. if is_tree_internal_key k then None else C db k)"

lemma outside_put:
  "env_ok E C \<Longrightarrow> is_tree_internal_key k \<Longrightarrow> outside C (snd (db_put E db k v)) = outside C db"
  by (auto simp: outside_def env_simps)

fun op_key :: "batch_op \<Rightarrow> bytes" where
  "op_key (BPut k v) = k"
| "op_key (BDelete k) = k"

lemma fold_batch_effect_other:
  "\<forall>op\<in>set ops. op_key op \<noteq> k \<Longrightarrow> fold batch_effect ops m k = m k"
proof (induction ops arbitrary: m)
  case (Cons op ops)
  then show ?case by (cases op) auto
qed simp

lemma outside_write:
  assumes "env_ok E C" "\<forall>op\<in>set ops. is_tree_internal_key (op_key op)"
  shows "outside C (snd (db_write E db ops)) = outside C db"
proof
  fix k
  have "\<not> is_tree_internal_key k \<Longrightarrow> \<forall>op\<in>set ops. op_key op \<noteq> k" using assms(2) by blast
  then show "outside C (snd (db_write E db ops)) k = outside C db k"
    by (simp add: outside_def env_ok_write [OF assms(1)] fold_batch_effect_other)
qed

lemma outside_writeD:
  "db_write E db ops = (r, db') \<Longrightarrow> env_ok E C \<Longrightarrow> \<forall>op\<in>set ops. is_tree_internal_key (op_key op) \<Longrightarrow>
   outside C db' = outside C db"
  using outside_write [of E C ops db] by simp

lemma is_tree_internal_key_more [simp]:
  "is_tree_internal_key (block_height_key h)" "is_tree_internal_key (block_parent_key h)"
  "is_tree_internal_key META_ACTIVE_BLOCK" "is_tree_internal_key META_PINNED_ROOT"
  "is_tree_internal_key META_PIN_UNTIL_HEIGHT"
  by (simp_all add: is_tree_internal_key_def starts_with_def key_defs prefix_defs)

section \<open>Nodes\<close>

lemma frames_load: "frames (\<lambda>s. outside C (fst s)) (load_node_with_ctx E i)"
  by (auto simp: frames_def load_node_with_ctx_def split: option.splits)

lemma frames_store: "env_ok E C \<Longrightarrow> frames (\<lambda>s. outside C (fst s)) (store_node_with_ctx E n)"
  using outside_put [of E C "node_key (hash_node E n)"]
  by (auto simp: frames_def store_node_with_ctx_def Let_def split: option.splits sum.splits)

lemma frames_mutate_node:
  assumes "env_ok E C"
  shows "frames (\<lambda>s. outside C (fst s)) (mutate_node E i k v)"
proof -
  let ?p = "\<lambda>s. outside C (fst s)"
  have "env_ok E C \<longrightarrow> ?p (snd y) = ?p s" if "mutate_node E i k v s = Some y" for s y
    apply (rule mutate_node.raw_induct [where P = "\<lambda>E i k v s y. env_ok E C \<longrightarrow> ?p (snd y) = ?p s", OF _ that])
    subgoal premises prems for mutate E i k v s y
    proof
      assume E: "env_ok E C"
      note st = frames_store [OF E]
      have rec: "frames ?p (mutate E c k v)" for c using prems(1) E by (fastforce simp: frames_def)
      show "?p (snd y) = ?p s"
        apply (rule frames_bindcD [OF prems(2)], rule frames_load)
        subgoal for node
          by (cases node; simp only: Let_def bptree_node.case; (rule frames_intros rec st)+)
        done
    qed
    done
  then show ?thesis using assms by (auto simp: frames_def)
qed

lemma frames_apply_single: "env_ok E C \<Longrightarrow> frames (\<lambda>s. outside C (fst s)) (apply_single E root k v)"
  unfolding apply_single_def
  by (rule frames_bindc, erule frames_mutate_node) (auto split: mutation_outcome.split intro: frames_ret frames_store)

section \<open>Operations of the tree database\<close>

lemma frames_on_db: "frames p m \<Longrightarrow> frames (\<lambda>d. p (tdb d)) (on_db m)"
  by (fastforce simp: frames_def on_db_def)

lemma frames_on_state: "frames (\<lambda>d. p (tdb d)) (on_state f)"
  by (simp add: frames_def on_state_def)

lemma flush_loop_internal:
  "\<forall>op\<in>set wb. is_tree_internal_key (op_key op) \<Longrightarrow>
   \<forall>op\<in>set (fst (flush_loop E pend stack visited wb n)). is_tree_internal_key (op_key op)"
  by (induction E pend stack visited wb n rule: flush_loop.induct)
    (auto simp: flush_loop.simps split: option.splits if_splits)

lemma frames_flush: "env_ok E C \<Longrightarrow> frames (outside C) (flush_pending_batch_nodes E root ctx)"
  by (auto simp: frames_def flush_pending_batch_nodes_def Let_def elim!: outside_writeD intro!: flush_loop_internal)

lemma frames_compact:
  assumes E: "env_ok E C"
  shows "frames (\<lambda>s. outside C (fst s)) (maybe_compact_batch_nodes E root)"
  unfolding frames_def
proof (intro allI impI)
  fix s r s' assume "maybe_compact_batch_nodes E root s = Some (r, s')"
  then consider "fst s' = fst s"
    | ctx r where "flush_pending_batch_nodes E root ctx (fst s) = Some (r, fst s')"
    by (auto simp: maybe_compact_batch_nodes_def Let_def split: if_splits option.splits sum.splits prod.splits)
  then show "outside C (fst s') = outside C (fst s)"
    by cases (use framesD [OF frames_flush [OF E]] in simp_all)
qed

lemma frames_in_batch:
  "frames (\<lambda>s. p (fst s)) m \<Longrightarrow> frames (\<lambda>s. p (fst s)) (in_batch m)"
  by (fastforce simp: frames_def in_batch_def split: option.splits prod.splits)

lemma frames_batch_loop: "env_ok E C \<Longrightarrow> frames (\<lambda>s. outside C (fst s)) (batch_loop E root cs)"
  by (induction E root cs rule: batch_loop.induct)
    (auto intro!: frames_bindc frames_ret frames_in_batch frames_apply_single frames_compact)

lemma frames_run_batch:
  assumes E: "env_ok E C"
  shows "frames (outside C) (run_batch E root cs)"
  unfolding frames_def
proof (intro allI impI)
  fix db r db' assume run: "run_batch E root cs db = Some (r, db')"
  then obtain r1 s where loop: "batch_loop E root cs (db, default_batch) = Some (r1, s)"
    by (auto simp: run_batch_def split: option.splits)
  have "outside C (fst s) = outside C db" using framesD [OF frames_batch_loop [OF E] loop] by simp
  moreover have "outside C db' = outside C (fst s)"
    using run loop framesD [OF frames_bindc [OF frames_flush [OF E] frames_ret]]
    by (auto simp: run_batch_def split: sum.splits)
  ultimately show "outside C db' = outside C db" by simp
qed

lemma active_ops_internal: "\<forall>op\<in>set (active_ops st). is_tree_internal_key (op_key op)"
  by (auto simp: active_ops_def split: option.splits)

text \<open>The write of the active root that ends a change outside a block.\<close>

lemma frames_save:
  "env_ok E C \<Longrightarrow> frames (\<lambda>d. outside C (tdb d)) (\<lambda>d. on_db (\<lambda>db. Some (db_write E db (active_ops (tstate d)))) d)"
  using outside_write [OF _ active_ops_internal] by (fastforce simp: frames_def on_db_def)

lemma frames_change:
  assumes E: "env_ok E C" and m: "\<And>root. frames (outside C) (m root)"
  shows "frames (\<lambda>d. outside C (tdb d)) (\<lambda>d. case current_block (tstate d) of
      Some ctx \<Rightarrow> bindc (on_db (m (working_root ctx))) (\<lambda>root. on_state (set_working_root root)) d
    | None \<Rightarrow> bindc (on_db (m (st_active_root (tstate d)))) (\<lambda>root.
        bindc (on_state (\<lambda>st. st\<lparr>st_active_root := root\<rparr>)) (\<lambda>_ d.
          on_db (\<lambda>db. Some (db_write E db (active_ops (tstate d)))) d)) d)"
proof -
  let ?p = "\<lambda>d. outside C (tdb d)"
  have "frames ?p (bindc (on_db (m root)) (\<lambda>root. on_state (set_working_root root)))" for root
    by (intro frames_bindc frames_on_db m frames_on_state)
  moreover have "frames ?p (bindc (on_db (m root)) (\<lambda>root. bindc (on_state (\<lambda>st. st\<lparr>st_active_root := root\<rparr>))
      (\<lambda>_ d. on_db (\<lambda>db. Some (db_write E db (active_ops (tstate d)))) d)))" for root
    by (intro frames_bindc frames_on_db m frames_on_state frames_save [OF E])
  ultimately show ?thesis by (simp add: frames_def split: option.split)
qed

lemma frames_apply_mutation:
  assumes E: "env_ok E C"
  shows "frames (\<lambda>d. outside C (tdb d)) (apply_mutation E k v)"
proof -
  have "frames (outside C) (\<lambda>db. map_option (\<lambda>rs. (fst rs, fst (snd rs))) (apply_single E root k v (db, None)))" for root
    using framesD [OF frames_apply_single [OF E]] by (fastforce simp: frames_def)
  from frames_change [OF E this] show ?thesis unfolding frames_def apply_mutation_def Let_def .
qed

lemma frames_apply_batch_owned:
  assumes E: "env_ok E C"
  shows "frames (\<lambda>d. outside C (tdb d)) (apply_batch_owned E cs)"
  using frames_change [OF E frames_run_batch [OF E, of _ "canonicalize cs"]]
  unfolding frames_def apply_batch_owned_def Let_def by (auto split: if_splits)

section \<open>The tree does not depend on the other keys\<close>

text \<open>Two databases that agree under \<open>ROOT_PREFIX\<close>.\<close>

definition same_inside :: "('db \<Rightarrow> bytes \<rightharpoonup> bytes) \<Rightarrow> 'db \<Rightarrow> 'db \<Rightarrow> bool" where
  "same_inside C db db' \<longleftrightarrow> (\<forall>k. is_tree_internal_key k \<longrightarrow> C db' k = C db k)"

lemma starts_with_trans: "starts_with k p \<Longrightarrow> starts_with p q \<Longrightarrow> starts_with k q"
  by (auto simp: starts_with_iff)

lemma sim_same_inside:
  assumes same: "same_inside C (tdb d) db'" and sim: "sim E C T d v"
  shows "sim E C T (d\<lparr>tdb := db'\<rparr>) v"
proof -
  have eq: "C db' k = C (tdb d) k" if "is_tree_internal_key k" for k using same that by (simp add: same_inside_def)
  have nd: "db_node E C db' = db_node E C (tdb d)" by (simp add: fun_eq_iff db_node_def eq)
  have st: "stored E C db' = stored E C (tdb d)" by (simp add: fun_eq_iff stored_def nd)
  have ta: "tree_at E C T db' = tree_at E C T (tdb d)" by (simp add: fun_eq_iff tree_at_def denotes_def st)
  have cf: "collision_free E C (db', None) T = collision_free E C (tdb d, None) T"
    by (simp add: collision_free_def nd eq pending_def)
  have hk: "is_tree_internal_key k" if "starts_with k HEIGHT_BLOCK_PREFIX" for k
    unfolding is_tree_internal_key_def
    by (rule starts_with_trans [OF that]) (simp add: starts_with_def prefix_defs)
  have ix: "index_rel E C T db' v = index_rel E C T (tdb d) v" using hk by (auto simp: index_rel_def ta eq)
  have "block_rel E C T db' = block_rel E C T (tdb d)" by (simp add: fun_eq_iff block_rel_def ta)
  then have "state_rel E C T db' (tstate d) v = state_rel E C T (tdb d) (tstate d) v"
    by (simp add: state_rel_def ta)
  moreover have "durable E (C db') (tstate d) = durable E (C (tdb d)) (tstate d)"
    by (simp add: durable_def eq)
  ultimately show ?thesis using sim by (simp add: sim_def ta cf ix)
qed

end
