(* ===== verification/Mdb.thy ===== *)
theory Mdb
  imports Tree_Frame Store_Observations
begin

text \<open>
  The namespaced key-value handle of \<^verbatim>\<open>src/runtime/mdb.rs\<close>.

  An \<open>Mdb\<close> is a prefix over one RocksDB database, which it shares with the versioned tree: the
  handles of the versioned namespaces read and write through the tree, the others directly, and
  the null handle of client mode has no database. The world of the operations is the database
  and the state of the global tree, if it was initialised (on the same database, as
  \<^verbatim>\<open>src/config.rs\<close> does). \<open>None\<close> as a result is a panic or a call that does not return.
\<close>

section \<open>Handles\<close>

datatype mdb_store = Local | Null

record mdb =
  mstore :: mdb_store
  mprefix :: bytes
  mversioned :: bool

record 'db world =
  wdb :: 'db
  wtree :: "tree_state option"

definition should_enable_versioned_namespace :: "bytes \<Rightarrow> bool" where
  "should_enable_versioned_namespace p \<longleftrightarrow> p \<in> set [ascii ''essentials:'', ascii ''ammdata:'',
     ascii ''tokendata:'', ascii ''subfrost:'', ascii ''pizzafun:'', ascii ''oylapi:'',
     ascii ''explorerextensions:'']"

definition from_parts :: "bytes \<Rightarrow> bool \<Rightarrow> mdb" where
  "from_parts p v = \<lparr>mstore = Local, mprefix = p, mversioned = v\<rparr>"

definition mdb_null :: "bytes \<Rightarrow> mdb" where
  "mdb_null p = \<lparr>mstore = Null, mprefix = p, mversioned = False\<rparr>"

definition is_null :: "mdb \<Rightarrow> bool" where
  "is_null m \<longleftrightarrow> mstore m = Null"

definition local_db :: "mdb \<Rightarrow> 'db world \<Rightarrow> 'db option" where
  "local_db m w = (case mstore m of Local \<Rightarrow> Some (wdb w) | Null \<Rightarrow> None)"

definition from_db :: "bytes \<Rightarrow> mdb" where
  "from_db p = from_parts p (should_enable_versioned_namespace p)"

definition clone_with_prefix :: "mdb \<Rightarrow> bytes \<Rightarrow> mdb" where
  "clone_with_prefix m p = (case mstore m of
       Local \<Rightarrow> from_parts p (should_enable_versioned_namespace p)
     | Null \<Rightarrow> mdb_null p)"

definition prefixed :: "mdb \<Rightarrow> bytes \<Rightarrow> bytes" where
  "prefixed m k = mprefix m @ k"

definition versioned_manager :: "mdb \<Rightarrow> 'db world \<Rightarrow> 'db tree_db option" where
  "versioned_manager m w = (if \<not> mversioned m \<or> is_null m then None
     else map_option (\<lambda>st. \<lparr>tdb = wdb w, tstate = st\<rparr>) (wtree w))"

definition is_versioned :: "mdb \<Rightarrow> 'db world \<Rightarrow> bool" where
  "is_versioned m w \<longleftrightarrow> versioned_manager m w \<noteq> None"

section \<open>Reads\<close>

text \<open>A read of the local database; the null handle panics.\<close>

definition on_local :: "mdb \<Rightarrow> 'db world \<Rightarrow> ('db \<Rightarrow> rocks_error + 'a) \<Rightarrow> (rocks_error, 'a) reader" where
  "on_local m w f = map_option f (local_db m w)"

definition mdb_get :: "('db, 'z) env_scheme \<Rightarrow> mdb \<Rightarrow> 'db world \<Rightarrow> bytes \<Rightarrow> (rocks_error, bytes option) reader" where
  "mdb_get E m w k =
     (if is_null m then ok None
      else let full = prefixed m k in
      case versioned_manager m w of
        Some tree \<Rightarrow> if is_tree_internal_key full then on_local m w (\<lambda>db. db_get E db full)
          else tree_get E tree full
      | None \<Rightarrow> on_local m w (\<lambda>db. db_get E db full))"

definition mdb_get_at_blockhash ::
  "('db, 'z) env_scheme \<Rightarrow> mdb \<Rightarrow> 'db world \<Rightarrow> bytes \<Rightarrow> bytes \<Rightarrow> (rocks_error, bytes option) reader" where
  "mdb_get_at_blockhash E m w block_hash k =
     (if is_null m then ok None
      else let full = prefixed m k in
      case versioned_manager m w of
        Some tree \<Rightarrow> bindr (Some (root_for_blockhash E tree block_hash)) (\<lambda>root. case root of
            Some root \<Rightarrow> get_at_root E (tdb tree) root full
          | None \<Rightarrow> ok None)
      | None \<Rightarrow> on_local m w (\<lambda>db. db_get E db full))"

text \<open>
  The entries of the namespace with the prefix of the handle removed: the loop over what the tree
  returned.
\<close>

fun relative :: "bytes \<Rightarrow> kvs \<Rightarrow> kvs" where
  "relative p [] = []"
| "relative p ((key, value) # rest) =
     (if starts_with key p then (drop (length p) key, value) # relative p rest else relative p rest)"

fun relative_keys :: "bytes \<Rightarrow> bytes list \<Rightarrow> bytes list" where
  "relative_keys p [] = []"
| "relative_keys p (key # rest) =
     (if starts_with key p then drop (length p) key # relative_keys p rest else relative_keys p rest)"

text \<open>
  The loop over an iterator of the local database: it ends at the first key \<open>stop\<close> holds of, and
  \<open>item\<close> is what is kept of an entry of the namespace.
\<close>

fun iter_loop ::
  "(bytes \<Rightarrow> bool) \<Rightarrow> bytes \<Rightarrow> (bytes \<Rightarrow> bytes \<Rightarrow> 'a) \<Rightarrow> (rocks_error + bytes \<times> bytes) list \<Rightarrow> 'a list \<Rightarrow> rocks_error + 'a list" where
  "iter_loop stop p item [] out = Inr out"
| "iter_loop stop p item (Inl e # rest) out = Inl e"
| "iter_loop stop p item (Inr (key, value) # rest) out =
     (if stop key then Inr out
      else iter_loop stop p item rest
        (if starts_with key p then out @ [item (drop (length p) key) value] else out))"

definition scan_prefix_entries ::
  "('db, 'z) env_scheme \<Rightarrow> mdb \<Rightarrow> 'db world \<Rightarrow> bytes \<Rightarrow> (rocks_error, kvs) reader" where
  "scan_prefix_entries E m w p =
     (if is_null m then ok []
      else let ns_prefix = prefixed m p in
      case versioned_manager m w of
        Some tree \<Rightarrow> bindr (collect_prefixed_entries E tree ns_prefix) (\<lambda>entries. ok (relative (mprefix m) entries))
      | None \<Rightarrow> on_local m w (\<lambda>db. iter_loop (\<lambda>key. \<not> starts_with key ns_prefix) (mprefix m) Pair
          (db_iterator E db (IterFrom ns_prefix Forward)) []))"

definition scan_prefix_entries_at_blockhash ::
  "('db, 'z) env_scheme \<Rightarrow> mdb \<Rightarrow> 'db world \<Rightarrow> bytes \<Rightarrow> bytes \<Rightarrow> (rocks_error, kvs) reader" where
  "scan_prefix_entries_at_blockhash E m w block_hash p =
     (if is_null m then ok []
      else let ns_prefix = prefixed m p in
      case versioned_manager m w of
        Some tree \<Rightarrow> bindr (Some (root_for_blockhash E tree block_hash)) (\<lambda>root. case root of
            None \<Rightarrow> ok []
          | Some root \<Rightarrow> bindr (collect_prefixed_entries_at_root E (tdb tree) root ns_prefix) (\<lambda>entries.
              ok (relative (mprefix m) entries)))
      | None \<Rightarrow> scan_prefix_entries E m w p)"

definition scan_range_entries ::
  "('db, 'z) env_scheme \<Rightarrow> mdb \<Rightarrow> 'db world \<Rightarrow> bytes \<Rightarrow> bytes option \<Rightarrow> (rocks_error, kvs) reader" where
  "scan_range_entries E m w start_inclusive end_exclusive =
     (if is_null m then ok []
      else let ns_start = prefixed m start_inclusive; ns_end = map_option (prefixed m) end_exclusive in
      case versioned_manager m w of
        Some tree \<Rightarrow> bindr (range_entries E tree ns_start ns_end) (\<lambda>entries. ok (relative (mprefix m) entries))
      | None \<Rightarrow> on_local m w (\<lambda>db. iter_loop (\<lambda>key. case ns_end of Some e \<Rightarrow> key \<ge> e | None \<Rightarrow> False) (mprefix m) Pair
          (db_iterator E db (IterFrom ns_start Forward)) []))"

definition scan_range_entries_at_blockhash ::
  "('db, 'z) env_scheme \<Rightarrow> mdb \<Rightarrow> 'db world \<Rightarrow> bytes \<Rightarrow> bytes \<Rightarrow> bytes option \<Rightarrow> (rocks_error, kvs) reader" where
  "scan_range_entries_at_blockhash E m w block_hash start_inclusive end_exclusive =
     (if is_null m then ok []
      else let ns_start = prefixed m start_inclusive; ns_end = map_option (prefixed m) end_exclusive in
      case versioned_manager m w of
        Some tree \<Rightarrow> bindr (Some (root_for_blockhash E tree block_hash)) (\<lambda>root. case root of
            None \<Rightarrow> ok []
          | Some root \<Rightarrow> bindr (range_entries_at_root E (tdb tree) root ns_start ns_end) (\<lambda>entries.
              ok (relative (mprefix m) entries)))
      | None \<Rightarrow> scan_range_entries E m w start_inclusive end_exclusive)"

text \<open>The loop of \<open>scan_range_entries_page_unversioned\<close>; the state is the number skipped and the output.\<close>

fun unversioned_page_loop ::
  "bytes \<Rightarrow> bytes option \<Rightarrow> bytes \<Rightarrow> nat \<Rightarrow> nat \<Rightarrow> bool \<Rightarrow> (rocks_error + bytes \<times> bytes) list \<Rightarrow> nat \<Rightarrow> kvs \<Rightarrow> rocks_error + kvs" where
  "unversioned_page_loop ns_start ns_end p offset limit reverse [] skipped out = Inr out"
| "unversioned_page_loop ns_start ns_end p offset limit reverse (Inl e # rest) skipped out = Inl e"
| "unversioned_page_loop ns_start ns_end p offset limit reverse (Inr (key, value) # rest) skipped out =
     (let past_end = (case ns_end of Some e \<Rightarrow> key \<ge> e | None \<Rightarrow> False);
          next_entry = unversioned_page_loop ns_start ns_end p offset limit reverse rest in
      if (if reverse then key < ns_start else past_end) then Inr out
      else if (reverse \<and> past_end) \<or> \<not> starts_with key p then next_entry skipped out
      else if skipped < offset then next_entry (skipped + 1) out
      else let out = out @ [(drop (length p) key, value)] in
        if length out \<ge> limit then Inr out else next_entry skipped out)"

definition scan_range_entries_page_unversioned ::
  "('db, 'z) env_scheme \<Rightarrow> mdb \<Rightarrow> 'db world \<Rightarrow> bytes \<Rightarrow> bytes option \<Rightarrow> nat \<Rightarrow> nat \<Rightarrow> bool \<Rightarrow> (rocks_error, kvs) reader" where
  "scan_range_entries_page_unversioned E m w ns_start ns_end offset limit reverse =
     (if limit = 0 then ok []
      else let md = (if reverse then (case ns_end of Some e \<Rightarrow> IterFrom e Reverse | None \<Rightarrow> IterEnd)
            else IterFrom ns_start Forward) in
        with_capacity 48 limit (on_local m w (\<lambda>db. unversioned_page_loop ns_start ns_end (mprefix m) offset limit reverse
          (db_iterator E db md) 0 [])))"

definition scan_range_entries_page ::
  "('db, 'z) env_scheme \<Rightarrow> mdb \<Rightarrow> 'db world \<Rightarrow> bytes \<Rightarrow> bytes option \<Rightarrow> nat \<Rightarrow> nat \<Rightarrow> bool \<Rightarrow> (rocks_error, kvs) reader" where
  "scan_range_entries_page E m w start_inclusive end_exclusive offset limit reverse =
     (if is_null m then ok []
      else let ns_start = prefixed m start_inclusive; ns_end = map_option (prefixed m) end_exclusive in
      case versioned_manager m w of
        Some tree \<Rightarrow> bindr (range_entries_page_at_root E (tdb tree) (active_root (tstate tree)) ns_start ns_end offset limit reverse)
          (\<lambda>entries. ok (relative (mprefix m) entries))
      | None \<Rightarrow> scan_range_entries_page_unversioned E m w ns_start ns_end offset limit reverse)"

definition scan_range_entries_page_at_blockhash ::
  "('db, 'z) env_scheme \<Rightarrow> mdb \<Rightarrow> 'db world \<Rightarrow> bytes \<Rightarrow> bytes \<Rightarrow> bytes option \<Rightarrow> nat \<Rightarrow> nat \<Rightarrow> bool \<Rightarrow> (rocks_error, kvs) reader" where
  "scan_range_entries_page_at_blockhash E m w block_hash start_inclusive end_exclusive offset limit reverse =
     (if is_null m then ok []
      else let ns_start = prefixed m start_inclusive; ns_end = map_option (prefixed m) end_exclusive in
      case versioned_manager m w of
        Some tree \<Rightarrow> bindr (Some (root_for_blockhash E tree block_hash)) (\<lambda>root. case root of
            None \<Rightarrow> ok []
          | Some root \<Rightarrow> bindr (range_entries_page_at_root E (tdb tree) root ns_start ns_end offset limit reverse)
              (\<lambda>entries. ok (relative (mprefix m) entries)))
      | None \<Rightarrow> scan_range_entries_page_unversioned E m w ns_start ns_end offset limit reverse)"

definition scan_prefix_keys ::
  "('db, 'z) env_scheme \<Rightarrow> mdb \<Rightarrow> 'db world \<Rightarrow> bytes \<Rightarrow> (rocks_error, bytes list) reader" where
  "scan_prefix_keys E m w p =
     (if is_null m then ok []
      else let ns_prefix = prefixed m p in
      case versioned_manager m w of
        Some tree \<Rightarrow> bindr (collect_prefixed_keys E tree ns_prefix) (\<lambda>keys. ok (relative_keys (mprefix m) keys))
      | None \<Rightarrow> on_local m w (\<lambda>db. iter_loop (\<lambda>key. \<not> starts_with key ns_prefix) (mprefix m) (\<lambda>key value. key)
          (db_iterator E db (IterFrom ns_prefix Forward)) []))"

definition scan_prefix_keys_at_blockhash ::
  "('db, 'z) env_scheme \<Rightarrow> mdb \<Rightarrow> 'db world \<Rightarrow> bytes \<Rightarrow> bytes \<Rightarrow> (rocks_error, bytes list) reader" where
  "scan_prefix_keys_at_blockhash E m w block_hash p =
     (if is_null m then ok []
      else let ns_prefix = prefixed m p in
      case versioned_manager m w of
        Some tree \<Rightarrow> bindr (Some (root_for_blockhash E tree block_hash)) (\<lambda>root. case root of
            None \<Rightarrow> ok []
          | Some root \<Rightarrow> bindr (collect_prefixed_keys_at_root E (tdb tree) root ns_prefix) (\<lambda>keys.
              ok (relative_keys (mprefix m) keys)))
      | None \<Rightarrow> scan_prefix_keys E m w p)"

text \<open>The loop over the results of \<open>rocksdb::DB::multi_get\<close>.\<close>

fun collect_results :: "(rocks_error + 'a) list \<Rightarrow> 'a list \<Rightarrow> rocks_error + 'a list" where
  "collect_results [] out = Inr out"
| "collect_results (Inr x # rest) out = collect_results rest (out @ [x])"
| "collect_results (Inl e # rest) out = Inl e"

definition mdb_multi_get ::
  "('db, 'z) env_scheme \<Rightarrow> mdb \<Rightarrow> 'db world \<Rightarrow> bytes list \<Rightarrow> (rocks_error, bytes option list) reader" where
  "mdb_multi_get E m w keys =
     (if is_null m then ok (replicate (length keys) None)
      else let prefixed_keys = map (prefixed m) keys in
      case versioned_manager m w of
        Some tree \<Rightarrow> multi_get E tree prefixed_keys
      | None \<Rightarrow> on_local m w (\<lambda>db. collect_results (db_multi_get E db prefixed_keys) []))"

definition mdb_multi_get_at_blockhash ::
  "('db, 'z) env_scheme \<Rightarrow> mdb \<Rightarrow> 'db world \<Rightarrow> bytes \<Rightarrow> bytes list \<Rightarrow> (rocks_error, bytes option list) reader" where
  "mdb_multi_get_at_blockhash E m w block_hash keys =
     (if is_null m then ok (replicate (length keys) None)
      else case versioned_manager m w of
        Some tree \<Rightarrow> bindr (Some (root_for_blockhash E tree block_hash)) (\<lambda>root. case root of
            None \<Rightarrow> ok (replicate (length keys) None)
          | Some root \<Rightarrow> multi_get_at_root E (tdb tree) root (map (prefixed m) keys))
      | None \<Rightarrow> mdb_multi_get E m w keys)"

text \<open>\<open>iter_from\<close>: the items the iterator yields, with full keys.\<close>

definition iter_from ::
  "('db, 'z) env_scheme \<Rightarrow> mdb \<Rightarrow> 'db world \<Rightarrow> bytes \<Rightarrow> (rocks_error + bytes \<times> bytes) list option" where
  "iter_from E m w start =
     (if is_null m then Some []
      else case versioned_manager m w of
        Some tree \<Rightarrow>
          let start_full = prefixed m start in
          map_option (\<lambda>r. let entries = (case r of Inr es \<Rightarrow> es | Inl e \<Rightarrow> []) in
              map Inr (filter (\<lambda>e. fst e \<ge> start_full) entries))
            (collect_prefixed_entries E tree (mprefix m))
      | None \<Rightarrow> map_option (\<lambda>db. db_iterator E db (IterFrom (prefixed m start) Forward)) (local_db m w))"

fun count_loop :: "bytes \<Rightarrow> (rocks_error + bytes \<times> bytes) list \<Rightarrow> nat \<Rightarrow> rocks_error + nat" where
  "count_loop ns [] count = Inr count"
| "count_loop ns (Inl e # rest) count = Inl e"
| "count_loop ns (Inr (k, v) # rest) count =
     (if \<not> starts_with k ns then Inr count else count_loop ns rest (count + 1))"

definition warm_up_namespace ::
  "('db, 'z) env_scheme \<Rightarrow> mdb \<Rightarrow> 'db world \<Rightarrow> (rocks_error, nat) reader" where
  "warm_up_namespace E m w =
     (if is_null m \<or> versioned_manager m w \<noteq> None then ok 0
      else on_local m w (\<lambda>db. count_loop (mprefix m) (db_iterator E db (IterFrom (mprefix m) Forward)) 0))"

section \<open>Writes\<close>

text \<open>A write through the tree, and one to the local database.\<close>

definition on_tree :: "('db tree_db, 'e, 'a) comp \<Rightarrow> 'db tree_db \<Rightarrow> (('e + 'a) \<times> 'db world) option" where
  "on_tree c tree = map_option (\<lambda>rs. (fst rs, \<lparr>wdb = tdb (snd rs), wtree = Some (tstate (snd rs))\<rparr>)) (c tree)"

definition to_local :: "mdb \<Rightarrow> ('db \<Rightarrow> ('e + unit) \<times> 'db) \<Rightarrow> ('db world, 'e, unit) comp" where
  "to_local m f w = map_option (\<lambda>db. let r = f db in (fst r, w\<lparr>wdb := snd r\<rparr>)) (local_db m w)"

definition mdb_put :: "('db, 'z) env_scheme \<Rightarrow> mdb \<Rightarrow> bytes \<Rightarrow> bytes \<Rightarrow> ('db world, rocks_error, unit) comp" where
  "mdb_put E m k v w =
     (if is_null m then ret () w
      else let full = prefixed m k in
      case versioned_manager m w of
        Some tree \<Rightarrow> if is_tree_internal_key full then to_local m (\<lambda>db. db_put E db full v) w
          else on_tree (tree_put E full v) tree
      | None \<Rightarrow> to_local m (\<lambda>db. db_put E db full v) w)"

definition mdb_delete :: "('db, 'z) env_scheme \<Rightarrow> mdb \<Rightarrow> bytes \<Rightarrow> ('db world, rocks_error, unit) comp" where
  "mdb_delete E m k w =
     (if is_null m then ret () w
      else let full = prefixed m k in
      case versioned_manager m w of
        Some tree \<Rightarrow> if is_tree_internal_key full then to_local m (\<lambda>db. db_delete E db full) w
          else on_tree (tree_delete E full) tree
      | None \<Rightarrow> to_local m (\<lambda>db. db_delete E db full) w)"

text \<open>
  \<open>MdbBatch\<close>. The closure of \<open>bulk_write\<close> is the list of the calls it makes on the batch.
\<close>

record mdb_batch =
  mb_mdb :: mdb
  mb_wb :: "batch_op list option"
  versioned_changes :: "change list option"

definition batch_put :: "bytes \<Rightarrow> bytes \<Rightarrow> mdb_batch \<Rightarrow> mdb_batch" where
  "batch_put k v mb = (let key = prefixed (mb_mdb mb) k in
     case versioned_changes mb of
       Some buf \<Rightarrow> mb\<lparr>versioned_changes := Some (buf @ [(key, Some v)])\<rparr>
     | None \<Rightarrow> (case mb_wb mb of
           Some wb \<Rightarrow> mb\<lparr>mb_wb := Some (wb @ [BPut key v])\<rparr>
         | None \<Rightarrow> mb))"

definition batch_delete :: "bytes \<Rightarrow> mdb_batch \<Rightarrow> mdb_batch" where
  "batch_delete k mb = (let key = prefixed (mb_mdb mb) k in
     case versioned_changes mb of
       Some buf \<Rightarrow> mb\<lparr>versioned_changes := Some (buf @ [(key, None)])\<rparr>
     | None \<Rightarrow> (case mb_wb mb of
           Some wb \<Rightarrow> mb\<lparr>mb_wb := Some (wb @ [BDelete key])\<rparr>
         | None \<Rightarrow> mb))"

datatype batch_call = Call_put bytes bytes | Call_delete bytes

fun run_call :: "batch_call \<Rightarrow> mdb_batch \<Rightarrow> mdb_batch" where
  "run_call (Call_put k v) mb = batch_put k v mb"
| "run_call (Call_delete k) mb = batch_delete k mb"

definition bulk_write ::
  "('db, 'z) env_scheme \<Rightarrow> mdb \<Rightarrow> batch_call list \<Rightarrow> ('db world, rocks_error, unit) comp" where
  "bulk_write E m build w =
     (if is_null m then ret () w
      else case versioned_manager m w of
        Some tree \<Rightarrow>
          let mb = fold run_call build \<lparr>mb_mdb = m, mb_wb = None, versioned_changes = Some []\<rparr> in
          on_tree (apply_batch_owned E (case versioned_changes mb of Some cs \<Rightarrow> cs | None \<Rightarrow> [])) tree
      | None \<Rightarrow>
          let mb = fold run_call build \<lparr>mb_mdb = m, mb_wb = Some [], versioned_changes = None\<rparr> in
          to_local m (\<lambda>db. db_write E db (case mb_wb mb of Some wb \<Rightarrow> wb | None \<Rightarrow> [])) w)"

end
