(* ===== verification/Mdb_Namespace.thy ===== *)
theory Mdb_Namespace
  imports Mdb
begin

text \<open>
  What an \<open>Mdb\<close> handle promises: it behaves as an ordered map of its own, the \<open>namespace\<close>, whether
  it reads through the versioned tree or directly, and the namespaces do not disturb each other.
\<close>

section \<open>Keys under a prefix\<close>

lemma starts_with_append_same [simp]: "starts_with (p @ s) (p @ q) \<longleftrightarrow> starts_with s q"
  by (auto simp: starts_with_iff)

lemma starts_with_appendD: "starts_with k (p @ q) \<Longrightarrow> starts_with k p"
  by (auto simp: starts_with_iff)

lemma append_le_append [simp]: "p @ xs \<le> p @ ys \<longleftrightarrow> xs \<le> (ys :: bytes)"
  by (metis append_less_append not_less)

lemma starts_with_between:
  assumes "p @ lo \<le> k" "k < p @ hi"
  shows "starts_with k p"
  using assms
proof (induction p arbitrary: k)
  case (Cons b p)
  then show ?case by (cases k) (auto simp: starts_with_def)
qed (simp add: starts_with_def)

lemma relative_eq:
  "relative p L = map (\<lambda>e. (drop (length p) (fst e), snd e)) (filter (\<lambda>e. starts_with (fst e) p) L)"
  by (induction p L rule: relative.induct) auto

lemma relative_keys_eq: "relative_keys p (map fst L) = map fst (relative p L)"
  by (induction p L rule: relative.induct) auto

lemma relative_append [simp]: "relative p (xs @ ys) = relative p xs @ relative p ys"
  by (simp add: relative_eq)

lemma relative_rev: "relative p (rev L) = rev (relative p L)"
  by (simp add: relative_eq rev_map rev_filter)

lemma map_of_relative: "map_of (relative p L) k = map_of L (p @ k)"
proof (induction p L rule: relative.induct)
  case (2 p key x rest)
  then show ?case by (cases "starts_with key p") (auto simp: starts_with_iff)
qed simp

lemma relative_filter:
  assumes "\<And>s. Q (p @ s) \<longleftrightarrow> R s"
  shows "relative p (filter (\<lambda>e. Q (fst e)) L) = filter (\<lambda>e. R (fst e)) (relative p L)"
  using assms by (induction p L rule: relative.induct) (auto simp: starts_with_iff)

lemma relative_prefix:
  "relative p (filter (\<lambda>e. starts_with (fst e) (p @ q)) L) = filter (\<lambda>e. starts_with (fst e) q) (relative p L)"
  by (rule relative_filter) simp

lemma relative_range:
  "relative p (kv_range (p @ lo) (map_option ((@) p) hi) L) = kv_range lo hi (relative p L)"
  unfolding kv_range_def by (rule relative_filter) (simp add: below_def split: option.split)

lemma relative_range_prefixed:
  "relative (mprefix m) (kv_range (prefixed m lo) (map_option (prefixed m) hi) L) = kv_range lo hi (relative (mprefix m) L)"
proof -
  have "prefixed m = (@) (mprefix m)" by (simp add: fun_eq_iff prefixed_def)
  then show ?thesis by (simp add: relative_range)
qed

lemma sorted_relative: "sorted_kvs L \<Longrightarrow> sorted_kvs (relative p L)"
  by (induction p L rule: relative.induct) (auto simp: starts_with_iff relative_eq)

text \<open>The part of a range with an upper bound that a page cuts out lies in the namespace.\<close>

lemma relative_all: "\<forall>e\<in>set L. starts_with (fst e) p \<Longrightarrow> relative p L = map (\<lambda>e. (drop (length p) (fst e), snd e)) L"
  by (simp add: relative_eq)

lemma relative_slice:
  assumes "\<forall>e\<in>set L. starts_with (fst e) p"
  shows "relative p (take n (drop i L)) = take n (drop i (relative p L))"
proof -
  have "\<forall>e\<in>set (take n (drop i L)). starts_with (fst e) p"
    using assms by (meson in_set_dropD in_set_takeD)
  then show ?thesis using assms by (simp add: relative_all take_map drop_map)
qed

section \<open>Loops over the local database\<close>

lemma iter_loop_eq:
  "iter_loop stop p item (map Inr L) out
     = Inr (out @ map (\<lambda>e. item (fst e) (snd e)) (relative p (takeWhile (\<lambda>e. \<not> stop (fst e)) L)))"
proof (induction L arbitrary: out)
  case (Cons e L)
  then show ?case by (cases e) simp
qed simp

lemma collect_results_eq: "collect_results (map Inr xs) out = Inr (out @ xs)"
  by (induction xs arbitrary: out) simp_all

lemma count_loop_eq:
  "count_loop ns (map Inr L) n = Inr (n + length (takeWhile (\<lambda>e. starts_with (fst e) ns) L))"
proof (induction L arbitrary: n)
  case (Cons e L)
  then show ?case by (cases e) simp
qed simp

lemma unversioned_page_loop_eq:
  assumes "length out < limit" "skipped \<le> offset"
  shows "unversioned_page_loop lo hi p offset limit rv (map Inr L) skipped out
    = Inr (out @ take (limit - length out) (drop (offset - skipped) (relative p
        (filter (\<lambda>e. rv \<longrightarrow> below hi (fst e))
          (takeWhile (\<lambda>e. if rv then lo \<le> fst e else below hi (fst e)) L)))))"
  using assms
proof (induction L arbitrary: skipped out)
  case (Cons e L)
  obtain k x where e: "e = (k, x)" by (cases e)
  have past: "(case hi of None \<Rightarrow> False | Some e \<Rightarrow> e \<le> k) \<longleftrightarrow> \<not> below hi k"
    by (simp add: below_def not_less split: option.split)
  show ?case
  proof (cases "(if rv then lo \<le> k else below hi k) \<and> (rv \<longrightarrow> below hi k) \<and> starts_with k p")
    case False
    then show ?thesis using Cons by (cases rv; cases "lo \<le> k"; cases "below hi k") (simp_all add: e past not_less Let_def)
  next
    case True
    show ?thesis
    proof (cases "skipped < offset")
      case True': True
      then have "offset - skipped = Suc (offset - Suc skipped)" by simp
      with True True' Cons show ?thesis by (cases rv) (simp_all add: e past leD Let_def)
    next
      case False
      show ?thesis
      proof (cases "limit = Suc (length out)")
        case True': True
        then show ?thesis using True False Cons.prems by (cases rv) (simp_all add: e past leD Let_def)
      next
        case False': False
        then have "limit - length out = Suc (limit - Suc (length out))" using Cons.prems by simp
        with True False False' Cons show ?thesis by (cases rv) (simp_all add: e past leD Let_def)
      qed
    qed
  qed
qed simp

section \<open>The namespace of a handle\<close>

text \<open>A handle as the constructors build it.\<close>

definition mdb_wf :: "mdb \<Rightarrow> bool" where
  "mdb_wf m \<longleftrightarrow> (mversioned m \<longrightarrow> should_enable_versioned_namespace (mprefix m))"

lemma mdb_wf_constructors [simp]:
  "mdb_wf (from_db p)" "mdb_wf (mdb_null p)" "mdb_wf (clone_with_prefix m p)"
  by (auto simp: mdb_wf_def from_db_def from_parts_def mdb_null_def clone_with_prefix_def split: mdb_store.split)

lemma versioned_not_internal: "mdb_wf m \<Longrightarrow> mversioned m \<Longrightarrow> \<not> is_tree_internal_key (prefixed m k)"
  by (auto simp: mdb_wf_def should_enable_versioned_namespace_def is_tree_internal_key_def starts_with_def
      prefixed_def prefix_defs)

text \<open>The tree of the world, if it was opened, is in a reachable state.\<close>

definition world_sim ::
  "('db, 'z) env_scheme \<Rightarrow> ('db \<Rightarrow> bytes \<rightharpoonup> bytes) \<Rightarrow> bptree_node set \<Rightarrow> 'db world \<Rightarrow> versions \<Rightarrow> bool" where
  "world_sim E C T w v \<longleftrightarrow> (\<forall>st. wtree w = Some st \<longrightarrow> sim E C T \<lparr>tdb = wdb w, tstate = st\<rparr> v)"

text \<open>The entries a handle reads, over all namespaces, and its own.\<close>

definition through_tree :: "mdb \<Rightarrow> 'db world \<Rightarrow> bool" where
  "through_tree m w \<longleftrightarrow> mversioned m \<and> wtree w \<noteq> None"

definition surface :: "('db \<Rightarrow> bytes \<rightharpoonup> bytes) \<Rightarrow> mdb \<Rightarrow> 'db world \<Rightarrow> versions \<Rightarrow> kvs" where
  "surface C m w v = (if is_null m then [] else if through_tree m w then t_live (v_visible v)
     else map_entries (C (wdb w)))"

definition namespace :: "('db \<Rightarrow> bytes \<rightharpoonup> bytes) \<Rightarrow> mdb \<Rightarrow> 'db world \<Rightarrow> versions \<Rightarrow> kvs" where
  "namespace C m w v = relative (mprefix m) (surface C m w v)"

lemma versioned_manager_cases:
  assumes "world_sim E C T w v" "\<not> is_null m"
  obtains d where "through_tree m w" "versioned_manager m w = Some d" "sim E C T d v" "tdb d = wdb w"
      "wtree w = Some (tstate d)"
    | "\<not> through_tree m w" "versioned_manager m w = None"
proof (cases "through_tree m w")
  case True
  then obtain st where "wtree w = Some st" "mversioned m" by (auto simp: through_tree_def)
  then show ?thesis
    using that(1) [of "\<lparr>tdb = wdb w, tstate = st\<rparr>"] assms True by (simp add: versioned_manager_def world_sim_def)
next
  case False
  then show ?thesis using that(2) by (simp add: versioned_manager_def through_tree_def)
qed

lemma map_of_map_entries: "finite (dom m) \<Longrightarrow> map_of (map_entries m) k = m k"
  using set_map_entries [of m k] sorted_map_entries [of m]
  by (cases "m k") (auto simp: map_of_eq_None_iff strict_sorted_iff set_map_entries intro!: map_of_is_SomeI)

lemma on_local_eq [simp]: "\<not> is_null m \<Longrightarrow> on_local m w f = Some (f (wdb w))"
  by (simp add: on_local_def local_db_def is_null_def split: mdb_store.split)

lemma sorted_surface:
  assumes "world_sim E C T w v"
  shows "sorted_kvs (surface C m w v)"
proof (cases "is_null m")
  case False
  from assms False show ?thesis
  proof (cases rule: versioned_manager_cases)
    case (1 d)
    then show ?thesis using bt.sorted_live [OF tree_atD(4) [OF sim_visible [OF 1(3)]]] False by (simp add: surface_def)
  next
    case 2
    then show ?thesis using False by (simp add: surface_def sorted_map_entries)
  qed
qed (simp add: surface_def)

lemma sorted_namespace: "world_sim E C T w v \<Longrightarrow> sorted_kvs (namespace C m w v)"
  unfolding namespace_def by (rule sorted_relative [OF sorted_surface])

text \<open>What the tree returns for the root it reads at.\<close>

lemma sim_scans:
  assumes "env_ok E C" "sim E C T d v"
  shows "collect_prefixed_entries E d p = ok (filter (\<lambda>e. starts_with (fst e) p) (t_live (v_visible v)))"
    and "collect_prefixed_keys E d p = ok (map fst (filter (\<lambda>e. starts_with (fst e) p) (t_live (v_visible v))))"
    and "range_entries E d lo hi = ok (kv_range lo hi (t_live (v_visible v)))"
    and "range_entries_page_at_root E (tdb d) (active_root (tstate d)) lo hi offset limit rv
      = with_capacity 48 limit (ok (take limit (drop offset ((if rv then rev else id) (kv_range lo hi (t_live (v_visible v)))))))"
    and "multi_get E d ks = ok (map (map_of (t_live (v_visible v))) ks)"
  using tree_atD [OF sim_visible [OF assms(2)]] collect_prefixed_live [OF assms(1)] range_entries_live [OF assms(1)]
    page_live [OF assms(1)] multi_get_at_root_live [OF assms(1)]
  by (simp_all add: collect_prefixed_entries_def collect_prefixed_keys_def collect_prefixed_keys_at_root_def
      range_entries_def multi_get_def)

section \<open>Reads\<close>

lemma mdb_get_namespace:
  assumes "env_ok E C" "world_sim E C T w v" "mdb_wf m"
  shows "mdb_get E m w k = ok (map_of (namespace C m w v) k)"
proof (cases "is_null m")
  case False
  from assms(2) False show ?thesis
  proof (cases rule: versioned_manager_cases)
    case (1 d)
    then show ?thesis
      using False sim_get [OF assms(1) 1(3)] versioned_not_internal [OF assms(3)]
      by (simp add: mdb_get_def namespace_def map_of_relative surface_def through_tree_def prefixed_def)
  next
    case 2
    then show ?thesis
      using False by (simp add: mdb_get_def namespace_def map_of_relative surface_def prefixed_def
          map_of_map_entries env_simps [OF assms(1)] ok_def)
  qed
qed (simp add: mdb_get_def namespace_def surface_def)

lemma scan_prefix_entries_namespace:
  assumes "env_ok E C" "world_sim E C T w v"
  shows "scan_prefix_entries E m w p = ok (filter (\<lambda>e. starts_with (fst e) p) (namespace C m w v))"
proof (cases "is_null m")
  case False
  from assms(2) False show ?thesis
  proof (cases rule: versioned_manager_cases)
    case (1 d)
    then show ?thesis
      using False by (simp add: scan_prefix_entries_def sim_scans [OF assms(1) 1(3)] namespace_def surface_def
          prefixed_def relative_prefix)
  next
    case 2
    then show ?thesis
      using False prefixed_takeWhile [OF sorted_map_entries]
      by (simp add: scan_prefix_entries_def env_simps [OF assms(1)] iter_loop_eq namespace_def surface_def
          prefixed_def relative_prefix ok_def)
  qed
qed (simp add: scan_prefix_entries_def namespace_def surface_def)

lemma scan_prefix_keys_namespace:
  assumes "env_ok E C" "world_sim E C T w v"
  shows "scan_prefix_keys E m w p = ok (map fst (filter (\<lambda>e. starts_with (fst e) p) (namespace C m w v)))"
proof (cases "is_null m")
  case False
  from assms(2) False show ?thesis
  proof (cases rule: versioned_manager_cases)
    case (1 d)
    then show ?thesis
      using False by (simp add: scan_prefix_keys_def sim_scans [OF assms(1) 1(3)] namespace_def surface_def
          prefixed_def relative_keys_eq relative_prefix)
  next
    case 2
    then show ?thesis
      using False prefixed_takeWhile [OF sorted_map_entries]
      by (simp add: scan_prefix_keys_def env_simps [OF assms(1)] iter_loop_eq namespace_def surface_def
          prefixed_def relative_prefix ok_def)
  qed
qed (simp add: scan_prefix_keys_def namespace_def surface_def)

lemma range_takeWhile:
  assumes "sorted_kvs L"
  shows "takeWhile (\<lambda>e. below hi (fst e)) (filter (\<lambda>e. lo \<le> fst e) L) = kv_range lo hi L"
proof -
  have "sorted_wrt (\<lambda>x y. fst x < fst y) (filter (\<lambda>e. lo \<le> fst e) L)"
    using sorted_wrt_less_filter [OF assms] by (simp add: sorted_wrt_map)
  then have "takeWhile (\<lambda>e. below hi (fst e)) (filter (\<lambda>e. lo \<le> fst e) L)
      = filter (\<lambda>e. below hi (fst e)) (filter (\<lambda>e. lo \<le> fst e) L)"
    by (rule takeWhile_eq_filter) (auto intro: below_trans less_imp_le)
  then show ?thesis by (simp add: kv_range_def conj_commute)
qed

lemma scan_range_entries_namespace:
  assumes "env_ok E C" "world_sim E C T w v"
  shows "scan_range_entries E m w lo hi = ok (kv_range lo hi (namespace C m w v))"
proof (cases "is_null m")
  case False
  note rel = relative_range_prefixed
  from assms(2) False show ?thesis
  proof (cases rule: versioned_manager_cases)
    case (1 d)
    then show ?thesis
      using False by (simp add: scan_range_entries_def sim_scans [OF assms(1) 1(3)] namespace_def surface_def rel)
  next
    case 2
    have stop: "(\<lambda>e. \<not> (case hi' of None \<Rightarrow> False | Some e' \<Rightarrow> e' \<le> fst e)) = (\<lambda>e. below hi' (fst e))" for hi'
      by (auto simp: below_def not_le split: option.split)
    show ?thesis
      using False 2 range_takeWhile [OF sorted_map_entries]
      by (simp add: scan_range_entries_def env_simps [OF assms(1)] iter_loop_eq namespace_def surface_def stop rel ok_def)
  qed
qed (simp add: scan_range_entries_def namespace_def surface_def kv_range_def)

lemma mdb_multi_get_namespace:
  assumes "env_ok E C" "world_sim E C T w v"
  shows "mdb_multi_get E m w ks = ok (map (map_of (namespace C m w v)) ks)"
proof (cases "is_null m")
  case False
  from assms(2) False show ?thesis
  proof (cases rule: versioned_manager_cases)
    case (1 d)
    then show ?thesis
      using False by (simp add: mdb_multi_get_def sim_scans [OF assms(1) 1(3)] namespace_def surface_def
          map_of_relative prefixed_def)
  next
    case 2
    have "db_multi_get E (wdb w) (map (prefixed m) ks) = map Inr (map (map_of (namespace C m w v)) ks)"
      using False 2 by (simp add: env_simps [OF assms(1)] namespace_def surface_def map_of_relative prefixed_def
          map_of_map_entries)
    then show ?thesis
      using False 2 by (simp add: mdb_multi_get_def collect_results_eq ok_def del: map_map)
  qed
qed (simp add: mdb_multi_get_def namespace_def surface_def map_replicate_const)

text \<open>
  A page. Through the tree the entries of other namespaces beyond the end of this one are counted
  before they are dropped, so a page backwards without an upper bound is excluded here.
\<close>

lemma kv_range_prefixed:
  assumes "hi \<noteq> None"
  shows "\<forall>e\<in>set (kv_range (prefixed m lo) (map_option (prefixed m) hi) L). starts_with (fst e) (mprefix m)"
  using assms starts_with_between by (auto simp: kv_range_def below_def prefixed_def split: option.splits)

lemma takeWhile_rev_range:
  assumes "sorted_kvs L"
  shows "filter (\<lambda>e. below hi (fst e)) (takeWhile (\<lambda>e. lo \<le> fst e) (rev L)) = rev (kv_range lo hi L)"
proof -
  have "sorted_wrt (\<lambda>x y. fst y < fst x) (rev L)" using assms by (simp add: sorted_wrt_map sorted_wrt_rev)
  then have "takeWhile (\<lambda>e. lo \<le> fst e) (rev L) = filter (\<lambda>e. lo \<le> fst e) (rev L)"
    by (rule takeWhile_eq_filter) auto
  then show ?thesis by (simp add: kv_range_def rev_filter conj_commute)
qed

lemma unversioned_page_namespace:
  assumes "env_ok E C" "\<not> is_null m"
  shows "scan_range_entries_page_unversioned E m w (prefixed m lo) (map_option (prefixed m) hi) offset limit rv
    = with_capacity 48 limit (ok (take limit (drop offset ((if rv then rev else id)
        (kv_range lo hi (relative (mprefix m) (map_entries (C (wdb w)))))))))"
proof -
  let ?L = "map_entries (C (wdb w))" and ?lo = "prefixed m lo" and ?hi = "map_option (prefixed m) hi"
  have upper: "filter (\<lambda>e. below (Some e') (fst e)) (takeWhile (\<lambda>e. ?lo \<le> fst e) (rev (filter (\<lambda>e. fst e \<le> e') ?L)))
      = rev (kv_range ?lo (Some e') ?L)" for e'
    using takeWhile_rev_range [OF sorted_wrt_less_filter [OF sorted_map_entries], of "Some e'" ?lo "\<lambda>e. fst e \<le> e'"]
    by (simp add: kv_range_def below_def conj_commute conj_left_commute less_imp_le cong: conj_cong)
  show ?thesis
    using assms(2) takeWhile_rev_range [OF sorted_map_entries, of None ?lo] upper
      range_takeWhile [OF sorted_map_entries, of ?hi ?lo "C (wdb w)"]
    by (cases hi) (simp_all add: scan_range_entries_page_unversioned_def env_simps [OF assms(1)] Let_def
        unversioned_page_loop_eq relative_rev relative_range_prefixed [symmetric] ok_def below_def)
qed

end
