(* ===== verification/Mdb_Writes.thy ===== *)
theory Mdb_Writes
  imports Mdb_Namespace
begin

text \<open>
  Pages of a namespace, reads at a block, and the effect of the writes of an \<open>Mdb\<close> handle on the
  reads of every handle over the same database.
\<close>

section \<open>Pages\<close>

text \<open>Forwards from a key of the namespace, its entries come first.\<close>

lemma relative_slice_prefix:
  assumes "\<forall>e\<in>set A. starts_with (fst e) p" "\<forall>e\<in>set B. \<not> starts_with (fst e) p"
  shows "relative p (take n (drop i (A @ B))) = take n (drop i (relative p (A @ B)))"
proof -
  have "relative p (take m (drop j B)) = []" for m j
    using assms(2) by (auto simp: relative_eq filter_empty_conv dest!: in_set_takeD in_set_dropD)
  moreover have "relative p B = []" using assms(2) by (simp add: relative_eq filter_empty_conv)
  moreover have "length (relative p A) = length A" using assms(1) by (simp add: relative_all)
  ultimately show ?thesis using relative_slice [OF assms(1)] by simp
qed

lemma kv_range_forward_split:
  assumes "sorted_kvs L"
  obtains A B where "kv_range (p @ lo) None L = A @ B" "\<forall>e\<in>set A. starts_with (fst e) p"
    "\<forall>e\<in>set B. \<not> starts_with (fst e) p"
proof -
  let ?L = "kv_range (p @ lo) None L" and ?P = "\<lambda>e. starts_with (fst e) p"
  have "starts_with x p" if "p @ lo \<le> x" "x < y" "starts_with y p" for x y
    using that starts_with_between [of p lo x] by (auto simp: starts_with_iff)
  moreover have "sorted_wrt (\<lambda>x y. fst x < fst y) ?L" "\<forall>e\<in>set ?L. p @ lo \<le> fst e"
    using assms by (auto simp: kv_range_def sorted_wrt_map sorted_wrt_filter)
  ultimately have "takeWhile ?P ?L = filter ?P ?L"
    by (intro takeWhile_eq_filter [where R = "\<lambda>x y. fst x < fst y \<and> p @ lo \<le> fst x"])
      (auto simp: sorted_wrt_iff_nth_less)
  moreover have "filter ?P ?L = filter ?P (takeWhile ?P ?L) @ filter ?P (dropWhile ?P ?L)"
    by (metis filter_append takeWhile_dropWhile_id)
  moreover have "filter ?P (takeWhile ?P ?L) = takeWhile ?P ?L" by (auto simp: filter_id_conv dest: set_takeWhileD)
  ultimately have "filter ?P (dropWhile ?P ?L) = []" by (metis append_self_conv)
  then have drop: "\<forall>e\<in>set (dropWhile ?P ?L). \<not> ?P e" unfolding filter_empty_conv .
  have "\<forall>e\<in>set (takeWhile ?P ?L). ?P e" by (auto dest: set_takeWhileD)
  from that [OF takeWhile_dropWhile_id [symmetric] this drop] show ?thesis .
qed

lemma page_through_tree:
  assumes "sorted_kvs L" "hi \<noteq> None \<or> \<not> rv"
  shows "relative (mprefix m) (take limit (drop offset ((if rv then rev else id)
      (kv_range (prefixed m lo) (map_option (prefixed m) hi) L))))
    = take limit (drop offset ((if rv then rev else id) (kv_range lo hi (relative (mprefix m) L))))"
proof (cases "hi = None")
  case True
  obtain A B where "kv_range (mprefix m @ lo) None L = A @ B" "\<forall>e\<in>set A. starts_with (fst e) (mprefix m)"
    "\<forall>e\<in>set B. \<not> starts_with (fst e) (mprefix m)" using kv_range_forward_split [OF assms(1)] .
  note split = this
  have "relative (mprefix m) (take limit (drop offset (kv_range (mprefix m @ lo) None L)))
      = take limit (drop offset (relative (mprefix m) (kv_range (mprefix m @ lo) None L)))"
    unfolding split(1) by (rule relative_slice_prefix [OF split(2,3)])
  then show ?thesis
    using True assms(2) relative_range_prefixed [of m lo None L] by (simp add: prefixed_def)
next
  case False
  have "\<forall>e\<in>set ((if rv then rev else id) (kv_range (prefixed m lo) (map_option (prefixed m) hi) L)). starts_with (fst e) (mprefix m)"
    using kv_range_prefixed [OF False] by auto
  from relative_slice [OF this] show ?thesis
    by (simp add: relative_rev relative_range_prefixed)
qed

lemma scan_page_namespace:
  assumes "env_ok E C" "world_sim E C T w v" "\<not> is_null m" "through_tree m w \<longrightarrow> hi \<noteq> None \<or> \<not> rv"
  shows "scan_range_entries_page E m w lo hi offset limit rv
    = with_capacity 48 limit (ok (take limit (drop offset ((if rv then rev else id) (kv_range lo hi (namespace C m w v))))))"
  using assms(2,3)
proof (cases rule: versioned_manager_cases)
  case (1 d)
  then show ?thesis
    using assms(3,4) page_through_tree [of "t_live (v_visible v)" hi rv m limit offset lo] sorted_surface [OF assms(2), of m]
    by (simp add: scan_range_entries_page_def sim_scans [OF assms(1) 1(3), unfolded 1(4)] 1(4) namespace_def surface_def Let_def)
next
  case 2
  then show ?thesis
    using assms(3) by (simp add: scan_range_entries_page_def unversioned_page_namespace [OF assms(1,3)]
        namespace_def surface_def Let_def)
qed

section \<open>Reads at a block\<close>

text \<open>The namespace as it was after a block: the tree recorded for it; nothing for an unknown block.\<close>

definition block_namespace ::
  "('db \<Rightarrow> bytes \<rightharpoonup> bytes) \<Rightarrow> mdb \<Rightarrow> 'db world \<Rightarrow> versions \<Rightarrow> bytes \<Rightarrow> kvs" where
  "block_namespace C m w v b = (if \<not> is_null m \<and> through_tree m w
     then relative (mprefix m) (case v_tree_of v b of Some t \<Rightarrow> t_live t | None \<Rightarrow> [])
     else namespace C m w v)"

lemma root_cases:
  assumes "env_ok E C" "sim E C T d v"
  obtains "root_for_blockhash E d b = Inr None" "v_tree_of v b = None"
  | t where "root_for_blockhash E d b = Inr (Some (root_id (hash_node E) t))" "v_tree_of v b = Some t"
      "stored E C (tdb d) t" "ordered [] None t" "t_inv t"
  using sim_root_for [OF assms, of b] tree_atD [OF sim_tree_of [OF assms, of b]]
  by (cases "v_tree_of v b") auto

lemma get_at_blockhash_namespace:
  assumes "env_ok E C" "world_sim E C T w v" "mdb_wf m"
  shows "mdb_get_at_blockhash E m w b k = ok (map_of (block_namespace C m w v b) k)"
proof (cases "is_null m")
  case False
  from assms(2) False show ?thesis
  proof (cases rule: versioned_manager_cases)
    case (1 d)
    from assms(1) 1(3) show ?thesis
    proof (cases rule: root_cases [where b = b])
      case (2 t)
      then show ?thesis
        using False 1 get_at_root_live [OF assms(1) 2(3,4)]
        by (simp add: mdb_get_at_blockhash_def block_namespace_def map_of_relative prefixed_def)
    qed (use False 1 in \<open>simp add: mdb_get_at_blockhash_def block_namespace_def\<close>)
  next
    case 2
    then show ?thesis
      using False mdb_get_namespace [OF assms, of k]
      by (simp add: mdb_get_at_blockhash_def mdb_get_def block_namespace_def)
  qed
qed (use mdb_get_namespace [OF assms, of k] in \<open>simp add: mdb_get_at_blockhash_def mdb_get_def block_namespace_def\<close>)

lemma scan_prefix_at_blockhash_namespace:
  assumes "env_ok E C" "world_sim E C T w v"
  shows "scan_prefix_entries_at_blockhash E m w b p
    = ok (filter (\<lambda>e. starts_with (fst e) p) (block_namespace C m w v b))"
proof (cases "is_null m")
  case False
  from assms(2) False show ?thesis
  proof (cases rule: versioned_manager_cases)
    case (1 d)
    from assms(1) 1(3) show ?thesis
    proof (cases rule: root_cases [where b = b])
      case (2 t)
      then show ?thesis
        using False 1 collect_prefixed_live [OF assms(1) 2(3,4)]
        by (simp add: scan_prefix_entries_at_blockhash_def block_namespace_def prefixed_def relative_prefix)
    qed (use False 1 in \<open>simp add: scan_prefix_entries_at_blockhash_def block_namespace_def\<close>)
  next
    case 2
    then show ?thesis
      using False scan_prefix_entries_namespace [OF assms, of m p]
      by (simp add: scan_prefix_entries_at_blockhash_def block_namespace_def)
  qed
qed (use scan_prefix_entries_namespace [OF assms, of m p] in
    \<open>simp add: scan_prefix_entries_at_blockhash_def scan_prefix_entries_def block_namespace_def\<close>)

lemma sorted_block_namespace:
  assumes "env_ok E C" "world_sim E C T w v"
  shows "sorted_kvs (block_namespace C m w v b)"
proof (cases "\<not> is_null m \<and> through_tree m w")
  case True
  then obtain st where st: "wtree w = Some st" by (auto simp: through_tree_def)
  then have sim: "sim E C T \<lparr>tdb = wdb w, tstate = st\<rparr> v" using assms(2) by (simp add: world_sim_def)
  have "sorted_kvs (case v_tree_of v b of Some t \<Rightarrow> t_live t | None \<Rightarrow> [])"
    using bt.sorted_live [OF tree_atD(4) [OF sim_tree_of [OF assms(1) sim]]] by (simp split: option.split)
  with True show ?thesis by (simp add: block_namespace_def sorted_relative)
qed (use sorted_namespace [OF assms(2)] in \<open>auto simp: block_namespace_def\<close>)

section \<open>Writes\<close>

text \<open>
  Outside a block and without a pin, where a write through the tree is visible at once. Inside a block it goes to
  the tree of that block, and under a pin reads stay where they are.
\<close>

definition idle :: "'db world \<Rightarrow> bool" where
  "idle w \<longleftrightarrow> (\<forall>st. wtree w = Some st \<longrightarrow> current_block st = None \<and> pinned_root st = None)"

definition takes_effect :: "mdb \<Rightarrow> 'db world \<Rightarrow> bool" where
  "takes_effect m w \<longleftrightarrow> (through_tree m w \<longrightarrow> idle w)"

text \<open>A put or a delete.\<close>

definition mdb_change ::
  "('db, 'z) env_scheme \<Rightarrow> mdb \<Rightarrow> bytes \<Rightarrow> bytes option \<Rightarrow> ('db world, rocks_error, unit) comp" where
  "mdb_change E m k x = (case x of Some value \<Rightarrow> mdb_put E m k value | None \<Rightarrow> mdb_delete E m k)"

text \<open>The cells of the two surfaces: \<open>True\<close> for the tree.\<close>

definition cell :: "('db \<Rightarrow> bytes \<rightharpoonup> bytes) \<Rightarrow> 'db world \<Rightarrow> versions \<Rightarrow> bool \<Rightarrow> bytes \<rightharpoonup> bytes" where
  "cell C w v tree key = (if tree then map_of (t_live (v_visible v)) key else C (wdb w) key)"

lemma mdb_get_cell:
  assumes "env_ok E C" "world_sim E C T w v" "mdb_wf m" "\<not> is_null m"
  shows "mdb_get E m w k = ok (cell C w v (through_tree m w) (prefixed m k))"
  using mdb_get_namespace [OF assms(1-3), of k] assms(4)
  by (simp add: namespace_def surface_def map_of_relative cell_def prefixed_def map_of_map_entries env_simps [OF assms(1)])

lemma outsideD: "outside C db' = outside C db \<Longrightarrow> \<not> is_tree_internal_key k \<Longrightarrow> C db' k = C db k"
  by (metis outside_def)

text \<open>A change through the tree: the changed cells of the tree, and no other cell outside its own keys.\<close>

lemma on_tree_change:
  assumes E: "env_ok E C" and c: "c d = Some (Inr (), d')" "frames (\<lambda>d. outside C (tdb d)) c"
    and sim: "sim E C T d v" "sim E C T d' (v_set_target t v)"
  shows "\<exists>w'. on_tree c d = Some (Inr (), w') \<and> world_sim E C T w' (v_set_target t v) \<and> wtree w' \<noteq> None
    \<and> cell C w' (v_set_target t v) True = map_of (t_live
        (if current_block (tstate d) = None \<and> pinned_root (tstate d) = None then t else v_visible v))
    \<and> (\<forall>k. \<not> is_tree_internal_key k \<longrightarrow> C (wdb w') k = C (tdb d) k)"
proof -
  have "v_visible (v_set_target t v) = (if current_block (tstate d) = None \<and> pinned_root (tstate d) = None then t else v_visible v)"
    using sim_idle_iff [OF sim(1)] unfolding visible_set_target by (simp add: v_visible_def split: option.split)
  then have "cell C w' (v_set_target t v) True = map_of (t_live
      (if current_block (tstate d) = None \<and> pinned_root (tstate d) = None then t else v_visible v))" for w'
    by (simp add: fun_eq_iff cell_def)
  moreover have "sim E C T \<lparr>tdb = tdb d', tstate = tstate d'\<rparr> (v_set_target t v)" using sim(2) by (cases d') simp
  ultimately show ?thesis
    using c framesD [OF c(2,1)] by (auto simp: on_tree_def world_sim_def dest: outsideD)
qed

lemma idle_tree:
  assumes "wtree w = Some (tstate d)"
  shows "idle w \<longleftrightarrow> current_block (tstate d) = None \<and> pinned_root (tstate d) = None"
  using assms by (simp add: idle_def)

text \<open>A change of the local database outside the keys of the tree.\<close>

lemma to_local_change:
  assumes E: "env_ok E C" and m: "\<not> is_null m"
    and f: "fst (f (wdb w)) = Inr ()" "\<forall>k. is_tree_internal_key k \<longrightarrow> C (snd (f (wdb w))) k = C (wdb w) k"
    and w: "world_sim E C T w v"
  shows "\<exists>w'. to_local m f w = Some (Inr (), w') \<and> world_sim E C T w' v \<and> wtree w' = wtree w
    \<and> wdb w' = snd (f (wdb w))"
proof -
  have "local_db m w = Some (wdb w)" using m by (simp add: local_db_def is_null_def split: mdb_store.split)
  moreover have "world_sim E C T (w\<lparr>wdb := snd (f (wdb w))\<rparr>) v"
    unfolding world_sim_def
  proof (intro allI impI)
    fix st assume "wtree (w\<lparr>wdb := snd (f (wdb w))\<rparr>) = Some st"
    then have "sim E C T \<lparr>tdb = wdb w, tstate = st\<rparr> v" using w by (simp add: world_sim_def)
    from sim_same_inside [OF _ this, of "snd (f (wdb w))"]
    show "sim E C T \<lparr>tdb = wdb (w\<lparr>wdb := snd (f (wdb w))\<rparr>), tstate = st\<rparr> v" using f(2) by (simp add: same_inside_def)
  qed
  ultimately show ?thesis using f(1) by (simp add: to_local_def Let_def)
qed

lemma change_cells:
  assumes E: "env_ok E C" "hash_len E" and w: "world_sim E C T w v"
    and m: "mdb_wf m" "\<not> is_null m" "\<not> is_tree_internal_key (prefixed m k)"
    and T: "through_tree m w \<longrightarrow> batch_nodes (hash_node E) [(prefixed m k, x)] (v_target v) \<subseteq> T"
  shows "\<exists>w' v'. mdb_change E m k x w = Some (Inr (), w') \<and> world_sim E C T w' v'
    \<and> (wtree w' = None \<longleftrightarrow> wtree w = None)
    \<and> (\<forall>tree key. \<not> is_tree_internal_key key \<longrightarrow> cell C w' v' tree key
        = (if takes_effect m w \<and> tree = through_tree m w \<and> key = prefixed m k then x else cell C w v tree key))"
  using w m(2)
proof (cases rule: versioned_manager_cases)
  case (1 d)
  let ?t = "t_apply (hash_node E) (prefixed m k) x (v_target v)"
  have idle: "takes_effect m w \<longleftrightarrow> current_block (tstate d) = None \<and> pinned_root (tstate d) = None"
    using 1(1) idle_tree [OF 1(5)] by (simp add: takes_effect_def)
  obtain d' where d': "apply_mutation E (prefixed m k) x d = Some (Inr (), d')" "sim E C T d' (v_set_target ?t v)"
    using sim_write [OF E 1(3)] T 1(1) by blast
  have t: "map_of (t_live ?t) = (map_of (t_live (v_visible v)))(prefixed m k := x)" if "takes_effect m w"
    using live_write [OF sim_active_inv [OF 1(3)]] that sim_idle [OF 1(3)] by (simp add: v_target_def v_visible_def idle)
  have "mdb_change E m k x w = on_tree (apply_mutation E (prefixed m k) x) d"
    using m 1(2) by (simp add: mdb_change_def mdb_put_def mdb_delete_def tree_put_def tree_delete_def split: option.split)
  then obtain w' where w': "mdb_change E m k x w = Some (Inr (), w')" "world_sim E C T w' (v_set_target ?t v)"
      "wtree w' \<noteq> None" "cell C w' (v_set_target ?t v) True = map_of (t_live (if takes_effect m w then ?t else v_visible v))"
      "\<And>k. \<not> is_tree_internal_key k \<Longrightarrow> C (wdb w') k = C (tdb d) k"
    using on_tree_change [OF E(1) d'(1) frames_apply_mutation [OF E(1)] 1(3) d'(2)] unfolding idle by auto
  have "cell C w' (v_set_target ?t v) tree key
      = (if takes_effect m w \<and> tree = through_tree m w \<and> key = prefixed m k then x else cell C w v tree key)"
    if "\<not> is_tree_internal_key key" for tree key
    using that w'(4,5) 1 t by (cases tree) (simp_all add: cell_def)
  with w'(1-3) 1(5) show ?thesis by (intro exI [of _ w'] exI [of _ "v_set_target ?t v"]) simp
next
  case 2
  let ?f = "\<lambda>db. case x of Some value \<Rightarrow> db_put E db (prefixed m k) value | None \<Rightarrow> db_delete E db (prefixed m k)"
  have f: "fst (?f (wdb w)) = Inr ()" "C (snd (?f (wdb w))) = (C (wdb w))(prefixed m k := x)"
    by (cases x; simp add: env_simps [OF E(1)])+
  have "mdb_change E m k x w = to_local m ?f w"
    using m 2 by (simp add: mdb_change_def mdb_put_def mdb_delete_def split: option.split)
  moreover have "\<forall>key. is_tree_internal_key key \<longrightarrow> C (snd (?f (wdb w))) key = C (wdb w) key"
    unfolding f(2) using m(3) by auto
  ultimately obtain w' where w': "mdb_change E m k x w = Some (Inr (), w')" "world_sim E C T w' v"
      "wtree w' = wtree w" "wdb w' = snd (?f (wdb w))"
    using to_local_change [of E C m ?f w T v] E(1) m(2) f(1) w by auto
  have "C (wdb w') = (C (wdb w))(prefixed m k := x)" using w'(4) f(2) by simp
  then have "cell C w' v tree key
      = (if takes_effect m w \<and> tree = through_tree m w \<and> key = prefixed m k then x else cell C w v tree key)"
    for tree key using 2 by (simp add: cell_def takes_effect_def)
  with w'(1-3) show ?thesis by (intro exI [of _ w'] exI [of _ v]) simp
qed

text \<open>A bulk write: the calls as changes of full keys.\<close>

fun call_change :: "batch_call \<Rightarrow> change" where
  "call_change (Call_put k x) = (k, Some x)"
| "call_change (Call_delete k) = (k, None)"

definition full_change :: "mdb \<Rightarrow> batch_call \<Rightarrow> change" where
  "full_change m c = (prefixed m (fst (call_change c)), snd (call_change c))"

definition change_op :: "change \<Rightarrow> batch_op" where
  "change_op c = (case snd c of Some x \<Rightarrow> BPut (fst c) x | None \<Rightarrow> BDelete (fst c))"

lemma map_of_full_changes:
  "map_of (rev (map (full_change m) calls)) (prefixed m k) = map_of (rev (map call_change calls)) k"
  by (induction calls rule: rev_induct) (auto simp: full_change_def prefixed_def)

lemma run_calls_versioned:
  "fold run_call calls \<lparr>mb_mdb = m, mb_wb = None, versioned_changes = Some cs\<rparr>
     = \<lparr>mb_mdb = m, mb_wb = None, versioned_changes = Some (cs @ map (full_change m) calls)\<rparr>"
proof (induction calls arbitrary: cs)
  case (Cons c calls)
  then show ?case by (cases c) (simp_all add: batch_put_def batch_delete_def full_change_def)
qed simp

lemma run_calls_local:
  "fold run_call calls \<lparr>mb_mdb = m, mb_wb = Some wb, versioned_changes = None\<rparr>
     = \<lparr>mb_mdb = m, mb_wb = Some (wb @ map (change_op \<circ> full_change m) calls), versioned_changes = None\<rparr>"
proof (induction calls arbitrary: wb)
  case (Cons c calls)
  then show ?case by (cases c) (simp_all add: batch_put_def batch_delete_def full_change_def change_op_def)
qed simp

lemma change_op_effect: "batch_effect (change_op c) m = m(fst c := snd c)"
  by (simp add: change_op_def split: option.split)

lemma fold_change_op: "fold batch_effect (map change_op cs) m = kv_changes cs m"
  by (induction cs arbitrary: m) (simp_all add: kv_changes_def change_op_effect)

lemma kv_changes_other: "\<forall>c\<in>set cs. fst c \<noteq> key \<Longrightarrow> kv_changes cs m key = m key"
  by (induction cs arbitrary: m) (auto simp: kv_changes_def)

lemma bulk_cells:
  assumes E: "env_ok E C" "hash_len E" and w: "world_sim E C T w v"
    and m: "mdb_wf m" "\<not> is_null m" "\<forall>c\<in>set calls. \<not> is_tree_internal_key (fst (full_change m c))"
    and T: "through_tree m w \<longrightarrow> batch_nodes (hash_node E) (canonicalize (map (full_change m) calls)) (v_target v) \<subseteq> T"
  shows "\<exists>w' v'. bulk_write E m calls w = Some (Inr (), w') \<and> world_sim E C T w' v'
    \<and> (wtree w' = None \<longleftrightarrow> wtree w = None)
    \<and> (\<forall>key. \<not> is_tree_internal_key key \<longrightarrow> cell C w' v' (through_tree m w) key
        = (if takes_effect m w then kv_changes (map (full_change m) calls) else id) (cell C w v (through_tree m w)) key)"
  using w m(2)
proof (cases rule: versioned_manager_cases)
  case (1 d)
  let ?cs = "map (full_change m) calls"
  have bulk: "bulk_write E m calls w = on_tree (apply_batch_owned E ?cs) d"
    using m(2) 1(2) by (simp add: bulk_write_def run_calls_versioned Let_def)
  have idle: "takes_effect m w \<longleftrightarrow> current_block (tstate d) = None \<and> pinned_root (tstate d) = None"
    using 1(1) idle_tree [OF 1(5)] by (simp add: takes_effect_def)
  let ?t = "bt.apply_all (hash_node E) (canonicalize ?cs) (v_target v)"
  have "\<exists>d' t. apply_batch_owned E ?cs d = Some (Inr (), d') \<and> sim E C T d' (v_set_target t v)
      \<and> map_of (t_live t) = kv_changes ?cs (map_of (t_live (v_target v)))"
  proof (cases "?cs = []")
    case True
    then show ?thesis using 1(3)
      by (intro exI [of _ d] exI [of _ "v_target v"]) (simp add: apply_batch_owned_def kv_changes_def)
  next
    case False
    then show ?thesis
      using sim_batch [OF E 1(3) False] T 1(1) live_batch [OF sim_target_inv [OF 1(3)], of "hash_node E" ?cs] by blast
  qed
  then obtain d' t where d': "apply_batch_owned E ?cs d = Some (Inr (), d')" "sim E C T d' (v_set_target t v)"
    "map_of (t_live t) = kv_changes ?cs (map_of (t_live (v_target v)))" by blast
  obtain w' where w': "bulk_write E m calls w = Some (Inr (), w')" "world_sim E C T w' (v_set_target t v)"
      "wtree w' \<noteq> None" "cell C w' (v_set_target t v) True = map_of (t_live (if takes_effect m w then t else v_visible v))"
    using on_tree_change [OF E(1) d'(1) frames_apply_batch_owned [OF E(1)] 1(3) d'(2)] bulk unfolding idle by auto
  have "cell C w v True = map_of (t_live (v_visible v))" by (simp add: fun_eq_iff cell_def)
  moreover have "v_target v = v_visible v" if "takes_effect m w"
    using that sim_idle [OF 1(3)] by (simp add: idle v_target_def v_visible_def)
  ultimately show ?thesis using w' 1 d'(3) by (intro exI [of _ w'] exI [of _ "v_set_target t v"]) simp
next
  case 2
  let ?cs = "map (full_change m) calls" and ?f = "\<lambda>db. db_write E db (map (change_op \<circ> full_change m) calls)"
  have f: "fst (?f (wdb w)) = Inr ()" "C (snd (?f (wdb w))) = kv_changes ?cs (C (wdb w))"
    using fold_change_op [of ?cs] by (simp_all add: env_simps [OF E(1)])
  have same: "\<forall>key. is_tree_internal_key key \<longrightarrow> C (snd (?f (wdb w))) key = C (wdb w) key"
    unfolding f(2) using m(3) kv_changes_other by (metis (no_types, lifting) imageE list.set_map)
  have "bulk_write E m calls w = to_local m ?f w"
    using m(2) 2 by (simp add: bulk_write_def run_calls_local Let_def)
  then obtain w' where w': "bulk_write E m calls w = Some (Inr (), w')" "world_sim E C T w' v"
      "wtree w' = wtree w" "wdb w' = snd (?f (wdb w))"
    using to_local_change [of E C m ?f w T v] E(1) m(2) f(1) same w by auto
  have "cell C w' v False = kv_changes ?cs (cell C w v False)"
    using f(2) w'(4) by (simp add: cell_def [abs_def])
  with w'(1-3) 2 show ?thesis by (intro exI [of _ w'] exI [of _ v]) (simp add: takes_effect_def)
qed

end
