(* ===== verification/Pointers.thy ===== *)
theory Pointers
  imports Mdb_Writes
begin

text \<open>
  The typed pointers of \<^verbatim>\<open>src/runtime/pointers.rs\<close>: a key path over an \<open>Mdb\<close> handle with reads, writes and,
  for lists, pages in descending order that continue from a cursor. The traits \<open>KeyValuePointer\<close>,
  \<open>ListBasedPointer\<close> and \<open>CursorPagedListPointer\<close> only forward to the methods modelled here.
\<close>

section \<open>Pointers\<close>

datatype anyhow_error = Anyhow string rocks_error

definition map_err :: "string \<Rightarrow> (rocks_error, 'a) reader \<Rightarrow> (anyhow_error, 'a) reader" where
  "map_err msg m = map_option (map_sum (Anyhow msg) id) m"

definition map_err_comp :: "string \<Rightarrow> ('s, rocks_error, 'a) comp \<Rightarrow> ('s, anyhow_error, 'a) comp" where
  "map_err_comp msg m s = map_option (\<lambda>rs. (map_sum (Anyhow msg) id (fst rs), snd rs)) (m s)"

record kv_pointer =
  kp_mdb :: mdb
  kp_key :: bytes

record list_pointer =
  lp_mdb :: mdb
  lp_key :: bytes

definition kv_root :: "mdb \<Rightarrow> kv_pointer" where
  "kv_root m = \<lparr>kp_mdb = m, kp_key = []\<rparr>"

definition kv_select :: "kv_pointer \<Rightarrow> bytes \<Rightarrow> kv_pointer" where
  "kv_select p suffix = p\<lparr>kp_key := kp_key p @ suffix\<rparr>"

definition kv_keyword :: "kv_pointer \<Rightarrow> string \<Rightarrow> kv_pointer" where
  "kv_keyword p suffix = kv_select p (ascii suffix)"

definition kv_list_select :: "kv_pointer \<Rightarrow> bytes \<Rightarrow> list_pointer" where
  "kv_list_select p suffix = \<lparr>lp_mdb = kp_mdb p, lp_key = kp_key p @ suffix\<rparr>"

definition kv_list_keyword :: "kv_pointer \<Rightarrow> string \<Rightarrow> list_pointer" where
  "kv_list_keyword p suffix = kv_list_select p (ascii suffix)"

definition kv_get :: "('db, 'z) env_scheme \<Rightarrow> kv_pointer \<Rightarrow> 'db world \<Rightarrow> (anyhow_error, bytes option) reader" where
  "kv_get E p w = map_err ''mdb.get failed'' (mdb_get E (kp_mdb p) w (kp_key p))"

definition kv_get_at_blockhash ::
  "('db, 'z) env_scheme \<Rightarrow> kv_pointer \<Rightarrow> 'db world \<Rightarrow> bytes \<Rightarrow> (anyhow_error, bytes option) reader" where
  "kv_get_at_blockhash E p w b =
     map_err ''mdb.get_at_blockhash failed'' (mdb_get_at_blockhash E (kp_mdb p) w b (kp_key p))"

definition kv_put :: "('db, 'z) env_scheme \<Rightarrow> kv_pointer \<Rightarrow> bytes \<Rightarrow> ('db world, anyhow_error, unit) comp" where
  "kv_put E p x = map_err_comp ''mdb.put failed'' (mdb_put E (kp_mdb p) (kp_key p) x)"

definition kv_multi_get ::
  "('db, 'z) env_scheme \<Rightarrow> kv_pointer \<Rightarrow> 'db world \<Rightarrow> bytes list \<Rightarrow> (anyhow_error, bytes option list) reader" where
  "kv_multi_get E p w keys =
     map_err ''mdb.multi_get failed'' (mdb_multi_get E (kp_mdb p) w (map ((@) (kp_key p)) keys))"

text \<open>The loop over the keys of \<open>multi_get_at_blockhash\<close>, one read each.\<close>

definition get_each ::
  "('db, 'z) env_scheme \<Rightarrow> mdb \<Rightarrow> 'db world \<Rightarrow> bytes \<Rightarrow> bytes list \<Rightarrow> (anyhow_error, bytes option list) reader" where
  "get_each E m w b full_keys = foldm (\<lambda>key out.
     bindr (map_err ''mdb.get_at_blockhash failed'' (mdb_get_at_blockhash E m w b key)) (\<lambda>x. ok (out @ [x]))) full_keys []"

definition kv_multi_get_at_blockhash ::
  "('db, 'z) env_scheme \<Rightarrow> kv_pointer \<Rightarrow> 'db world \<Rightarrow> bytes \<Rightarrow> bytes list \<Rightarrow> (anyhow_error, bytes option list) reader" where
  "kv_multi_get_at_blockhash E p w b keys = get_each E (kp_mdb p) w b (map ((@) (kp_key p)) keys)"

definition kv_bulk_write ::
  "('db, 'z) env_scheme \<Rightarrow> kv_pointer \<Rightarrow> batch_call list \<Rightarrow> ('db world, anyhow_error, unit) comp" where
  "kv_bulk_write E p build = map_err_comp ''mdb.bulk_write failed'' (bulk_write E (kp_mdb p) build)"

definition lp_root :: "mdb \<Rightarrow> list_pointer" where
  "lp_root m = \<lparr>lp_mdb = m, lp_key = []\<rparr>"

definition lp_select :: "list_pointer \<Rightarrow> bytes \<Rightarrow> list_pointer" where
  "lp_select p suffix = p\<lparr>lp_key := lp_key p @ suffix\<rparr>"

definition lp_keyword :: "list_pointer \<Rightarrow> string \<Rightarrow> list_pointer" where
  "lp_keyword p suffix = lp_select p (ascii suffix)"

definition lp_kv_select :: "list_pointer \<Rightarrow> bytes \<Rightarrow> kv_pointer" where
  "lp_kv_select p suffix = \<lparr>kp_mdb = lp_mdb p, kp_key = lp_key p @ suffix\<rparr>"

definition lp_kv_keyword :: "list_pointer \<Rightarrow> string \<Rightarrow> kv_pointer" where
  "lp_kv_keyword p suffix = lp_kv_select p (ascii suffix)"

definition lp_get :: "('db, 'z) env_scheme \<Rightarrow> list_pointer \<Rightarrow> 'db world \<Rightarrow> (anyhow_error, bytes option) reader" where
  "lp_get E p w = map_err ''mdb.get failed'' (mdb_get E (lp_mdb p) w (lp_key p))"

definition lp_get_at_blockhash ::
  "('db, 'z) env_scheme \<Rightarrow> list_pointer \<Rightarrow> 'db world \<Rightarrow> bytes \<Rightarrow> (anyhow_error, bytes option) reader" where
  "lp_get_at_blockhash E p w b =
     map_err ''mdb.get_at_blockhash failed'' (mdb_get_at_blockhash E (lp_mdb p) w b (lp_key p))"

definition lp_put :: "('db, 'z) env_scheme \<Rightarrow> list_pointer \<Rightarrow> bytes \<Rightarrow> ('db world, anyhow_error, unit) comp" where
  "lp_put E p x = map_err_comp ''mdb.put failed'' (mdb_put E (lp_mdb p) (lp_key p) x)"

definition lp_multi_get ::
  "('db, 'z) env_scheme \<Rightarrow> list_pointer \<Rightarrow> 'db world \<Rightarrow> bytes list \<Rightarrow> (anyhow_error, bytes option list) reader" where
  "lp_multi_get E p w keys =
     map_err ''mdb.multi_get failed'' (mdb_multi_get E (lp_mdb p) w (map ((@) (lp_key p)) keys))"

definition lp_multi_get_at_blockhash ::
  "('db, 'z) env_scheme \<Rightarrow> list_pointer \<Rightarrow> 'db world \<Rightarrow> bytes \<Rightarrow> bytes list \<Rightarrow> (anyhow_error, bytes option list) reader" where
  "lp_multi_get_at_blockhash E p w b keys = get_each E (lp_mdb p) w b (map ((@) (lp_key p)) keys)"

definition lp_bulk_write ::
  "('db, 'z) env_scheme \<Rightarrow> list_pointer \<Rightarrow> batch_call list \<Rightarrow> ('db world, anyhow_error, unit) comp" where
  "lp_bulk_write E p build = map_err_comp ''mdb.bulk_write failed'' (bulk_write E (lp_mdb p) build)"

section \<open>Pages in descending order\<close>

record cursor_scan_page =
  page_entries :: kvs
  next_cursor :: "bytes option"
  has_more :: bool

definition default_page :: cursor_scan_page where
  "default_page = \<lparr>page_entries = [], next_cursor = None, has_more = False\<rparr>"

text \<open>The page cut out of the entries that were read.\<close>

definition cursor_page :: "bytes option \<Rightarrow> nat \<Rightarrow> kvs \<Rightarrow> cursor_scan_page" where
  "cursor_page cursor limit es =
     (let entries = sort_key fst es;
          entries = (case cursor of
              Some c \<Rightarrow> let keep_until = partition_point (\<lambda>e. fst e < c) entries in take keep_until entries
            | None \<Rightarrow> entries);
          entries = rev entries;
          more = length entries > limit;
          entries = (if more then take limit entries else entries);
          nxt = (if more \<and> entries \<noteq> [] then Some (fst (last entries)) else None) in
      \<lparr>page_entries = entries, next_cursor = nxt, has_more = more\<rparr>)"

definition scan_desc_cursor_page ::
  "('db, 'z) env_scheme \<Rightarrow> list_pointer \<Rightarrow> 'db world \<Rightarrow> bytes option \<Rightarrow> bytes option \<Rightarrow> nat
     \<Rightarrow> (anyhow_error, cursor_scan_page) reader" where
  "scan_desc_cursor_page E p w at_blockhash cursor limit =
     (if limit = 0 then ok default_page
      else bindr (case at_blockhash of
          Some blockhash \<Rightarrow> map_err ''mdb.scan_prefix_entries_at_blockhash failed''
            (scan_prefix_entries_at_blockhash E (lp_mdb p) w blockhash (lp_key p))
        | None \<Rightarrow> map_err ''mdb.scan_prefix_entries failed'' (scan_prefix_entries E (lp_mdb p) w (lp_key p)))
        (\<lambda>entries. ok (cursor_page cursor limit entries)))"

section \<open>The pointer with two surfaces\<close>

record list_non_mutate_pointer =
  locator :: list_pointer
  blob :: list_pointer

definition nmp_root :: "mdb \<Rightarrow> mdb \<Rightarrow> list_non_mutate_pointer" where
  "nmp_root locator_mdb blob_mdb = \<lparr>locator = lp_root locator_mdb, blob = lp_root blob_mdb\<rparr>"

definition nmp_key :: "list_non_mutate_pointer \<Rightarrow> bytes" where
  "nmp_key p = lp_key (locator p)"

definition nmp_select :: "list_non_mutate_pointer \<Rightarrow> bytes \<Rightarrow> list_non_mutate_pointer" where
  "nmp_select p suffix = \<lparr>locator = lp_select (locator p) suffix, blob = lp_select (blob p) suffix\<rparr>"

definition nmp_keyword :: "list_non_mutate_pointer \<Rightarrow> string \<Rightarrow> list_non_mutate_pointer" where
  "nmp_keyword p suffix = nmp_select p (ascii suffix)"

definition blob_key :: "list_non_mutate_pointer \<Rightarrow> bytes" where
  "blob_key p = lp_key (blob p)"

definition locator_get :: "('db, 'z) env_scheme \<Rightarrow> list_non_mutate_pointer \<Rightarrow> 'db world \<Rightarrow> (anyhow_error, bytes option) reader" where
  "locator_get E p w = lp_get E (locator p) w"

definition locator_get_at_blockhash ::
  "('db, 'z) env_scheme \<Rightarrow> list_non_mutate_pointer \<Rightarrow> 'db world \<Rightarrow> bytes \<Rightarrow> (anyhow_error, bytes option) reader" where
  "locator_get_at_blockhash E p w b = lp_get_at_blockhash E (locator p) w b"

definition blob_get :: "('db, 'z) env_scheme \<Rightarrow> list_non_mutate_pointer \<Rightarrow> 'db world \<Rightarrow> (anyhow_error, bytes option) reader" where
  "blob_get E p w = lp_get E (blob p) w"

definition locator_multi_get ::
  "('db, 'z) env_scheme \<Rightarrow> list_non_mutate_pointer \<Rightarrow> 'db world \<Rightarrow> bytes list \<Rightarrow> (anyhow_error, bytes option list) reader" where
  "locator_multi_get E p = lp_multi_get E (locator p)"

definition locator_multi_get_at_blockhash ::
  "('db, 'z) env_scheme \<Rightarrow> list_non_mutate_pointer \<Rightarrow> 'db world \<Rightarrow> bytes \<Rightarrow> bytes list \<Rightarrow> (anyhow_error, bytes option list) reader" where
  "locator_multi_get_at_blockhash E p = lp_multi_get_at_blockhash E (locator p)"

definition blob_multi_get ::
  "('db, 'z) env_scheme \<Rightarrow> list_non_mutate_pointer \<Rightarrow> 'db world \<Rightarrow> bytes list \<Rightarrow> (anyhow_error, bytes option list) reader" where
  "blob_multi_get E p = lp_multi_get E (blob p)"

definition locator_put :: "('db, 'z) env_scheme \<Rightarrow> list_non_mutate_pointer \<Rightarrow> bytes \<Rightarrow> ('db world, anyhow_error, unit) comp" where
  "locator_put E p = lp_put E (locator p)"

definition blob_put :: "('db, 'z) env_scheme \<Rightarrow> list_non_mutate_pointer \<Rightarrow> bytes \<Rightarrow> ('db world, anyhow_error, unit) comp" where
  "blob_put E p = lp_put E (blob p)"

definition locator_bulk_write ::
  "('db, 'z) env_scheme \<Rightarrow> list_non_mutate_pointer \<Rightarrow> batch_call list \<Rightarrow> ('db world, anyhow_error, unit) comp" where
  "locator_bulk_write E p = lp_bulk_write E (locator p)"

definition blob_bulk_write ::
  "('db, 'z) env_scheme \<Rightarrow> list_non_mutate_pointer \<Rightarrow> batch_call list \<Rightarrow> ('db world, anyhow_error, unit) comp" where
  "blob_bulk_write E p = lp_bulk_write E (blob p)"

definition locator_scan_desc_cursor_page ::
  "('db, 'z) env_scheme \<Rightarrow> list_non_mutate_pointer \<Rightarrow> 'db world \<Rightarrow> bytes option \<Rightarrow> bytes option \<Rightarrow> nat
     \<Rightarrow> (anyhow_error, cursor_scan_page) reader" where
  "locator_scan_desc_cursor_page E p = scan_desc_cursor_page E (locator p)"

section \<open>Following the cursors\<close>

text \<open>
  A client that reads pages until there are no more; the fuel bounds the number of pages.
\<close>

fun follow :: "nat \<Rightarrow> (bytes option \<Rightarrow> ('e, cursor_scan_page) reader) \<Rightarrow> bytes option \<Rightarrow> ('e, kvs list) reader" where
  "follow 0 page cursor = None"
| "follow (Suc n) page cursor = bindr (page cursor) (\<lambda>pg.
     if has_more pg then bindr (follow n page (next_cursor pg)) (\<lambda>rest. ok (page_entries pg # rest))
     else ok [page_entries pg])"

text \<open>The entries before the cursor are a prefix of the sorted entries.\<close>

definition upto_cursor :: "bytes option \<Rightarrow> kvs \<Rightarrow> kvs" where
  "upto_cursor cursor L = filter (\<lambda>e. below cursor (fst e)) L"

lemma cursor_page_eq:
  fixes cursor :: "bytes option"
  assumes "sorted_kvs L" "limit > 0"
  defines "R \<equiv> upto_cursor cursor L"
  shows "cursor_page cursor limit L = \<lparr>page_entries = take limit (rev R),
    next_cursor = (if length R > limit then Some (fst (R ! (length R - limit))) else None),
    has_more = length R > limit\<rparr>"
proof -
  have "sorted (map fst L)" using assms(1) by (simp add: strict_sorted_iff)
  then have sort: "sort_key fst L = L" by (rule sort_key_id_if_sorted)
  have R: "R = (case cursor of Some c \<Rightarrow> take (partition_point (\<lambda>e. fst e < c) L) L | None \<Rightarrow> L)"
    using filter_sorted_eq_takeWhile [OF assms(1)] takeWhile_eq_take [of "\<lambda>e. fst e < the cursor" L]
    by (cases cursor) (simp_all add: R_def upto_cursor_def below_def partition_point_def)
  have "last (take limit (rev R)) = R ! (length R - limit)" if "length R > limit"
    using that assms(2) by (subst last_conv_nth) (auto simp: rev_nth min_def)
  then show ?thesis
    using assms(2) unfolding cursor_page_def sort Let_def R [symmetric] by auto
qed

lemma upto_nth:
  assumes "sorted_kvs L" "i < length L"
  shows "filter (\<lambda>e. fst e < fst (L ! i)) L = take i L"
proof -
  have "takeWhile (\<lambda>e. fst e < fst (L ! i)) L = take i L"
    using assms by (intro takeWhile_eq_take_P_nth) (auto simp: sorted_wrt_iff_nth_less)
  then show ?thesis using filter_sorted_eq_takeWhile [OF assms(1), of "fst (L ! i)"] by simp
qed

lemma take_rev_append: "take n (rev xs) @ rev (take (length xs - n) xs) = rev xs"
  by (simp add: take_rev flip: rev_append)

text \<open>The contract of a source of pages, and what following its cursors gives.\<close>

locale desc_pages =
  fixes inv :: "'s \<Rightarrow> bool"
    and contents :: "'s \<Rightarrow> kvs"
    and page :: "'s \<Rightarrow> bytes option \<Rightarrow> nat \<Rightarrow> ('e, cursor_scan_page) reader"
  assumes sorted_contents: "inv s \<Longrightarrow> sorted_kvs (contents s)"
    and page_cursor: "inv s \<Longrightarrow> limit > 0 \<Longrightarrow> page s cursor limit = ok (cursor_page cursor limit (contents s))"
begin

lemma follow_upto:
  assumes "inv s" "limit > 0"
  shows "upto_cursor cursor (contents s) = take j (contents s) \<Longrightarrow> j \<le> length (contents s) \<Longrightarrow> j < n \<Longrightarrow>
    \<exists>pgs. follow n (\<lambda>c. page s c limit) cursor = ok pgs \<and> concat pgs = rev (take j (contents s))
      \<and> (\<forall>pg\<in>set pgs. length pg \<le> limit)"
proof (induction n arbitrary: cursor j)
  case (Suc n)
  let ?L = "contents s"
  note sorted = sorted_contents [OF assms(1)]
  have len: "length (upto_cursor cursor ?L) = j" using Suc.prems by simp
  note pg = page_cursor [OF assms, of cursor] cursor_page_eq [OF sorted assms(2), of cursor]
  show ?case
  proof (cases "j > limit")
    case False
    then show ?thesis using Suc.prems by (simp add: pg len)
  next
    case True
    let ?i = "j - limit"
    have i: "?i < length ?L" "?i < j" "?i < n" using True Suc.prems assms(2) by simp_all
    have nc: "next_cursor (cursor_page cursor limit ?L) = Some (fst (?L ! ?i))"
      using True len Suc.prems i(2) by (simp add: pg)
    have "upto_cursor (Some (fst (?L ! ?i))) ?L = take ?i ?L"
      using upto_nth [OF sorted i(1)] by (simp add: upto_cursor_def below_def)
    from Suc.IH [OF this] i obtain pgs where pgs:
      "follow n (\<lambda>c. page s c limit) (Some (fst (?L ! ?i))) = ok pgs" "concat pgs = rev (take ?i ?L)"
      "\<forall>pg\<in>set pgs. length pg \<le> limit" by auto
    have "take limit (rev (take j ?L)) @ rev (take ?i ?L) = rev (take j ?L)"
      using Suc.prems(2) take_rev_append [of limit "take j ?L"] by (simp add: min.absorb1 min.absorb2)
    moreover have "page_entries (cursor_page cursor limit ?L) = take limit (rev (take j ?L))"
      "has_more (cursor_page cursor limit ?L)" using True Suc.prems len by (simp_all add: pg)
    ultimately show ?thesis using pgs by (simp add: pg(1) nc)
  qed
qed simp

theorem follow_all:
  assumes "inv s" "limit > 0" "length (contents s) < n"
  shows "\<exists>pgs. follow n (\<lambda>c. page s c limit) None = ok pgs \<and> concat pgs = rev (contents s)
    \<and> (\<forall>pg\<in>set pgs. length pg \<le> limit)"
  using follow_upto [OF assms(1,2), of None "length (contents s)" n] assms(3)
  by (simp add: upto_cursor_def below_def)

end

lemma map_err_ok [simp]: "map_err msg (ok a) = ok a"
  by (simp add: map_err_def ok_def)

lemma sorted_kvs_filter: "sorted_kvs L \<Longrightarrow> sorted_kvs (filter P L)"
  by (rule sorted_wrt_less_filter)

interpretation head: desc_pages "\<lambda>(w, v). env_ok E C \<and> world_sim E C T w v"
    "\<lambda>(w, v). filter (\<lambda>e. starts_with (fst e) (lp_key p)) (namespace C (lp_mdb p) w v)"
    "\<lambda>(w, v). scan_desc_cursor_page E p w None"
    for E :: "('db, 'z) env_scheme" and C T p
  by unfold_locales
    (auto simp: scan_desc_cursor_page_def scan_prefix_entries_namespace sorted_kvs_filter sorted_namespace)

interpretation at_block: desc_pages "\<lambda>(w, v). env_ok E C \<and> world_sim E C T w v"
    "\<lambda>(w, v). filter (\<lambda>e. starts_with (fst e) (lp_key p)) (block_namespace C (lp_mdb p) w v b)"
    "\<lambda>(w, v). scan_desc_cursor_page E p w (Some b)"
    for E :: "('db, 'z) env_scheme" and C T p b
  by unfold_locales
    (auto simp: scan_desc_cursor_page_def scan_prefix_at_blockhash_namespace sorted_kvs_filter sorted_block_namespace)

end
