(* ===== verification/Reorg.thy ===== *)
theory Reorg
  imports Mdb_Writes
begin

text \<open>
  Modules and reorganisations: the registry of \<^verbatim>\<open>src/modules/defs.rs\<close>, which gives every module its
  namespace, and the rollback of \<^verbatim>\<open>src/modules/reorg.rs\<close>. A module is a record of the trait methods
  the code here calls; they act on the world and on the memory of the modules.
\<close>

section \<open>Modules and their registry\<close>

type_synonym ('db, 'm) index_state = "'db world \<times> 'm"

record ('db, 'm, 'c) espo_module =
  get_name :: string
  config_spec :: "string option"
  set_config :: "'c \<Rightarrow> string option"
  mod_mdb :: "mdb option"
  preflight_reorg :: "u32 \<Rightarrow> (('db, 'm) index_state, string, unit) comp"
  handle_reorg :: "u32 \<Rightarrow> (('db, 'm) index_state, string, unit) comp"
  get_index_height :: "('db, 'm) index_state \<Rightarrow> u32 option"

record ('db, 'm, 'c) module_registry =
  modules :: "('db, 'm, 'c) espo_module list"
  module_db :: bool

definition with_db :: "('db, 'm, 'c) module_registry" where
  "with_db = \<lparr>modules = [], module_db = True\<rparr>"

definition with_null_backend :: "('db, 'm, 'c) module_registry" where
  "with_null_backend = \<lparr>modules = [], module_db = False\<rparr>"

definition prefix_kv :: "string \<Rightarrow> bytes" where
  "prefix_kv name = ascii name @ ascii '':''"

text \<open>
  \<open>register_module\<close>; \<open>None\<close> is a panic. \<open>set_config\<close> returns an error text or nothing, and
  \<open>get_module_config\<close> looks up the section of the configuration file.
\<close>

definition register_module ::
  "(string \<Rightarrow> 'c option) \<Rightarrow> ('db, 'm, 'c) espo_module \<Rightarrow> ('db, 'm, 'c) module_registry \<Rightarrow> ('db, 'm, 'c) module_registry option" where
  "register_module get_module_config module reg =
     (let name = get_name module in
      if modules reg = [] \<and> name \<noteq> ''essentials'' then None
      else if modules reg \<noteq> [] \<and> name = ''essentials'' then None
      else if modules reg \<noteq> [] \<and> get_name (hd (modules reg)) \<noteq> ''essentials'' then None
      else if (case config_spec module of
          Some spec \<Rightarrow> (case get_module_config name of None \<Rightarrow> True | Some cfg \<Rightarrow> set_config module cfg \<noteq> None)
        | None \<Rightarrow> False) then None
      else
        let m = (if module_db reg then from_db (prefix_kv name) else mdb_null (prefix_kv name)) in
        Some (reg\<lparr>modules := modules reg @ [module\<lparr>mod_mdb := Some m\<rparr>]\<rparr>))"

section \<open>Rolling back\<close>

datatype reorg_error =
    Cannot_roll_back string u32 string
  | Rewind_failed u32 tree_error
  | Handle_failed string u32 string
  | Still_ahead string u32 u32

definition u32_checked_sub :: "u32 \<Rightarrow> u32 \<Rightarrow> u32 option" where
  "u32_checked_sub a b = (if b \<le> a then Some (a - b) else None)"

definition rewind_tree_to_before ::
  "('db, 'z) env_scheme \<Rightarrow> u32 \<Rightarrow> ('db world, tree_error, unit) comp" where
  "rewind_tree_to_before E next_height w = (case wtree w of
       None \<Rightarrow> ret () w
     | Some st \<Rightarrow>
         let target = (case u32_checked_sub next_height 1 of
             Some parent_height \<Rightarrow> (case indexed_height_bounds E (wdb w) of
                 Inl e \<Rightarrow> Inl e
               | Inr (Some (first, _)) \<Rightarrow> if parent_height \<ge> first then Inr (Some parent_height) else Inr None
               | Inr None \<Rightarrow> Inr None)
           | None \<Rightarrow> Inr None) in
         case target of
           Inl e \<Rightarrow> Some (Inl (Rocks e), w)
         | Inr target_height \<Rightarrow> on_tree (rewind_to_height E target_height) \<lparr>tdb = wdb w, tstate = st\<rparr>)"

text \<open>A loop over the modules that stops at the first error.\<close>

fun for_each :: "('x \<Rightarrow> ('s, 'e, unit) comp) \<Rightarrow> 'x list \<Rightarrow> ('s, 'e, unit) comp" where
  "for_each f [] = ret ()"
| "for_each f (x # xs) = bindc (f x) (\<lambda>_. for_each f xs)"

definition with_context :: "('e \<Rightarrow> 'f) \<Rightarrow> ('s, 'e, 'a) comp \<Rightarrow> ('s, 'f, 'a) comp" where
  "with_context ctx m s = map_option (\<lambda>rs. (map_sum ctx id (fst rs), snd rs)) (m s)"

definition on_world :: "('w, 'e, 'a) comp \<Rightarrow> ('w \<times> 'm, 'e, 'a) comp" where
  "on_world m s = map_option (\<lambda>rs. (fst rs, (snd rs, snd s))) (m (fst s))"

definition check_height :: "u32 \<Rightarrow> ('db, 'm, 'c) espo_module \<Rightarrow> (('db, 'm) index_state, reorg_error, unit) comp" where
  "check_height next_height m s = (case get_index_height m s of
       None \<Rightarrow> Some (Inr (), s)
     | Some height \<Rightarrow>
         if height \<ge> next_height then Some (Inl (Still_ahead (get_name m) height next_height), s) else Some (Inr (), s))"

definition handle_reorg_switch ::
  "('db, 'z) env_scheme \<Rightarrow> ('db, 'm, 'c) espo_module list \<Rightarrow> u32 \<Rightarrow> (('db, 'm) index_state, reorg_error, unit) comp" where
  "handle_reorg_switch E ms next_height =
     bindc (for_each (\<lambda>m. with_context (Cannot_roll_back (get_name m) next_height) (preflight_reorg m next_height)) ms) (\<lambda>_.
     bindc (with_context (Rewind_failed next_height) (on_world (rewind_tree_to_before E next_height))) (\<lambda>_.
     bindc (for_each (\<lambda>m. with_context (Handle_failed (get_name m) next_height) (handle_reorg m next_height)) ms) (\<lambda>_.
     for_each (check_height next_height) ms)))"

section \<open>Registration\<close>

text \<open>
  The invariant of a registry: \<open>essentials\<close> comes first and only once, and every module has the
  handle of its own namespace.
\<close>

definition registry_ok :: "('db, 'm, 'c) module_registry \<Rightarrow> bool" where
  "registry_ok reg \<longleftrightarrow> (modules reg \<noteq> [] \<longrightarrow> get_name (hd (modules reg)) = ''essentials'')
     \<and> (\<forall>m\<in>set (tl (modules reg)). get_name m \<noteq> ''essentials'')
     \<and> (\<forall>m\<in>set (modules reg). mod_mdb m = Some (if module_db reg then from_db (prefix_kv (get_name m))
          else mdb_null (prefix_kv (get_name m))))"

lemma registry_ok_new: "registry_ok with_db" "registry_ok with_null_backend"
  by (simp_all add: registry_ok_def with_db_def with_null_backend_def)

lemma registry_ok_register:
  assumes "registry_ok reg" "register_module cfg m reg = Some reg'"
  shows "registry_ok reg'"
  using assms by (cases "modules reg") (auto simp: registry_ok_def register_module_def Let_def split: if_splits)

text \<open>Names without a colon give namespaces none of whose keys meet.\<close>

lemma bit_of_char:
  "bit (of_char c :: u8) n \<longleftrightarrow>
     n < 8 \<and> [digit0 c, digit1 c, digit2 c, digit3 c, digit4 c, digit5 c, digit6 c, digit7 c] ! n"
  by (simp only: of_char_def bit_horner_sum_bit_iff) auto

lemma of_char_inj_bytes: "(of_char c :: u8) = of_char d \<longleftrightarrow> c = d"
proof
  assume eq: "(of_char c :: u8) = of_char d"
  have "bit (of_char c :: u8) n = bit (of_char d :: u8) n" for n using eq by simp
  from this [of 0] this [of 1] this [of 2] this [of 3] this [of 4] this [of 5] this [of 6] this [of 7]
  show "c = d" by (cases c; cases d) (simp add: bit_of_char del: of_char_Char)
qed simp

lemma of_char_colon: "(of_char c :: u8) = 58 \<longleftrightarrow> c = CHR '':''" "58 = (of_char c :: u8) \<longleftrightarrow> c = CHR '':''"
  using of_char_inj_bytes [of c "CHR '':''"] by auto

lemma prefix_kv_disjoint:
  assumes "CHR '':'' \<notin> set a" "CHR '':'' \<notin> set b" "prefix_kv a @ j = prefix_kv b @ k"
  shows "a = b"
  using assms
proof (induction a arbitrary: b)
  case Nil
  then show ?case by (cases b) (auto simp: prefix_kv_def ascii_def of_char_inj_bytes of_char_colon)
next
  case (Cons c a)
  then show ?case by (cases b) (auto simp: prefix_kv_def ascii_def of_char_inj_bytes of_char_colon)
qed

section \<open>The phases of a rollback\<close>

lemma for_each_same:
  assumes "\<forall>x\<in>set xs. f x s = Some (Inr (), s)"
  shows "for_each f xs s = Some (Inr (), s)"
  using assms by (induction xs) simp_all

lemma for_each_first_error:
  assumes "\<forall>x\<in>set xs. f x s = Some (Inr (), s)" "f y s = Some (Inl e, s')"
  shows "for_each f (xs @ y # ys) s = Some (Inl e, s')"
  using assms by (induction xs) simp_all

text \<open>A loop whose bodies keep the first component of the state.\<close>

lemma for_each_keeps:
  assumes "\<And>x mem. x \<in> set xs \<Longrightarrow> \<exists>mem'. f x (w, mem) = Some (Inr (), (w, mem'))"
  shows "\<exists>mem'. for_each f xs (w, mem) = Some (Inr (), (w, mem'))"
  using assms
proof (induction xs arbitrary: mem)
  case (Cons x xs)
  obtain mem1 where "f x (w, mem) = Some (Inr (), (w, mem1))" using Cons.prems [of x] by auto
  moreover obtain mem2 where "for_each f xs (w, mem1) = Some (Inr (), (w, mem2))" using Cons by force
  ultimately show ?case by simp
qed simp

lemma check_heights:
  "\<exists>r. for_each (check_height n) ms s = Some (r, s) \<and> (r = Inr () \<longleftrightarrow> (\<forall>m\<in>set ms. \<forall>h. get_index_height m s = Some h \<longrightarrow> h < n))"
proof (induction ms)
  case (Cons m ms)
  then show ?case
    by (cases "get_index_height m s") (auto simp: check_height_def bindc_def not_less dest: leD)
qed simp

lemma rewind_before_indexed:
  assumes E: "env_ok E C" and w: "wtree w = Some st"
    and n: "1 \<le> n" "blockhash_for_height E (wdb w) (n - 1) = Inr (Some b)"
  shows "rewind_tree_to_before E n w = on_tree (rewind_to_height E (Some (n - 1))) \<lparr>tdb = wdb w, tstate = st\<rparr>"
proof -
  let ?I = "indexed_heights (C (wdb w))"
  have mem: "n - 1 \<in> ?I" using n(2)
    by (auto simp: indexed_heights_def blockhash_for_height_def get_array_def env_simps [OF E] array_of_def split: option.splits)
  moreover have "finite ?I" by simp
  ultimately have "Min ?I \<le> n - 1" "?I \<noteq> {}" by auto
  then show ?thesis
    using n(1) by (simp add: rewind_tree_to_before_def w u32_checked_sub_def indexed_height_bounds_eq [OF E])
qed

text \<open>The third phase, in which every module rolls itself back.\<close>

definition handle_modules :: "u32 \<Rightarrow> ('db, 'm, 'c) espo_module list \<Rightarrow> (('db, 'm) index_state, reorg_error, unit) comp" where
  "handle_modules next_height ms =
     for_each (\<lambda>m. with_context (Handle_failed (get_name m) next_height) (handle_reorg m next_height)) ms"

text \<open>The tree and the keys it owns, which a module that rolls itself back leaves alone.\<close>

definition tree_part :: "('db \<Rightarrow> bytes \<rightharpoonup> bytes) \<Rightarrow> ('db, 'm) index_state \<Rightarrow> tree_state option \<times> (bytes \<rightharpoonup> bytes)" where
  "tree_part C s = (wtree (fst s), \<lambda>k. if is_tree_internal_key k then C (wdb (fst s)) k else None)"

lemma frames_for_each: "(\<And>x. x \<in> set xs \<Longrightarrow> frames p (f x)) \<Longrightarrow> frames p (for_each f xs)"
  by (induction xs) (auto intro: frames_intros)

lemma frames_with_context: "frames p m \<Longrightarrow> frames p (with_context ctx m)"
  by (auto simp: frames_def with_context_def)

lemma frames_handle_modules: "(\<And>m. m \<in> set ms \<Longrightarrow> frames p (handle_reorg m n)) \<Longrightarrow> frames p (handle_modules n ms)"
  unfolding handle_modules_def by (intro frames_for_each frames_with_context)

lemma frames_check_heights: "frames p (for_each (check_height n) ms)"
  by (intro frames_for_each) (auto simp: frames_def check_height_def split: option.splits if_splits)

text \<open>The tree of \<open>w'\<close> reads as the root \<open>r\<close> of \<open>w\<close>, and the heights from \<open>n\<close> on are gone.\<close>

definition reads_rewound :: "('db, 'z) env_scheme \<Rightarrow> bytes \<Rightarrow> u32 \<Rightarrow> 'db world \<Rightarrow> 'db world \<Rightarrow> bool" where
  "reads_rewound E r n w w' \<longleftrightarrow> (\<forall>st. wtree w' = Some st \<longrightarrow>
     (\<forall>k. tree_get E \<lparr>tdb = wdb w', tstate = st\<rparr> k = get_at_root E (wdb w) r k))
   \<and> (\<forall>h. blockhash_for_height E (wdb w') h = (if n \<le> h then Inr None else blockhash_for_height E (wdb w) h))"

lemma tree_part_reads:
  assumes "env_ok E C" "sim E C T \<lparr>tdb = db, tstate = st\<rparr> v"
    and "tree_part C (w', mem') = tree_part C (\<lparr>wdb = db, wtree = Some st\<rparr>, mem)"
  shows "wtree w' = Some st" "tree_get E \<lparr>tdb = wdb w', tstate = st\<rparr> k = tree_get E \<lparr>tdb = db, tstate = st\<rparr> k"
    "blockhash_for_height E (wdb w') h = blockhash_for_height E db h"
proof -
  have p: "wtree w' = Some st" "(\<lambda>k. if is_tree_internal_key k then C (wdb w') k else None) = (\<lambda>k. if is_tree_internal_key k then C db k else None)"
    using assms(3) unfolding tree_part_def fst_conv Pair_inject world.select_convs by simp_all
  have "same_inside C db (wdb w')" using fun_cong [OF p(2)] by (metis same_inside_def)
  then have s: "sim E C T \<lparr>tdb = wdb w', tstate = st\<rparr> v" using sim_same_inside [OF _ assms(2), of "wdb w'"] by simp
  show "wtree w' = Some st" by (rule p(1))
  show "tree_get E \<lparr>tdb = wdb w', tstate = st\<rparr> k = tree_get E \<lparr>tdb = db, tstate = st\<rparr> k"
    by (simp add: sim_get [OF assms(1) s] sim_get [OF assms(1,2)])
  show "blockhash_for_height E (wdb w') h = blockhash_for_height E db h"
    using sim_blockhash [OF assms(1) s, of h] sim_blockhash [OF assms(1,2), of h] by simp
qed

end
