(* ===== verification/Mem_World.thy ===== *)
theory Mem_World
  imports Mem_Env Pointers Reorg
begin

text \<open>
  Worlds over the in-memory environment: one with a versioned tree that holds an entry of two
  namespaces, and one without a tree.
\<close>

definition amm_key :: bytes where "amm_key = ascii ''ammdata:a''"

definition token_key :: bytes where "token_key = ascii ''tokendata:a''"

definition amm_tree :: btree where
  "amm_tree = TLeaf [\<lparr>le_key = amm_key, le_value = Some [5]\<rparr>] None"

definition both_tree :: btree where
  "both_tree = TLeaf [\<lparr>le_key = amm_key, le_value = Some [5]\<rparr>, \<lparr>le_key = token_key, le_value = Some [6]\<rparr>] None"

lemmas both_defs = amm_tree_def both_tree_def amm_key_def token_key_def ascii_def

lemma apply_amm: "t_apply mem_hash amm_key (Some [5]) empty_tree = amm_tree"
  by (simp add: t_apply_def empty_tree_def amm_tree_def leaf_write_def leaf_edit_def binary_search_def
      partition_point_def list_insert_at_def t_leaf_def MAX_LEAF_ENTRIES_def)

lemma apply_token: "t_apply mem_hash token_key (Some [6]) amm_tree = both_tree"
  by (simp add: t_apply_def both_defs leaf_write_def leaf_edit_def binary_search_def
      partition_point_def list_insert_at_def t_leaf_def MAX_LEAF_ENTRIES_def)

definition both_nodes :: "bptree_node set" where
  "both_nodes = {node_of mem_hash empty_tree, node_of mem_hash amm_tree, node_of mem_hash both_tree}"

lemma both_nodes_inj: "inj_on mem_hash both_nodes"
  by (simp add: inj_on_def both_nodes_def hash_node_def mem_env_def empty_tree_def both_defs enc_list_def
      enc_entry_def enc_bytes_def)

lemma both_nodes_subset:
  "tree_nodes mem_hash empty_tree \<subseteq> both_nodes" "tree_nodes mem_hash amm_tree \<subseteq> both_nodes"
  "tree_nodes mem_hash both_tree \<subseteq> both_nodes"
  by (simp_all add: both_nodes_def empty_tree_def amm_tree_def both_tree_def)

definition both_ops :: "tree_op list" where
  "both_ops = [Write amm_key (Some [5]), Write token_key (Some [6])]"

definition both_versions :: versions where
  "both_versions = no_versions\<lparr>v_active := both_tree\<rparr>"

lemma both_run: "v_run mem_hash both_ops no_versions = both_versions"
  by (simp add: both_ops_def both_versions_def no_versions_def v_set_target_def v_target_def apply_amm apply_token)

definition both_db :: "mem_db tree_db" where
  "both_db = the (run_ops mem_env both_ops mem_fresh)"

lemma mem_fresh_both: "sim mem_env map_of both_nodes mem_fresh no_versions"
  using sim_new [OF mem_env_ok mem_hash_len, of "[]" both_nodes] both_nodes_inj
  by (auto simp: mem_new both_nodes_def mem_fresh_def)

lemma both_db_sim: "sim mem_env map_of both_nodes both_db both_versions"
proof -
  have "run_nodes mem_hash both_ops no_versions \<subseteq> both_nodes"
    using both_nodes_subset
    by (simp add: both_ops_def no_versions_def v_set_target_def v_target_def apply_amm apply_token)
  moreover have "\<forall>op\<in>set both_ops. op_wf op" by (simp add: both_ops_def)
  ultimately show ?thesis
    using sim_run [OF mem_env_ok mem_hash_len mem_fresh_both, of both_ops] by (auto simp: both_run both_db_def)
qed

definition both_world :: "mem_db world" where
  "both_world = \<lparr>wdb = tdb both_db, wtree = Some (tstate both_db)\<rparr>"

lemma both_world_sim: "world_sim mem_env map_of both_nodes both_world both_versions"
proof -
  have eq: "\<lparr>tdb = tdb both_db, tstate = tstate both_db\<rparr> = both_db" by (rule tree_db.equality) simp_all
  have "sim mem_env map_of both_nodes \<lparr>tdb = tdb both_db, tstate = tstate both_db\<rparr> both_versions"
    by (subst eq) (rule both_db_sim)
  then show ?thesis by (simp add: world_sim_def both_world_def)
qed

lemma both_world_idle: "idle both_world"
  using both_db_sim
  by (simp add: idle_def both_world_def sim_def state_rel_def both_versions_def no_versions_def)

lemma both_live: "t_live (v_visible both_versions) = [(amm_key, [5]), (token_key, [6])]"
  by (simp add: both_versions_def no_versions_def v_visible_def both_tree_def t_live_simps)

text \<open>A world whose tree is empty.\<close>

definition fresh_world :: "mem_db world" where
  "fresh_world = \<lparr>wdb = tdb mem_fresh, wtree = Some (tstate mem_fresh)\<rparr>"

lemma fresh_world_sim: "world_sim mem_env map_of both_nodes fresh_world no_versions"
proof -
  have eq: "\<lparr>tdb = tdb mem_fresh, tstate = tstate mem_fresh\<rparr> = mem_fresh" by (rule tree_db.equality) simp_all
  show ?thesis using mem_fresh_both by (simp add: world_sim_def fresh_world_def eq)
qed

lemma fresh_world_idle: "idle fresh_world"
  by (simp add: idle_def fresh_world_def)

lemma amm_write: "batch_nodes mem_hash [(amm_key, Some [5])] empty_tree \<subseteq> both_nodes"
  using both_nodes_subset by (simp add: apply_amm)

abbreviation ammdata :: mdb where
  "ammdata \<equiv> from_db (ascii ''ammdata:'')"

lemma ammdata_simps:
  "\<not> is_null ammdata" "mdb_wf ammdata" "mversioned ammdata" "prefixed ammdata (ascii ''a'') = amm_key"
  by (simp_all add: from_db_def from_parts_def should_enable_versioned_namespace_def ascii_def is_null_def prefixed_def mdb_wf_def amm_key_def)

text \<open>A namespace without a tree.\<close>

abbreviation runes :: mdb where
  "runes \<equiv> from_db (ascii ''runes:'')"

definition raw_world :: "mem_db world" where
  "raw_world = \<lparr>wdb = [(ascii ''runes:b'', [2]), (ascii ''runes:a'', [1]), (ascii ''other'', [9])], wtree = None\<rparr>"

lemma raw_world_sim: "world_sim mem_env map_of T raw_world v"
  by (simp add: world_sim_def raw_world_def)

lemma raw_world_idle: "idle raw_world"
  by (simp add: idle_def raw_world_def)

lemma runes_simps [simp]:
  "\<not> mversioned runes" "\<not> is_null runes" "mprefix runes = ascii ''runes:''" "prefixed runes k = ascii ''runes:'' @ k"
  "\<not> through_tree runes w"
  by (simp_all add: from_db_def from_parts_def should_enable_versioned_namespace_def ascii_def is_null_def prefixed_def
      through_tree_def)

text \<open>A world after one block, and a module that has indexed it.\<close>

definition block_world :: "mem_db world" where
  "block_world = \<lparr>wdb = tdb block_db, wtree = Some (tstate block_db)\<rparr>"

definition essentials_at_7 :: "(mem_db, unit, unit) espo_module" where
  "essentials_at_7 = \<lparr>get_name = ''essentials'', config_spec = None, set_config = (\<lambda>_. None), mod_mdb = None,
     preflight_reorg = (\<lambda>n s. Some (Inr (), s)), handle_reorg = (\<lambda>n s. Some (Inr (), s)),
     get_index_height = (\<lambda>s. Some 7)\<rparr>"

end
