(* ===== verification/Store_Properties.thy ===== *)
theory Store_Properties
  imports Mem_World
begin

text \<open>
  The properties of the \<open>Mdb\<close> handles, of the pointers over them and of reorganisations. The
  hypotheses are those of the tree properties, carried to the world by \<open>world_sim\<close>: the tree of
  the world, if there is one, is in a reachable state.
\<close>

section \<open>Namespaces\<close>

text \<open>
  C11. Isolation of namespaces: a put or delete through one handle is what that handle reads at the key
  afterwards, and no other cell of any handle changes, where the handles of the versioned
  namespaces and those of the others address different cells even in one database. A write through the tree
  while a block is open or a pin is set succeeds and changes no cell that any handle reads.
\<close>

theorem namespace_isolation:
  assumes "env_ok E C" "hash_len E" "world_sim E C T w v"
    and "mdb_wf m" "\<not> is_null m" "\<not> is_tree_internal_key (prefixed m k)"
    and "through_tree m w \<longrightarrow> batch_nodes (hash_node E) [(prefixed m k, x)] (v_target v) \<subseteq> T"
  shows "\<exists>w'. mdb_change E m k x w = Some (Inr (), w') \<and> (\<forall>m' k'. mdb_wf m' \<and> \<not> is_null m' \<and> \<not> is_tree_internal_key (prefixed m' k') \<longrightarrow>
    mdb_get E m' w' k' = (if takes_effect m w \<and> through_tree m' w = through_tree m w \<and> prefixed m' k' = prefixed m k then ok x
      else mdb_get E m' w k'))"
proof -
  obtain w' v' where w': "mdb_change E m k x w = Some (Inr (), w')" "world_sim E C T w' v'"
    "wtree w' = None \<longleftrightarrow> wtree w = None"
    "\<forall>tree key. \<not> is_tree_internal_key key \<longrightarrow> cell C w' v' tree key
      = (if takes_effect m w \<and> tree = through_tree m w \<and> key = prefixed m k then x else cell C w v tree key)"
    using change_cells [OF assms] by metis
  have "through_tree m' w' = through_tree m' w" for m' using w'(3) by (simp add: through_tree_def)
  then show ?thesis
    using w'(1,4) mdb_get_cell [OF assms(1) w'(2)] mdb_get_cell [OF assms(1,3)] by auto
qed

theorem namespace_isolation_witness:
  "\<exists>w'. mdb_change mem_env ammdata (ascii ''a'') (Some [5]) fresh_world = Some (Inr (), w')
    \<and> mdb_get mem_env ammdata w' (ascii ''a'') = ok (Some [5])
    \<and> mdb_get mem_env runes w' (ascii ''x'') = mdb_get mem_env runes fresh_world (ascii ''x'')"
proof -
  have "\<not> is_tree_internal_key amm_key" by (simp add: is_tree_internal_key_def starts_with_def amm_key_def prefix_defs ascii_def)
  moreover have "\<not> is_tree_internal_key (prefixed runes (ascii ''x''))"
    by (simp add: is_tree_internal_key_def starts_with_def prefixed_def from_db_def from_parts_def prefix_defs)
  moreover have "through_tree ammdata fresh_world" using ammdata_simps(3) by (simp add: through_tree_def fresh_world_def)
  ultimately show ?thesis
    using namespace_isolation [OF mem_env_ok mem_hash_len fresh_world_sim ammdata_simps(2,1), of "ascii ''a''" "Some [5]"]
      amm_write fresh_world_idle ammdata_simps by (fastforce simp: takes_effect_def)
qed

text \<open>
  C33. All reads of a handle are views of one ordered map, whether they go through the versioned tree
  or to the database directly: point and grouped reads look keys up in it, prefix and range
  scans return its entries in order, with keys relative to the namespace.
\<close>

theorem namespace_reads_agree:
  assumes "env_ok E C" "world_sim E C T w v" "mdb_wf m"
  shows "\<exists>ns. sorted_kvs ns \<and> (\<forall>k. mdb_get E m w k = ok (map_of ns k))
    \<and> (\<forall>ks. mdb_multi_get E m w ks = ok (map (map_of ns) ks))
    \<and> (\<forall>p. scan_prefix_entries E m w p = ok (filter (\<lambda>e. starts_with (fst e) p) ns))
    \<and> (\<forall>p. scan_prefix_keys E m w p = ok (map fst (filter (\<lambda>e. starts_with (fst e) p) ns)))
    \<and> (\<forall>lo hi. scan_range_entries E m w lo hi = ok (kv_range lo hi ns))"
  using sorted_namespace [OF assms(2)] mdb_get_namespace [OF assms] mdb_multi_get_namespace [OF assms(1,2)]
    scan_prefix_entries_namespace [OF assms(1,2)] scan_prefix_keys_namespace [OF assms(1,2)]
    scan_range_entries_namespace [OF assms(1,2)]
  by (intro exI [of _ "namespace C m w v"]) simp

theorem namespace_reads_agree_witness:
  "\<exists>ns. (\<forall>k. mdb_get mem_env runes raw_world k = ok (map_of ns k))
    \<and> (\<forall>p. scan_prefix_entries mem_env runes raw_world p = ok (filter (\<lambda>e. starts_with (fst e) p) ns))"
  using namespace_reads_agree [OF mem_env_ok raw_world_sim [of "{}" no_versions], of runes] by auto

text \<open>
  C35. A page of a range of a handle is the slice \<open>offset .. offset + limit\<close> of the range scan, on both
  paths; through the tree this needs an upper bound when the page goes backwards. A limit whose buffer of
  48 bytes per entry exceeds \<open>isize::MAX\<close> panics.
\<close>

theorem namespace_pages:
  assumes "env_ok E C" "world_sim E C T w v" "\<not> is_null m" "through_tree m w \<longrightarrow> hi \<noteq> None \<or> \<not> reverse"
  shows "\<exists>es. scan_range_entries E m w lo hi = ok es
    \<and> scan_range_entries_page E m w lo hi offset limit reverse
        = with_capacity 48 limit (ok (take limit (drop offset (if reverse then rev es else es))))"
  using scan_range_entries_namespace [OF assms(1,2)] scan_page_namespace [OF assms] by (cases reverse) simp_all

theorem namespace_pages_witness:
  "\<exists>es. scan_range_entries mem_env ammdata both_world [] (Some [255]) = ok es
    \<and> scan_range_entries_page mem_env ammdata both_world [] (Some [255]) 0 1 True = ok (take 1 (drop 0 (rev es)))"
  using namespace_pages [OF mem_env_ok both_world_sim ammdata_simps(1), of "Some [255]" True "[]" 0 1] by (simp add: with_capacity_def)

text \<open>
  C37. Without an upper bound a page backwards through the tree counts entries of later namespaces
  against \<open>limit\<close> before it drops them: as soon as \<open>limit\<close> entries lie above the namespace, the page
  is empty, whatever the namespace holds (or the buffer for the limit is too large, which panics).
\<close>

theorem reverse_page_counts_other_namespaces:
  assumes "env_ok E C" "world_sim E C T w v" "through_tree m w" "\<not> is_null m"
    and "limit \<le> length later" "t_live (v_visible v) = earlier @ later"
    and "\<forall>e\<in>set later. prefixed m lo \<le> fst e \<and> \<not> starts_with (fst e) (mprefix m)"
  shows "scan_range_entries_page E m w lo None 0 limit True = with_capacity 48 limit (ok [])"
proof -
  from assms(2,4) obtain d where d: "versioned_manager m w = Some d" "sim E C T d v" "tdb d = wdb w"
    using assms(3) by (cases rule: versioned_manager_cases) auto
  have "kv_range (prefixed m lo) None later = later" using assms(7) by (simp add: kv_range_def below_def filter_id_conv)
  then have "take limit (rev (kv_range (prefixed m lo) None (earlier @ later))) = take limit (rev later)"
    using assms(5) by (simp add: kv_range_def)
  moreover have "relative (mprefix m) (take limit (rev later)) = []"
    using assms(7) by (auto simp: relative_eq filter_empty_conv dest!: in_set_takeD)
  ultimately show ?thesis
    using assms(4,6) d sim_scans(4) [OF assms(1) d(2), of "prefixed m lo" None 0 limit True]
    by (simp add: scan_range_entries_page_def)
qed

theorem reverse_page_counts_other_namespaces_witness:
  "scan_range_entries_page mem_env (from_db (ascii ''ammdata:'')) both_world [] None 0 1 True = ok []
    \<and> mdb_get mem_env (from_db (ascii ''ammdata:'')) both_world (ascii ''a'') = ok (Some [5])"
proof -
  let ?m = "from_db (ascii ''ammdata:'')"
  have m: "through_tree ?m both_world" "\<not> is_null ?m" "mprefix ?m = ascii ''ammdata:''"
    by (simp_all add: from_db_def from_parts_def should_enable_versioned_namespace_def is_null_def through_tree_def both_world_def)
  have "prefixed ?m [] \<le> token_key" "\<not> starts_with token_key (ascii ''ammdata:'')"
    unfolding prefixed_def m(3) by (simp_all add: token_key_def starts_with_def ascii_def)
  with reverse_page_counts_other_namespaces [OF mem_env_ok both_world_sim m(1,2), of 1 "[(token_key, [6])]" "[(amm_key, [5])]" "[]"]
  have "scan_range_entries_page mem_env ?m both_world [] None 0 1 True = ok []" by (simp add: both_live m with_capacity_def)
  moreover have "mdb_get mem_env ?m both_world (ascii ''a'') = ok (Some [5])"
    using mdb_get_cell [OF mem_env_ok both_world_sim _ m(2), of "ascii ''a''"] m
    unfolding prefixed_def m(3) by (simp add: cell_def both_live amm_key_def ascii_def)
  ultimately show ?thesis ..
qed

text \<open>
  C34. A bulk write is atomic and last-call-wins within the namespace of its handle: each key the
  closure touched reads as its last call, every other key of the handle as before. Through the tree, while a
  block is open or a pin is set, all keys of the handle read as before.
\<close>

theorem bulk_write_last_call_wins:
  assumes "env_ok E C" "hash_len E" "world_sim E C T w v" "mdb_wf m" "\<not> is_null m"
    and "\<forall>k. \<not> is_tree_internal_key (prefixed m k)"
    and "through_tree m w \<longrightarrow> batch_nodes (hash_node E) (canonicalize (map (full_change m) calls)) (v_target v) \<subseteq> T"
  shows "\<exists>w'. bulk_write E m calls w = Some (Inr (), w')
    \<and> (\<forall>k. mdb_get E m w' k = (if takes_effect m w
        then (case map_of (rev (map call_change calls)) k of Some x \<Rightarrow> ok x | None \<Rightarrow> mdb_get E m w k) else mdb_get E m w k))"
proof -
  have keys: "\<forall>c\<in>set calls. \<not> is_tree_internal_key (fst (full_change m c))" using assms(6) by (simp add: full_change_def)
  obtain w' v' where w': "bulk_write E m calls w = Some (Inr (), w')" "world_sim E C T w' v'" "wtree w' = None \<longleftrightarrow> wtree w = None"
    "\<forall>key. \<not> is_tree_internal_key key \<longrightarrow> cell C w' v' (through_tree m w) key
      = (if takes_effect m w then kv_changes (map (full_change m) calls) else id) (cell C w v (through_tree m w)) key"
    using bulk_cells [OF assms(1-5) keys assms(7)] by metis
  have "through_tree m w' = through_tree m w" using w'(3) by (simp add: through_tree_def)
  then show ?thesis
    using w'(1,4) assms(6) mdb_get_cell [OF assms(1) w'(2) assms(4,5)] mdb_get_cell [OF assms(1,3,4,5)]
    by (auto simp: kv_changes_apply map_of_full_changes split: option.split)
qed

theorem bulk_write_last_call_wins_witness:
  "\<exists>w'. bulk_write mem_env ammdata [Call_put (ascii ''a'') [9], Call_put (ascii ''a'') [5]] fresh_world = Some (Inr (), w')
    \<and> mdb_get mem_env ammdata w' (ascii ''a'') = ok (Some [5])"
proof -
  let ?calls = "[Call_put (ascii ''a'') [9], Call_put (ascii ''a'') [5]]"
  have keys: "\<forall>k. \<not> is_tree_internal_key (prefixed ammdata k)"
    by (simp add: from_db_def from_parts_def prefixed_def is_tree_internal_key_def starts_with_def prefix_defs ascii_def)
  have "canonicalize (map (full_change ammdata) ?calls) = [(amm_key, Some [5])]"
    by (simp add: canonicalize_eq keep_last_def full_change_def ammdata_simps)
  then show ?thesis
    using bulk_write_last_call_wins [OF mem_env_ok mem_hash_len fresh_world_sim ammdata_simps(2,1) keys, of ?calls]
      amm_write fresh_world_idle by (auto simp: takes_effect_def)
qed

section \<open>Pointers\<close>

text \<open>
  C26. Following the cursors of \<open>scan_desc_cursor_page\<close> until there are no more pages ends, and the pages
  together are the entries under the pointer in descending order, each exactly once, with at
  most \<open>limit\<close> entries a page.
\<close>

theorem cursor_pages_enumerate:
  assumes "env_ok E C" "world_sim E C T w v" "limit > 0"
    and "scan_prefix_entries E (lp_mdb p) w (lp_key p) = ok es" "length es < n"
  shows "\<exists>pgs. follow n (\<lambda>c. scan_desc_cursor_page E p w None c limit) None = ok pgs \<and> concat pgs = rev es
    \<and> (\<forall>pg\<in>set pgs. length pg \<le> limit)"
  using head.follow_all [of E C T "(w, v)" limit p n] assms scan_prefix_entries_namespace [OF assms(1,2), of "lp_mdb p" "lp_key p"]
  by simp

theorem cursor_pages_enumerate_witness:
  "\<exists>es pgs. scan_prefix_entries mem_env runes raw_world [] = ok es
    \<and> follow (Suc (length es)) (\<lambda>c. scan_desc_cursor_page mem_env (lp_root runes) raw_world None c 1) None = ok pgs
    \<and> concat pgs = rev es"
proof -
  obtain es where "scan_prefix_entries mem_env runes raw_world [] = ok es"
    using scan_prefix_entries_namespace [OF mem_env_ok raw_world_sim [of "{}" no_versions], of runes "[]"] by blast
  with cursor_pages_enumerate [OF mem_env_ok raw_world_sim [of "{}" no_versions], of 1 "lp_root runes" es "Suc (length es)"]
  show ?thesis by (auto simp: lp_root_def)
qed

text \<open>
  The same for the pages at a block: they enumerate, in descending order, the entries that block
  left under the pointer, although later blocks may have been written meanwhile.
\<close>

theorem block_cursor_pages_enumerate:
  assumes "env_ok E C" "world_sim E C T w v" "limit > 0"
    and "scan_prefix_entries_at_blockhash E (lp_mdb p) w b (lp_key p) = ok es" "length es < n"
  shows "\<exists>pgs. follow n (\<lambda>c. scan_desc_cursor_page E p w (Some b) c limit) None = ok pgs \<and> concat pgs = rev es
    \<and> (\<forall>pg\<in>set pgs. length pg \<le> limit)"
  using at_block.follow_all [of E C T "(w, v)" limit p b n] assms
    scan_prefix_at_blockhash_namespace [OF assms(1,2), of "lp_mdb p" b "lp_key p"]
  by simp

theorem block_cursor_pages_enumerate_witness:
  "\<exists>es pgs. scan_prefix_entries_at_blockhash mem_env (from_db (ascii ''ammdata:'')) both_world block_hash [] = ok es
    \<and> follow (Suc (length es)) (\<lambda>c. scan_desc_cursor_page mem_env (lp_root (from_db (ascii ''ammdata:''))) both_world (Some block_hash) c 1) None = ok pgs
    \<and> concat pgs = rev es"
proof -
  let ?m = "from_db (ascii ''ammdata:'')"
  obtain es where "scan_prefix_entries_at_blockhash mem_env ?m both_world block_hash [] = ok es"
    using scan_prefix_at_blockhash_namespace [OF mem_env_ok both_world_sim, of ?m block_hash "[]"] by blast
  with block_cursor_pages_enumerate [OF mem_env_ok both_world_sim, of 1 "lp_root ?m" block_hash es "Suc (length es)"]
  show ?thesis by (auto simp: lp_root_def)
qed

section \<open>Reorganisations\<close>

text \<open>
  C12. Rolling back: suppose that every module approves, that handling the reorg writes nothing among the keys of the
  tree, and that the height below \<open>next_height\<close> is indexed and its block has a root. Then the shared tree is
  rewound to that block, and however \<open>handle_reorg_switch\<close> ends, the tree reads as that block left it and the
  height index ends there. If all modules handle the reorg, the switch succeeds exactly when no module
  reports an index height at or above \<open>next_height\<close> afterwards.
\<close>

theorem reorg_switch_rewinds:
  assumes "env_ok E C" "hash_len E" "wtree w = Some st" "sim E C T \<lparr>tdb = wdb w, tstate = st\<rparr> v"
    and "1 \<le> n" "blockhash_for_height E (wdb w) (n - 1) = Inr (Some b)"
    and "root_for_blockhash E \<lparr>tdb = wdb w, tstate = st\<rparr> b = Inr (Some r)"
    and "\<forall>m\<in>set ms. preflight_reorg m n (w, mem) = Some (Inr (), (w, mem))"
    and "\<forall>m\<in>set ms. frames (tree_part C) (handle_reorg m n)"
  shows "\<exists>w1. wtree w1 \<noteq> None \<and> reads_rewound E r n w w1
    \<and> (\<forall>res w' mem'. handle_reorg_switch E ms n (w, mem) = Some (res, (w', mem')) \<longrightarrow> wtree w' \<noteq> None \<and> reads_rewound E r n w w')
    \<and> (\<forall>w' mem'. handle_modules n ms (w1, mem) = Some (Inr (), (w', mem')) \<longrightarrow>
        (\<exists>res. handle_reorg_switch E ms n (w, mem) = Some (res, (w', mem'))
          \<and> (res = Inr () \<longleftrightarrow> (\<forall>m\<in>set ms. \<forall>h. get_index_height m (w', mem') = Some h \<longrightarrow> h < n))))"
proof -
  let ?d = "\<lparr>tdb = wdb w, tstate = st\<rparr>"
  obtain d' v' where d': "rewind_to_height E (Some (n - 1)) ?d = Some (Inr (), d')" "sim E C T d' v'"
    "\<And>k. tree_get E d' k = get_at_root E (wdb w) r k"
    "\<And>h. blockhash_for_height E (tdb d') h = (if n - 1 < h then Inr None else blockhash_for_height E (wdb w) h)"
    using rewind_reads [OF assms(1,2,4), of "n - 1" b r] assms(6,7) by auto
  let ?w1 = "\<lparr>wdb = tdb d', wtree = Some (tstate d')\<rparr>"
  have h: "n - 1 < h \<longleftrightarrow> n \<le> h" for h using assms(5) by unat_arith
  have eq: "\<lparr>tdb = tdb d', tstate = tstate d'\<rparr> = d'" by (rule tree_db.equality) simp_all
  have rewound: "wtree w' \<noteq> None \<and> reads_rewound E r n w w'" if "tree_part C (w', mem') = tree_part C (?w1, mem'')" for w' mem' mem''
    using tree_part_reads [OF assms(1) _ that, of T v'] d'(2-4) by (simp add: eq reads_rewound_def h)
  have pre: "for_each (\<lambda>m. with_context (Cannot_roll_back (get_name m) n) (preflight_reorg m n)) ms (w, mem) = Some (Inr (), (w, mem))"
    using assms(8) by (intro for_each_same) (simp add: with_context_def)
  have rw: "with_context (Rewind_failed n) (on_world (rewind_tree_to_before E n)) (w, mem) = Some (Inr (), (?w1, mem))"
    using d'(1) rewind_before_indexed [OF assms(1,3,5,6)] by (simp add: with_context_def on_world_def on_tree_def)
  have switch: "handle_reorg_switch E ms n (w, mem) = bindc (handle_modules n ms) (\<lambda>_. for_each (check_height n) ms) (?w1, mem)"
    by (simp add: handle_reorg_switch_def pre rw handle_modules_def)
  have "frames (tree_part C) (bindc (handle_modules n ms) (\<lambda>_. for_each (check_height n) ms))"
    by (intro frames_bindc frames_handle_modules frames_check_heights) (use assms(9) in auto)
  from framesD [OF this] have part: "tree_part C (w', mem') = tree_part C (?w1, mem)"
    if "handle_reorg_switch E ms n (w, mem) = Some (res, (w', mem'))" for res w' mem'
    using that unfolding switch by blast
  show ?thesis
  proof (intro exI [of _ ?w1] conjI allI impI)
    show "reads_rewound E r n w ?w1" using rewound [OF refl] by blast
    fix w' mem' assume "handle_modules n ms (?w1, mem) = Some (Inr (), (w', mem'))"
    then show "\<exists>res. handle_reorg_switch E ms n (w, mem) = Some (res, (w', mem'))
        \<and> (res = Inr () \<longleftrightarrow> (\<forall>m\<in>set ms. \<forall>h. get_index_height m (w', mem') = Some h \<longrightarrow> h < n))"
      using check_heights [of n ms "(w', mem')"] unfolding switch by (auto simp: bindc_def)
  qed (use rewound [OF part] in auto)
qed

theorem reorg_switch_rewinds_witness:
  "\<exists>w' mem'. handle_reorg_switch mem_env [essentials_at_7] 8 (block_world, ()) = Some (Inr (), (w', mem'))"
proof -
  have hb: "blockhash_for_height mem_env (tdb block_db) 7 = Inr (Some block_hash)"
    using sim_blockhash [OF mem_env_ok block_db_sim, of 7] by (simp add: block_versions_eq)
  have rt: "root_for_blockhash mem_env block_db block_hash = Inr (Some (root_id mem_hash one_entry))"
    using sim_root_for [OF mem_env_ok block_db_sim, of block_hash]
    by (simp add: block_versions_eq no_versions_def v_tree_of_def)
  have eq: "\<lparr>tdb = wdb block_world, tstate = tstate block_db\<rparr> = block_db"
    by (rule tree_db.equality) (simp_all add: block_world_def)
  have "frames (tree_part map_of) (handle_reorg essentials_at_7 8)" by (simp add: essentials_at_7_def frames_def)
  with reorg_switch_rewinds [OF mem_env_ok mem_hash_len, of block_world "tstate block_db" small_nodes block_versions 8 block_hash
      "root_id mem_hash one_entry" "[essentials_at_7]" "()", unfolded eq] block_db_sim hb rt
  show ?thesis by (fastforce simp: block_world_def essentials_at_7_def handle_modules_def with_context_def)
qed

text \<open>
  A veto changes nothing: when a module refuses in the preflight phase, and those before it
  approve without a change, \<open>handle_reorg_switch\<close> reports that module and leaves the tree and
  every module's memory as they were.
\<close>

theorem preflight_veto_is_clean:
  assumes "\<forall>m\<in>set before. preflight_reorg m n s = Some (Inr (), s)" "preflight_reorg m n s = Some (Inl e, s)"
  shows "handle_reorg_switch E (before @ m # after) n s = Some (Inl (Cannot_roll_back (get_name m) n e), s)"
proof -
  have "for_each (\<lambda>m. with_context (Cannot_roll_back (get_name m) n) (preflight_reorg m n)) (before @ m # after) s
      = Some (Inl (Cannot_roll_back (get_name m) n e), s)"
    using assms by (intro for_each_first_error) (simp_all add: with_context_def)
  then show ?thesis by (simp add: handle_reorg_switch_def)
qed

theorem preflight_veto_is_clean_witness:
  "handle_reorg_switch mem_env [essentials_at_7, essentials_at_7\<lparr>preflight_reorg := \<lambda>n s. Some (Inl ''no'', s)\<rparr>] 8 (block_world, ())
     = Some (Inl (Cannot_roll_back ''essentials'' 8 ''no''), (block_world, ()))"
  using preflight_veto_is_clean [of "[essentials_at_7]" 8 "(block_world, ())" "essentials_at_7\<lparr>preflight_reorg := \<lambda>n s. Some (Inl ''no'', s)\<rparr>" "''no''" mem_env "[]"]
  by (simp add: essentials_at_7_def)

text \<open>
  C36. The registry: modules registered from an empty registry have \<open>essentials\<close> first and the handle
  of their own namespace, and no key of one namespace is a key of another, for names without a
  colon.
\<close>

theorem registered_namespaces_disjoint:
  assumes "registry_ok reg" "register_module cfg m reg = Some reg'"
  shows "registry_ok reg' \<and> (\<forall>a\<in>set (modules reg'). \<forall>b\<in>set (modules reg'). \<forall>i j.
    CHR '':'' \<notin> set (get_name a) \<and> CHR '':'' \<notin> set (get_name b)
      \<and> prefixed (the (mod_mdb a)) i = prefixed (the (mod_mdb b)) j \<longrightarrow> get_name a = get_name b)"
proof -
  have ok: "registry_ok reg'" by (rule registry_ok_register [OF assms])
  have p: "mprefix (the (mod_mdb a)) = prefix_kv (get_name a)" if "a \<in> set (modules reg')" for a
    using ok that by (auto simp: registry_ok_def from_db_def from_parts_def mdb_null_def)
  show ?thesis
  proof (intro conjI ballI allI impI, rule ok)
    fix a b i j assume "a \<in> set (modules reg')" "b \<in> set (modules reg')" "CHR '':'' \<notin> set (get_name a)
      \<and> CHR '':'' \<notin> set (get_name b) \<and> prefixed (the (mod_mdb a)) i = prefixed (the (mod_mdb b)) j"
    then show "get_name a = get_name b"
      using prefix_kv_disjoint [of "get_name a" "get_name b" i j] p by (simp add: prefixed_def)
  qed
qed

theorem registered_namespaces_disjoint_witness:
  "\<exists>reg'. register_module (\<lambda>_. None) essentials_at_7 with_db = Some reg' \<and> registry_ok reg'"
proof -
  have "\<exists>reg'. register_module (\<lambda>_. None) essentials_at_7 with_db = Some reg'"
    by (simp add: register_module_def with_db_def essentials_at_7_def Let_def)
  with registered_namespaces_disjoint [OF registry_ok_new(1), of "\<lambda>_. None" essentials_at_7] show ?thesis by blast
qed

end
