(* ===== verification/U128.thy ===== *)
theory U128
  imports Prelude
begin

text \<open>
  The 128-bit integers of the token amounts. A \<open>u128\<close> is a natural number, in range when it is at
  most \<open>U128_MAX\<close>; the operations write out what Rust does at the bound (saturate, return
  \<open>None\<close>, wrap). A cast \<open>as i128\<close> wraps into the signed range.
\<close>

type_synonym u128 = nat
type_synonym i128 = int

definition U128_MAX :: u128 where
  "U128_MAX = 2 ^ 128 - 1"

definition saturating_add :: "u128 \<Rightarrow> u128 \<Rightarrow> u128" where
  "saturating_add a b = min (a + b) U128_MAX"

definition saturating_sub :: "u128 \<Rightarrow> u128 \<Rightarrow> u128" where
  "saturating_sub a b = a - b"

definition saturating_mul :: "u128 \<Rightarrow> u128 \<Rightarrow> u128" where
  "saturating_mul a b = min (a * b) U128_MAX"

definition checked_add :: "u128 \<Rightarrow> u128 \<Rightarrow> u128 option" where
  "checked_add a b = (if a + b \<le> U128_MAX then Some (a + b) else None)"

definition checked_sub :: "u128 \<Rightarrow> u128 \<Rightarrow> u128 option" where
  "checked_sub a b = (if b \<le> a then Some (a - b) else None)"

definition checked_mul :: "u128 \<Rightarrow> u128 \<Rightarrow> u128 option" where
  "checked_mul a b = (if a * b \<le> U128_MAX then Some (a * b) else None)"

definition checked_div :: "u128 \<Rightarrow> u128 \<Rightarrow> u128 option" where
  "checked_div a b = (if b = 0 then None else Some (a div b))"

definition I128_MIN :: i128 where
  "I128_MIN = - (2 ^ 127)"

text \<open>A value modulo \<open>2 ^ 128\<close> in the signed range.\<close>

definition wrap_i128 :: "int \<Rightarrow> i128" where
  "wrap_i128 n = (n + 2 ^ 127) mod 2 ^ 128 - 2 ^ 127"

definition as_i128 :: "u128 \<Rightarrow> i128" where
  "as_i128 a = wrap_i128 (int a)"

lemma saturating_le [simp]: "saturating_add a b \<le> U128_MAX" "saturating_mul a b \<le> U128_MAX"
  by (simp_all add: saturating_add_def saturating_mul_def)

lemma saturating_le_exact: "saturating_add a b \<le> a + b" "saturating_mul a b \<le> a * b"
  by (simp_all add: saturating_add_def saturating_mul_def)

lemma saturating_exact:
  "a + b \<le> U128_MAX \<Longrightarrow> saturating_add a b = a + b" "a * b \<le> U128_MAX \<Longrightarrow> saturating_mul a b = a * b"
  by (simp_all add: saturating_add_def saturating_mul_def)

lemma wrap_i128_id: "- (2 ^ 127) \<le> n \<Longrightarrow> n < 2 ^ 127 \<Longrightarrow> wrap_i128 n = n"
  by (simp add: wrap_i128_def)

lemma as_i128_small: "a < 2 ^ 127 \<Longrightarrow> as_i128 a = int a"
  by (simp add: as_i128_def wrap_i128_def)

lemma checked_add_Some: "checked_add a b = Some c \<longleftrightarrow> c = a + b \<and> a + b \<le> U128_MAX"
  by (auto simp: checked_add_def)

lemma checked_sub_Some: "checked_sub a b = Some c \<longleftrightarrow> b \<le> a \<and> c = a - b"
  by (auto simp: checked_sub_def)

lemma checked_mul_Some: "checked_mul a b = Some c \<longleftrightarrow> c = a * b \<and> a * b \<le> U128_MAX"
  by (auto simp: checked_mul_def)

lemma checked_div_Some: "checked_div a b = Some c \<longleftrightarrow> b \<noteq> 0 \<and> c = a div b"
  by (auto simp: checked_div_def)

lemmas checked_Some = checked_add_Some checked_sub_Some checked_mul_Some checked_div_Some

end
