(* ===== verification/Pathfinder.thy ===== *)
theory Pathfinder
  imports U128 "HOL-Library.Multiset"
begin

text \<open>
  The swap planner of \<^verbatim>\<open>src/modules/ammdata/utils/pathfinder.rs\<close>: constant-product quotes with a flat fee,
  the pool graph, best-first searches for an exact input and an exact output, and the search
  for a profitable cycle.

  A \<open>HashMap\<close> is an association list in the order its iterator yields. \<open>BinaryHeap\<close> is modelled by its
  contract: \<open>pop\<close> removes a greatest element (among equals the one pushed first, which the
  library leaves open).
\<close>

section \<open>Constant-product quotes\<close>

record alkane_id =
  id_block :: u32
  id_tx :: "64 word"

record pool_snapshot =
  base_reserve :: u128
  quote_reserve :: u128
  base_id :: alkane_id
  quote_id :: alkane_id

type_synonym snapshot = "(alkane_id \<times> pool_snapshot) list"

definition DEFAULT_FEE_BPS :: nat where
  "DEFAULT_FEE_BPS = 50"

definition apply_fee :: "u128 \<Rightarrow> nat \<Rightarrow> u128" where
  "apply_fee amount_in fee_bps =
     (let numer = saturating_mul amount_in (saturating_sub 10000 fee_bps) in numer div 10000)"

definition xyk_out_exact_in :: "u128 \<Rightarrow> u128 \<Rightarrow> u128 \<Rightarrow> nat \<Rightarrow> u128 option" where
  "xyk_out_exact_in r_in r_out amount_in fee_bps =
     (if r_in = 0 \<or> r_out = 0 then None
      else let x = apply_fee amount_in fee_bps in
        if x = 0 then Some 0
        else let denom = saturating_add r_in x in
          if denom = 0 then None else Some (saturating_mul x r_out div denom))"

definition pf_div_ceil :: "u128 \<Rightarrow> u128 \<Rightarrow> u128" where
  "pf_div_ceil a b = (if b = 0 then U128_MAX else if a = 0 then 0 else saturating_add 1 ((a - 1) div b))"

definition xyk_in_for_exact_out :: "u128 \<Rightarrow> u128 \<Rightarrow> u128 \<Rightarrow> nat \<Rightarrow> u128 option" where
  "xyk_in_for_exact_out r_in r_out amount_out fee_bps =
     (if r_in = 0 \<or> r_out = 0 \<or> amount_out = 0 \<or> amount_out \<ge> r_out then None
      else let rem_out = saturating_sub r_out amount_out in
        if rem_out = 0 then None
        else let num = saturating_mul amount_out r_in;
                 x_prime = pf_div_ceil num rem_out;
                 denom_bps = saturating_sub 10000 fee_bps in
          if denom_bps = 0 then None
          else Some (pf_div_ceil (saturating_mul x_prime 10000) denom_bps))"

section \<open>The graph of the pools\<close>

record edge =
  pool :: alkane_id
  token_in :: alkane_id
  token_out :: alkane_id

record graph =
  neighbors :: "(alkane_id \<times> (alkane_id \<times> edge) list) list"
  in_neighbors :: "(alkane_id \<times> (alkane_id \<times> edge) list) list"
  pools :: snapshot

text \<open>\<open>map.entry(k).or_default().push(v)\<close>.\<close>

fun push_entry :: "'k \<Rightarrow> 'v \<Rightarrow> ('k \<times> 'v list) list \<Rightarrow> ('k \<times> 'v list) list" where
  "push_entry k v [] = [(k, [v])]"
| "push_entry k v ((k', vs) # rest) = (if k' = k then (k', vs @ [v]) # rest else (k', vs) # push_entry k v rest)"

definition add_pool :: "alkane_id \<times> pool_snapshot \<Rightarrow> graph \<Rightarrow> graph" where
  "add_pool entry g =
     (let pool_id = fst entry; snap = snd entry in
      if base_reserve snap = 0 \<or> quote_reserve snap = 0 then g
      else
        let a = base_id snap; b = quote_id snap;
            e_ab = \<lparr>pool = pool_id, token_in = a, token_out = b\<rparr>;
            e_ba = \<lparr>pool = pool_id, token_in = b, token_out = a\<rparr> in
        g\<lparr>neighbors := push_entry b (a, e_ba) (push_entry a (b, e_ab) (neighbors g)),
          in_neighbors := push_entry a (b, e_ba) (push_entry b (a, e_ab) (in_neighbors g))\<rparr>)"

definition from_snapshot :: "snapshot \<Rightarrow> graph" where
  "from_snapshot snapshot = fold add_pool snapshot \<lparr>neighbors = [], in_neighbors = [], pools = snapshot\<rparr>"

definition reserves_for :: "graph \<Rightarrow> edge \<Rightarrow> (u128 \<times> u128) option" where
  "reserves_for g e = (case map_of (pools g) (pool e) of
       None \<Rightarrow> None
     | Some snap \<Rightarrow>
         if token_in e = base_id snap \<and> token_out e = quote_id snap then Some (base_reserve snap, quote_reserve snap)
         else if token_in e = quote_id snap \<and> token_out e = base_id snap then Some (quote_reserve snap, base_reserve snap)
         else None)"

section \<open>Quotes along a path\<close>

record hop =
  hop_pool :: alkane_id
  hop_token_in :: alkane_id
  hop_token_out :: alkane_id
  hop_amount_in :: u128
  hop_amount_out :: u128

record path_quote =
  hops :: "hop list"
  amount_in :: u128
  amount_out :: u128

definition hop_of :: "edge \<Rightarrow> u128 \<Rightarrow> u128 \<Rightarrow> hop" where
  "hop_of e i out = \<lparr>hop_pool = pool e, hop_token_in = token_in e, hop_token_out = token_out e,
     hop_amount_in = i, hop_amount_out = out\<rparr>"

definition quote_of_hops :: "hop list \<Rightarrow> path_quote" where
  "quote_of_hops hs = \<lparr>hops = hs,
     amount_in = (case hs of [] \<Rightarrow> 0 | h # _ \<Rightarrow> hop_amount_in h),
     amount_out = (if hs = [] then 0 else hop_amount_out (last hs))\<rparr>"

fun hops_exact_in :: "graph \<Rightarrow> nat \<Rightarrow> edge list \<Rightarrow> u128 \<Rightarrow> hop list \<Rightarrow> hop list option" where
  "hops_exact_in g fee_bps [] amount hops_out = Some hops_out"
| "hops_exact_in g fee_bps (e # edges) amount hops_out = (case reserves_for g e of
       None \<Rightarrow> None
     | Some (rin, rout) \<Rightarrow> (case xyk_out_exact_in rin rout amount fee_bps of
           None \<Rightarrow> None
         | Some out \<Rightarrow> hops_exact_in g fee_bps edges out (hops_out @ [hop_of e amount out])))"

definition pathquote_from_edges_exact_in :: "graph \<Rightarrow> edge list \<Rightarrow> u128 \<Rightarrow> nat \<Rightarrow> path_quote option" where
  "pathquote_from_edges_exact_in g edges amount fee_bps =
     (if edges = [] then None else map_option quote_of_hops (hops_exact_in g fee_bps edges amount []))"

fun hops_exact_out :: "graph \<Rightarrow> nat \<Rightarrow> edge list \<Rightarrow> u128 \<Rightarrow> hop list \<Rightarrow> hop list option" where
  "hops_exact_out g fee_bps [] required hops_rev = Some hops_rev"
| "hops_exact_out g fee_bps (e # rev_edges) required hops_rev = (case reserves_for g e of
       None \<Rightarrow> None
     | Some (rin, rout) \<Rightarrow> (case xyk_in_for_exact_out rin rout required fee_bps of
           None \<Rightarrow> None
         | Some need_in \<Rightarrow> hops_exact_out g fee_bps rev_edges need_in (hops_rev @ [hop_of e need_in required])))"

definition pathquote_from_edges_exact_out :: "graph \<Rightarrow> edge list \<Rightarrow> u128 \<Rightarrow> nat \<Rightarrow> path_quote option" where
  "pathquote_from_edges_exact_out g edges required fee_bps =
     (if edges = [] then None
      else map_option (\<lambda>hops_rev. quote_of_hops (rev hops_rev)) (hops_exact_out g fee_bps (rev edges) required []))"

section \<open>Best-first search\<close>

text \<open>Popping a greatest element of a heap, where \<open>le\<close> is the order of its elements.\<close>

fun greatest :: "('a \<Rightarrow> 'a \<Rightarrow> bool) \<Rightarrow> 'a \<Rightarrow> 'a list \<Rightarrow> 'a" where
  "greatest le x [] = x"
| "greatest le x (y # ys) = (if le y x then greatest le x ys else greatest le y ys)"

definition heap_pop :: "('a \<Rightarrow> 'a \<Rightarrow> bool) \<Rightarrow> 'a list \<Rightarrow> ('a \<times> 'a list) option" where
  "heap_pop le heap = (case heap of
       [] \<Rightarrow> None
     | x # xs \<Rightarrow> let m = greatest le x xs in Some (m, remove1 m heap))"

record search_node =
  n_amount :: u128
  n_at :: alkane_id
  n_hops :: "edge list"

type_synonym best_seen = "(alkane_id \<times> nat) \<rightharpoonup> u128"

definition lookup_edges :: "(alkane_id \<times> (alkane_id \<times> edge) list) list \<Rightarrow> alkane_id \<Rightarrow> (alkane_id \<times> edge) list" where
  "lookup_edges m t = (case map_of m t of Some es \<Rightarrow> es | None \<Rightarrow> [])"

text \<open>The node one out-edge of the popped node leads to, if it is not skipped.\<close>

definition step_in :: "graph \<Rightarrow> alkane_id \<Rightarrow> nat \<Rightarrow> search_node \<Rightarrow> alkane_id \<times> edge \<Rightarrow> search_node list" where
  "step_in g dst fee_bps node nxt =
     (let to = fst nxt; ek = snd nxt; hs = n_hops node in
      if (\<exists>e\<in>set hs. token_out e = to) \<and> to \<noteq> dst then []
      else if hs \<noteq> [] \<and> pool (last hs) = pool ek \<and> token_in (last hs) = to \<and> token_out (last hs) = n_at node then []
      else case reserves_for g ek of
        None \<Rightarrow> []
      | Some (rin, rout) \<Rightarrow>
          if rin = 0 \<or> rout = 0 then []
          else case xyk_out_exact_in rin rout (n_amount node) fee_bps of
            None \<Rightarrow> []
          | Some next_amt \<Rightarrow>
              if next_amt = 0 then []
              else [\<lparr>n_amount = next_amt, n_at = to, n_hops = hs @ [ek]\<rparr>])"

definition step_out :: "graph \<Rightarrow> alkane_id \<Rightarrow> nat \<Rightarrow> search_node \<Rightarrow> alkane_id \<times> edge \<Rightarrow> search_node list" where
  "step_out g src fee_bps node prv =
     (let from = fst prv; ek = snd prv; hs = n_hops node in
      if (\<exists>e\<in>set hs. token_in e = from) \<and> from \<noteq> src then []
      else if hs \<noteq> [] \<and> pool (last hs) = pool ek \<and> token_out (last hs) = from \<and> token_in (last hs) = n_at node then []
      else case reserves_for g ek of
        None \<Rightarrow> []
      | Some (rin, rout) \<Rightarrow>
          if rin = 0 \<or> rout = 0 then []
          else case xyk_in_for_exact_out rin rout (n_amount node) fee_bps of
            None \<Rightarrow> []
          | Some need_up \<Rightarrow> [\<lparr>n_amount = need_up, n_at = from, n_hops = hs @ [ek]\<rparr>])"

lemma step_in_cases:
  "step_in g dst fee node nxt = [] \<or> (\<exists>rin rout amt. reserves_for g (snd nxt) = Some (rin, rout)
     \<and> xyk_out_exact_in rin rout (n_amount node) fee = Some amt
     \<and> ((\<exists>e\<in>set (n_hops node). token_out e = fst nxt) \<longrightarrow> fst nxt = dst)
     \<and> step_in g dst fee node nxt = [\<lparr>n_amount = amt, n_at = fst nxt, n_hops = n_hops node @ [snd nxt]\<rparr>])"
proof (cases "reserves_for g (snd nxt)")
  case (Some r)
  then show ?thesis
    by (cases r; cases "xyk_out_exact_in (fst r) (snd r) (n_amount node) fee") (simp_all add: step_in_def Let_def)
qed (simp add: step_in_def Let_def)

lemma step_out_cases:
  "step_out g src fee node nxt = [] \<or> (\<exists>rin rout amt. reserves_for g (snd nxt) = Some (rin, rout)
     \<and> xyk_in_for_exact_out rin rout (n_amount node) fee = Some amt
     \<and> ((\<exists>e\<in>set (n_hops node). token_in e = fst nxt) \<longrightarrow> fst nxt = src)
     \<and> step_out g src fee node nxt = [\<lparr>n_amount = amt, n_at = fst nxt, n_hops = n_hops node @ [snd nxt]\<rparr>])"
proof (cases "reserves_for g (snd nxt)")
  case (Some r)
  then show ?thesis
    by (cases r; cases "xyk_in_for_exact_out (fst r) (snd r) (n_amount node) fee") (simp_all add: step_out_def Let_def)
qed (simp add: step_out_def Let_def)

lemma length_step: "length (step_in g dst fee node nxt) \<le> 1" "length (step_out g src fee node nxt) \<le> 1"
  using step_in_cases [of g dst fee node nxt] step_out_cases [of g src fee node nxt] by auto

lemma hops_step:
  "n \<in> set (step_in g dst fee node nxt) \<Longrightarrow> n_hops n = n_hops node @ [snd nxt]"
  "n \<in> set (step_out g src fee node nxt) \<Longrightarrow> n_hops n = n_hops node @ [snd nxt]"
  using step_in_cases [of g dst fee node nxt] step_out_cases [of g src fee node nxt] by auto

lemma greatest_in: "greatest le x xs \<in> set (x # xs)"
  by (induction xs arbitrary: x) auto

lemma mset_heap_pop:
  assumes "heap_pop le heap = Some (x, rest)"
  shows "x \<in> set heap \<and> mset heap = add_mset x (mset rest)"
proof -
  have "x \<in> set heap" "rest = remove1 x heap"
    using assms greatest_in [of le] by (auto simp: heap_pop_def Let_def split: list.splits)
  then show ?thesis by (simp add: insert_DiffM)
qed

text \<open>
  The weight of a heap, which every iteration decreases: a node of depth \<open>d\<close> weighs more than all the
  nodes it may push, of which there are at most \<open>B\<close>.
\<close>

definition fanout :: "('k \<times> 'v list) list \<Rightarrow> nat" where
  "fanout m = sum_list (map (\<lambda>e. length (snd e)) m)"

definition weight :: "nat \<Rightarrow> nat \<Rightarrow> search_node list \<Rightarrow> nat" where
  "weight B max_hops heap = sum_list (map (\<lambda>n. (B + 1) ^ (max_hops + 1 - length (n_hops n))) heap)"

lemma weight_mset: "mset xs = mset ys \<Longrightarrow> weight B h xs = weight B h ys"
  unfolding weight_def by (metis mset_map sum_mset_sum_list)

lemma weight_append [simp]: "weight B h (xs @ ys) = weight B h xs + weight B h ys"
  by (simp add: weight_def)

lemma weight_pop: "heap_pop le heap = Some (x, rest) \<Longrightarrow> weight B h rest < weight B h heap"
  using mset_heap_pop [of le heap x rest] weight_mset [of heap "x # rest" B h] by (simp add: weight_def)

lemma lookup_edges_fanout: "length (lookup_edges m t) \<le> fanout m"
proof (cases "map_of m t")
  case (Some es)
  then have "length es \<in> set (map (\<lambda>e. length (snd e)) m)" by (force dest: map_of_SomeD)
  then show ?thesis using Some member_le_sum_list by (fastforce simp: lookup_edges_def fanout_def)
qed (simp add: lookup_edges_def)

lemma weight_expand:
  assumes "\<And>nxt. length (step nxt) \<le> 1" "\<And>n nxt. n \<in> set (step nxt) \<Longrightarrow> n_hops n = hs @ [snd nxt]"
    and "length hs \<le> h" "length nexts \<le> B"
  shows "weight B h (concat (map step nexts)) < (B + 1) ^ (h + 1 - length hs)"
proof -
  let ?w = "(B + 1) ^ (h - length hs)"
  have "weight B h (step nxt) \<le> ?w" for nxt
    using assms(1) [of nxt] assms(2) [of "hd (step nxt)" nxt] by (cases "step nxt") (auto simp: weight_def)
  then have "weight B h (concat (map step nexts)) \<le> length nexts * ?w"
    by (induction nexts) (auto simp: weight_def add_mono)
  also have "\<dots> < (B + 1) * ?w" using assms(4) by (intro mult_strict_right_mono) simp_all
  also have "\<dots> = (B + 1) ^ (h + 1 - length hs)" using assms(3) by (simp add: Suc_diff_le)
  finally show ?thesis .
qed

lemma weight_step:
  assumes "heap_pop le heap = Some (x, rest)" "length (n_hops x) \<le> h"
    and "\<And>nxt. length (step nxt) \<le> 1" "\<And>n nxt. n \<in> set (step nxt) \<Longrightarrow> n_hops n = n_hops x @ [snd nxt]"
    and "length nexts \<le> B"
  shows "weight B h (rest @ concat (map step nexts)) < weight B h heap"
  using weight_expand [OF assms(3,4,2,5)] mset_heap_pop [OF assms(1)] weight_mset [of heap "x # rest" B h]
  by (simp add: weight_def)

text \<open>The loop of \<open>best_first_exact_in\<close>: the state is the heap, \<open>best_seen\<close>, the best quote and its output.\<close>

definition better_in :: "graph \<Rightarrow> alkane_id \<Rightarrow> u128 \<Rightarrow> nat \<Rightarrow> search_node \<Rightarrow> path_quote option \<times> u128 \<Rightarrow> path_quote option \<times> u128" where
  "better_in g dst amount fee_bps node best =
     (if n_at node = dst \<and> length (n_hops node) > 0 then
        (case pathquote_from_edges_exact_in g (n_hops node) amount fee_bps of
           Some q \<Rightarrow> if amount_out q > snd best then (Some q, amount_out q) else best
         | None \<Rightarrow> best)
      else best)"

function exact_in_loop ::
  "graph \<Rightarrow> alkane_id \<Rightarrow> u128 \<Rightarrow> nat \<Rightarrow> nat \<Rightarrow> search_node list \<Rightarrow> best_seen \<Rightarrow> path_quote option \<times> u128 \<Rightarrow> path_quote option \<times> u128" where
  "exact_in_loop g dst amount fee_bps max_hops heap seen best =
     (case heap_pop (\<lambda>a b. n_amount a \<le> n_amount b) heap of
        None \<Rightarrow> best
      | Some (node, heap') \<Rightarrow>
          let depth = length (n_hops node) in
          if depth > max_hops then exact_in_loop g dst amount fee_bps max_hops heap' seen best
          else
            let best' = better_in g dst amount fee_bps node best in
            if (case seen (n_at node, depth) of Some best_amt \<Rightarrow> n_amount node \<le> best_amt | None \<Rightarrow> False) then
              exact_in_loop g dst amount fee_bps max_hops heap' seen best'
            else
              exact_in_loop g dst amount fee_bps max_hops
                (heap' @ concat (map (step_in g dst fee_bps node) (lookup_edges (neighbors g) (n_at node))))
                (seen((n_at node, depth) \<mapsto> n_amount node)) best')"
  by pat_completeness auto
termination
  by (relation "measure (\<lambda>(g, dst, amount, fee, h, heap, seen, best). weight (fanout (neighbors g)) h heap)")
    (auto simp: weight_pop not_less intro!: weight_step length_step(1) hops_step(1) lookup_edges_fanout simp del: weight_append)

definition best_first_exact_in :: "graph \<Rightarrow> alkane_id \<Rightarrow> alkane_id \<Rightarrow> u128 \<Rightarrow> nat \<Rightarrow> nat \<Rightarrow> path_quote option" where
  "best_first_exact_in g src dst amount fee_bps max_hops =
     fst (exact_in_loop g dst amount fee_bps max_hops [\<lparr>n_amount = amount, n_at = src, n_hops = []\<rparr>] Map.empty (None, 0))"

text \<open>The loop of \<open>best_first_exact_out\<close>: nodes are searched backwards, \<open>n_amount\<close> is the input needed.\<close>

definition better_out :: "graph \<Rightarrow> alkane_id \<Rightarrow> u128 \<Rightarrow> nat \<Rightarrow> search_node \<Rightarrow> path_quote option \<Rightarrow> path_quote option" where
  "better_out g src required fee_bps node best =
     (if n_at node = src \<and> length (n_hops node) > 0 then
        (case pathquote_from_edges_exact_out g (rev (n_hops node)) required fee_bps of
           Some q \<Rightarrow> if (case best of None \<Rightarrow> True | Some cur \<Rightarrow> amount_in q < amount_in cur) then Some q else best
         | None \<Rightarrow> best)
      else best)"

function exact_out_loop ::
  "graph \<Rightarrow> alkane_id \<Rightarrow> u128 \<Rightarrow> nat \<Rightarrow> nat \<Rightarrow> search_node list \<Rightarrow> best_seen \<Rightarrow> path_quote option \<Rightarrow> path_quote option" where
  "exact_out_loop g src required fee_bps max_hops heap seen best =
     (case heap_pop (\<lambda>a b. n_amount b \<le> n_amount a) heap of
        None \<Rightarrow> best
      | Some (node, heap') \<Rightarrow>
          let depth = length (n_hops node) in
          if depth > max_hops then exact_out_loop g src required fee_bps max_hops heap' seen best
          else
            let best' = better_out g src required fee_bps node best in
            if (case seen (n_at node, depth) of Some best_need \<Rightarrow> n_amount node \<ge> best_need | None \<Rightarrow> False) then
              exact_out_loop g src required fee_bps max_hops heap' seen best'
            else
              exact_out_loop g src required fee_bps max_hops
                (heap' @ concat (map (step_out g src fee_bps node) (lookup_edges (in_neighbors g) (n_at node))))
                (seen((n_at node, depth) \<mapsto> n_amount node)) best')"
  by pat_completeness auto
termination
  by (relation "measure (\<lambda>(g, src, required, fee, h, heap, seen, best). weight (fanout (in_neighbors g)) h heap)")
    (auto simp: weight_pop not_less intro!: weight_step length_step(2) hops_step(2) lookup_edges_fanout simp del: weight_append)

declare exact_in_loop.simps [simp del] exact_out_loop.simps [simp del]

definition best_first_exact_out :: "graph \<Rightarrow> alkane_id \<Rightarrow> alkane_id \<Rightarrow> u128 \<Rightarrow> nat \<Rightarrow> nat \<Rightarrow> path_quote option" where
  "best_first_exact_out g src dst required fee_bps max_hops =
     exact_out_loop g src required fee_bps max_hops [\<lparr>n_amount = required, n_at = dst, n_hops = []\<rparr>] Map.empty None"

section \<open>Planners\<close>

definition plan_swap_exact_tokens_for_tokens ::
  "snapshot \<Rightarrow> alkane_id \<Rightarrow> alkane_id \<Rightarrow> u128 \<Rightarrow> u128 \<Rightarrow> nat \<Rightarrow> nat \<Rightarrow> path_quote option" where
  "plan_swap_exact_tokens_for_tokens snapshot src dst amount amount_out_min fee_bps max_hops =
     (if amount = 0 \<or> src = dst then None
      else case best_first_exact_in (from_snapshot snapshot) src dst amount fee_bps max_hops of
        None \<Rightarrow> None
      | Some q \<Rightarrow> if amount_out q \<ge> amount_out_min then Some q else None)"

definition plan_swap_tokens_for_exact_tokens ::
  "snapshot \<Rightarrow> alkane_id \<Rightarrow> alkane_id \<Rightarrow> u128 \<Rightarrow> u128 \<Rightarrow> nat \<Rightarrow> nat \<Rightarrow> path_quote option" where
  "plan_swap_tokens_for_exact_tokens snapshot src dst required amount_in_max fee_bps max_hops =
     (if required = 0 \<or> src = dst then None
      else case best_first_exact_out (from_snapshot snapshot) src dst required fee_bps max_hops of
        None \<Rightarrow> None
      | Some q \<Rightarrow> if amount_in q \<le> amount_in_max then Some q else None)"

definition plan_swap_exact_tokens_for_tokens_implicit ::
  "snapshot \<Rightarrow> alkane_id \<Rightarrow> alkane_id \<Rightarrow> u128 \<Rightarrow> u128 \<Rightarrow> nat \<Rightarrow> nat \<Rightarrow> path_quote option" where
  "plan_swap_exact_tokens_for_tokens_implicit snapshot src dst available_in amount_out_min fee_bps max_hops =
     plan_swap_exact_tokens_for_tokens snapshot src dst available_in amount_out_min fee_bps max_hops"

definition plan_exact_in_default_fee ::
  "snapshot \<Rightarrow> alkane_id \<Rightarrow> alkane_id \<Rightarrow> u128 \<Rightarrow> u128 \<Rightarrow> nat \<Rightarrow> path_quote option" where
  "plan_exact_in_default_fee snapshot src dst amount amount_out_min max_hops =
     plan_swap_exact_tokens_for_tokens snapshot src dst amount amount_out_min DEFAULT_FEE_BPS max_hops"

definition plan_exact_out_default_fee ::
  "snapshot \<Rightarrow> alkane_id \<Rightarrow> alkane_id \<Rightarrow> u128 \<Rightarrow> u128 \<Rightarrow> nat \<Rightarrow> path_quote option" where
  "plan_exact_out_default_fee snapshot src dst required amount_in_max max_hops =
     plan_swap_tokens_for_exact_tokens snapshot src dst required amount_in_max DEFAULT_FEE_BPS max_hops"

definition plan_implicit_default_fee ::
  "snapshot \<Rightarrow> alkane_id \<Rightarrow> alkane_id \<Rightarrow> u128 \<Rightarrow> u128 \<Rightarrow> nat \<Rightarrow> path_quote option" where
  "plan_implicit_default_fee snapshot src dst available_in amount_out_min max_hops =
     plan_swap_exact_tokens_for_tokens_implicit snapshot src dst available_in amount_out_min DEFAULT_FEE_BPS max_hops"

end
