(* ===== verification/Mev_Cycles.thy ===== *)
theory Mev_Cycles
  imports Pathfinder
begin

text \<open>
  The cycle search of \<^verbatim>\<open>src/modules/ammdata/utils/pathfinder.rs\<close>: the enumeration of simple cycles, the search
  for the best input on one of them, and \<open>plan_best_mev_swap\<close>. Profits are \<open>i128\<close> values computed
  by wrapping casts and subtraction, as in a release build.
\<close>

section \<open>Operations\<close>

definition is_immediate_backtrack_same_pool :: "edge list \<Rightarrow> bool" where
  "is_immediate_backtrack_same_pool path =
     (if length path < 2 then False
      else let a = path ! (length path - 2); b = path ! (length path - 1) in
        pool a = pool b \<and> token_in a = token_out b \<and> token_out a = token_in b)"

text \<open>
  \<open>dfs_cycles\<close>; \<open>visited\<close> and \<open>acc\<close> are restored after each branch, so they are arguments here, and the paths
  pushed to \<open>out\<close> are the result.
\<close>

fun dfs_cycles :: "graph \<Rightarrow> alkane_id \<Rightarrow> alkane_id \<Rightarrow> nat \<Rightarrow> alkane_id list \<Rightarrow> edge list \<Rightarrow> edge list list" where
  "dfs_cycles g cur start 0 visited acc = []"
| "dfs_cycles g cur start (Suc remaining) visited acc =
     concat (map (\<lambda>(to, ek).
       if to = start then
         (if acc \<noteq> [] \<and> length acc + 1 \<ge> 2 then
            (let path = acc @ [ek] in if \<not> is_immediate_backtrack_same_pool path then [path] else [])
          else [])
       else if to \<in> set visited then []
       else if acc \<noteq> [] \<and> pool (last acc) = pool ek \<and> token_in (last acc) = to \<and> token_out (last acc) = cur then []
       else dfs_cycles g to start remaining (to # visited) (acc @ [ek]))
     (lookup_edges (neighbors g) cur))"

definition enumerate_cycles :: "graph \<Rightarrow> alkane_id \<Rightarrow> nat \<Rightarrow> edge list list" where
  "enumerate_cycles g start max_hops = dfs_cycles g start start max_hops [start] []"

fun cap_loop :: "graph \<Rightarrow> edge list \<Rightarrow> u128 \<Rightarrow> u128" where
  "cap_loop g [] cap = cap"
| "cap_loop g (e # edges) cap = (case reserves_for g e of
       Some (rin, _) \<Rightarrow>
         if rin = 0 then 0
         else let hop_cap = rin div 3 in cap_loop g edges (if hop_cap < cap then hop_cap else cap)
     | None \<Rightarrow> 0)"

definition cap_for_path :: "graph \<Rightarrow> edge list \<Rightarrow> u128" where
  "cap_for_path g edges = cap_loop g edges U128_MAX"

definition profit :: "path_quote \<Rightarrow> i128" where
  "profit q = wrap_i128 (as_i128 (amount_out q) - as_i128 (amount_in q))"

text \<open>One candidate of a scan: the best quote so far and its profit.\<close>

definition keep_better :: "path_quote \<Rightarrow> path_quote option \<times> i128 \<Rightarrow> path_quote option \<times> i128" where
  "keep_better q best = (let p = profit q in if p > snd best then (Some q, p) else best)"

fun scan_inputs :: "graph \<Rightarrow> edge list \<Rightarrow> nat \<Rightarrow> u128 list \<Rightarrow> path_quote option \<times> i128 \<Rightarrow> path_quote option \<times> i128" where
  "scan_inputs g edges fee_bps [] best = best"
| "scan_inputs g edges fee_bps (x # xs) best =
     scan_inputs g edges fee_bps xs (case pathquote_from_edges_exact_in g edges x fee_bps of
       Some q \<Rightarrow> keep_better q best | None \<Rightarrow> best)"

text \<open>The ternary search; the first argument counts the iterations left, \<open>None\<close> is the early return.\<close>

fun ternary :: "nat \<Rightarrow> graph \<Rightarrow> edge list \<Rightarrow> nat \<Rightarrow> u128 \<Rightarrow> u128 \<Rightarrow> path_quote option \<times> i128
    \<Rightarrow> (u128 \<times> u128 \<times> path_quote option \<times> i128) option" where
  "ternary 0 g edges fee_bps lo hi best = Some (lo, hi, best)"
| "ternary (Suc n) g edges fee_bps lo hi best =
     (let m1 = lo + (hi - lo) div 3; m2 = hi - (hi - lo) div 3 in
      case pathquote_from_edges_exact_in g edges m1 fee_bps of
        None \<Rightarrow> None
      | Some q1 \<Rightarrow> (case pathquote_from_edges_exact_in g edges m2 fee_bps of
            None \<Rightarrow> None
          | Some q2 \<Rightarrow>
              let best = keep_better q2 (keep_better q1 best);
                  lo = (if profit q1 < profit q2 then m1 + 1 else lo);
                  hi = (if profit q1 < profit q2 then hi else saturating_sub m2 1) in
              if lo \<ge> hi then Some (lo, hi, best) else ternary n g edges fee_bps lo hi best))"

definition optimize_exact_in_on_path :: "graph \<Rightarrow> edge list \<Rightarrow> nat \<Rightarrow> u128 \<Rightarrow> path_quote option" where
  "optimize_exact_in_on_path g edges fee_bps cap =
     (if cap = 0 then None
      else if cap \<le> 64 then fst (scan_inputs g edges fee_bps [1..<cap + 1] (None, I128_MIN))
      else case ternary 40 g edges fee_bps 1 cap (None, I128_MIN) of
        None \<Rightarrow> None
      | Some (lo, hi, best) \<Rightarrow>
          let start = max (saturating_sub lo 16) 1; stop = min (hi + 16) cap in
          fst (scan_inputs g edges fee_bps [start..<stop + 1] best))"

fun mev_loop :: "graph \<Rightarrow> nat \<Rightarrow> edge list list \<Rightarrow> path_quote option \<times> i128 \<Rightarrow> path_quote option \<times> i128" where
  "mev_loop g fee_bps [] best = best"
| "mev_loop g fee_bps (path # paths) best =
     (let cap = cap_for_path g path in
      if cap = 0 then mev_loop g fee_bps paths best
      else mev_loop g fee_bps paths (case optimize_exact_in_on_path g path fee_bps cap of
          Some q \<Rightarrow> keep_better q best | None \<Rightarrow> best))"

definition plan_best_mev_swap :: "snapshot \<Rightarrow> alkane_id \<Rightarrow> nat \<Rightarrow> nat \<Rightarrow> path_quote option" where
  "plan_best_mev_swap snapshot token fee_bps max_hops =
     (let g = from_snapshot snapshot;
          r = mev_loop g fee_bps (enumerate_cycles g token max_hops) (None, 0) in
      if snd r > 0 then fst r else None)"

end
