(* ===== verification/Swap_Quotes.thy ===== *)
theory Swap_Quotes
  imports Pathfinder
begin

text \<open>
  The constant-product quotes of the planner: what a quote promises, and that the quote for an exact
  output is sufficient and minimal.
\<close>

section \<open>Rounding\<close>

lemma apply_fee_exact: "a * 10000 \<le> U128_MAX \<Longrightarrow> apply_fee a fee = a * (10000 - fee) div 10000"
proof -
  assume "a * 10000 \<le> U128_MAX"
  moreover have "a * (10000 - fee) \<le> a * 10000" by (rule mult_le_mono2) simp
  ultimately have "a * (10000 - fee) \<le> U128_MAX" by linarith
  then show ?thesis by (simp add: apply_fee_def saturating_sub_def saturating_exact)
qed

lemma apply_fee_le: "apply_fee a fee \<le> a"
proof -
  have "saturating_mul a (10000 - fee) \<le> a * 10000"
    using saturating_le_exact(2) [of a "10000 - fee"] mult_le_mono2 [of "10000 - fee" 10000 a] by linarith
  then show ?thesis by (simp add: apply_fee_def saturating_sub_def div_le_mono [of _ "a * 10000" 10000, simplified])
qed

text \<open>The ceiling is the least number whose multiple reaches the dividend.\<close>

lemma div_ceil_le_iff:
  assumes "b > 0" "a \<le> U128_MAX"
  shows "pf_div_ceil a b \<le> n \<longleftrightarrow> a \<le> n * b"
proof (cases "a = 0")
  case False
  have "(a - 1) div b + 1 \<le> a" using False div_le_dividend [of "a - 1" b] by linarith
  then have "pf_div_ceil a b = 1 + (a - 1) div b"
    using False assms by (simp add: pf_div_ceil_def saturating_exact)
  moreover have "1 + (a - 1) div b \<le> n \<longleftrightarrow> a \<le> n * b"
    using False assms(1) div_less_iff_less_mult [of b "a - 1" n] by (cases a) (auto simp: Suc_le_eq)
  ultimately show ?thesis by simp
qed (use assms in \<open>simp add: pf_div_ceil_def\<close>)

lemma fee_reaches_iff:
  assumes "fee < 10000" "x * 10000 \<le> U128_MAX"
  shows "n \<le> x * (10000 - fee) div 10000 \<longleftrightarrow> n * 10000 \<le> x * (10000 - fee)"
  by (simp add: less_eq_div_iff_mult_less_eq)

section \<open>One pool\<close>

text \<open>A quote never drains the pool, and the product of the reserves does not fall.\<close>

lemma xyk_out_bound:
  assumes "xyk_out_exact_in r_in r_out a fee = Some out" "r_in + a \<le> U128_MAX"
  shows "out < r_out" "out * (r_in + apply_fee a fee) \<le> apply_fee a fee * r_out"
proof -
  let ?x = "apply_fee a fee"
  have r: "r_in > 0" "r_out > 0" using assms(1) by (auto simp: xyk_out_exact_in_def split: if_splits)
  have le: "r_in + ?x \<le> U128_MAX" using assms(2) apply_fee_le [of a fee] by linarith
  have "out * (r_in + ?x) \<le> ?x * r_out \<and> out < r_out"
  proof (cases "?x = 0")
    case True
    then have "out = 0" using assms(1) r by (simp add: xyk_out_exact_in_def)
    with r show ?thesis by simp
  next
    case False
    then have out: "out = saturating_mul ?x r_out div (r_in + ?x)"
      using assms(1) r le by (simp add: xyk_out_exact_in_def saturating_exact Let_def)
    have "out * (r_in + ?x) \<le> saturating_mul ?x r_out" unfolding out by (rule div_times_less_eq_dividend)
    also have "\<dots> \<le> ?x * r_out" by (rule saturating_le_exact)
    finally have 1: "out * (r_in + ?x) \<le> ?x * r_out" .
    have "?x * r_out < r_out * (r_in + ?x)" using r by (simp add: algebra_simps)
    with 1 have "out * (r_in + ?x) < r_out * (r_in + ?x)" by linarith
    with 1 show ?thesis by simp
  qed
  then show "out < r_out" "out * (r_in + ?x) \<le> ?x * r_out" by simp_all
qed

lemma xyk_product_grows:
  assumes "xyk_out_exact_in r_in r_out a fee = Some out" "r_in + a \<le> U128_MAX"
  shows "r_in * r_out \<le> (r_in + a) * (r_out - out)"
proof -
  let ?x = "apply_fee a fee"
  note b = xyk_out_bound [OF assms]
  have "(r_in + ?x) * (r_out - out) = (r_in + ?x) * r_out - out * (r_in + ?x)" by (simp add: diff_mult_distrib2 mult.commute [of out])
  then have "r_in * r_out \<le> (r_in + ?x) * (r_out - out)" using b(2) by (simp add: algebra_simps)
  also have "\<dots> \<le> (r_in + a) * (r_out - out)" using apply_fee_le [of a fee] by simp
  finally show ?thesis .
qed

text \<open>Which inputs reach an output, in range.\<close>

lemma xyk_out_reaches_iff:
  assumes r: "r_in > 0" "out > 0" "out < r_out"
    and range: "a * 10000 \<le> U128_MAX" "r_in + a \<le> U128_MAX" "a * r_out \<le> U128_MAX"
  shows "(\<exists>y\<ge>out. xyk_out_exact_in r_in r_out a fee = Some y)
    \<longleftrightarrow> out * r_in \<le> (a * (10000 - fee) div 10000) * (r_out - out)"
proof -
  define x where "x = a * (10000 - fee) div 10000"
  have x: "apply_fee a fee = x" unfolding x_def using apply_fee_exact [OF range(1)] .
  have le: "x \<le> a" using apply_fee_le [of a fee] x by simp
  have ex: "r_in + x \<le> U128_MAX" "x * r_out \<le> U128_MAX"
    using le range mult_le_mono1 [OF le, of r_out] by linarith+
  have split: "x * r_out = x * (r_out - out) + x * out"
    using r(3) by (simp add: distrib_left [symmetric])
  have "out \<le> x * r_out div (r_in + x) \<longleftrightarrow> out * (r_in + x) \<le> x * r_out"
    using r by (simp add: less_eq_div_iff_mult_less_eq)
  also have "\<dots> \<longleftrightarrow> out * r_in \<le> x * (r_out - out)"
    unfolding split by (simp only: distrib_left mult.commute [of x out] add_le_cancel_right)
  finally have "out \<le> x * r_out div (r_in + x) \<longleftrightarrow> out * r_in \<le> x * (r_out - out)" .
  then show ?thesis
    unfolding x_def [symmetric] using r x ex by (cases "x = 0") (auto simp: xyk_out_exact_in_def saturating_exact Let_def)
qed

section \<open>Exact output\<close>

text \<open>The input quoted for an exact output is the least one that reaches it.\<close>

lemma xyk_in_exact:
  assumes "xyk_in_for_exact_out r_in r_out out fee = Some a"
  shows "r_in > 0" "out > 0" "out < r_out" "fee < 10000"
    "a = pf_div_ceil (saturating_mul (pf_div_ceil (saturating_mul out r_in) (r_out - out)) 10000) (10000 - fee)"
  using assms by (auto simp: xyk_in_for_exact_out_def saturating_sub_def Let_def split: if_splits)

lemma xyk_in_least:
  assumes q: "xyk_in_for_exact_out r_in r_out out fee = Some a"
    and range: "out * r_in \<le> U128_MAX" "pf_div_ceil (out * r_in) (r_out - out) * 10000 \<le> U128_MAX"
      "b * 10000 \<le> U128_MAX" "r_in + b \<le> U128_MAX" "b * r_out \<le> U128_MAX"
  shows "(\<exists>y\<ge>out. xyk_out_exact_in r_in r_out b fee = Some y) \<longleftrightarrow> a \<le> b"
proof -
  note x = xyk_in_exact [OF q]
  let ?p = "pf_div_ceil (out * r_in) (r_out - out)"
  have "a = pf_div_ceil (?p * 10000) (10000 - fee)" using x(5) range(1,2) by (simp add: saturating_exact)
  then have "a \<le> b \<longleftrightarrow> ?p * 10000 \<le> b * (10000 - fee)" using x(4) range(2) by (simp add: div_ceil_le_iff)
  also have "\<dots> \<longleftrightarrow> ?p \<le> b * (10000 - fee) div 10000" using fee_reaches_iff [OF x(4) range(3)] by simp
  also have "\<dots> \<longleftrightarrow> out * r_in \<le> (b * (10000 - fee) div 10000) * (r_out - out)"
    using x(3) range(1) by (simp add: div_ceil_le_iff)
  finally show ?thesis using xyk_out_reaches_iff [OF x(1-3) range(3-5), of fee] by simp
qed

text \<open>
  With reserves of at most \<open>2 ^ 63\<close> and amounts of at most \<open>2 ^ 64\<close> no intermediate value reaches the
  bound: an intermediate that did would make the quoted input larger than \<open>2 ^ 64\<close>.
\<close>

lemma div_ceil_ge: "b > 0 \<Longrightarrow> a \<le> U128_MAX \<Longrightarrow> a \<le> pf_div_ceil a b * b"
  using div_ceil_le_iff [of b a "pf_div_ceil a b"] by simp

lemma xyk_in_small:
  assumes q: "xyk_in_for_exact_out r_in r_out out fee = Some a"
    and small: "r_in \<le> 2 ^ 63" "r_out \<le> 2 ^ 63" "a \<le> 2 ^ 64" "a \<le> b" "b \<le> 2 ^ 64"
  shows "\<exists>y\<ge>out. xyk_out_exact_in r_in r_out b fee = Some y"
proof -
  note x = xyk_in_exact [OF q]
  have num: "out * r_in \<le> U128_MAX"
    using mult_le_mono [of out "2 ^ 63" r_in "2 ^ 63"] x(3) small by (simp add: U128_MAX_def)
  let ?p = "pf_div_ceil (out * r_in) (r_out - out)"
  have "saturating_mul ?p 10000 \<le> a * (10000 - fee)"
    using x(4) by (simp add: x(5) saturating_exact(2) [OF num] div_ceil_ge)
  also have "\<dots> \<le> 2 ^ 64 * 10000" using small(3) by (intro mult_le_mono) simp_all
  finally have "?p * 10000 \<le> U128_MAX" by (simp add: saturating_mul_def U128_MAX_def min_def split: if_splits)
  moreover have "b * r_out \<le> 2 ^ 64 * 2 ^ 63" using small by (intro mult_le_mono) simp_all
  ultimately show ?thesis
    using xyk_in_least [OF q num] small by (simp add: U128_MAX_def)
qed

end
