(* ===== verification/Best_First.thy ===== *)
theory Best_First
  imports Swap_Quotes
begin

text \<open>
  The two best-first loops of the planner share a contract, the locale below: pop a node, offer it to the
  best quote so far, and push its successors unless it is pruned. The graph built from a snapshot is
  characterised by the edges of its pools.
\<close>

section \<open>The contract of the loop\<close>

locale best_first =
  fixes le :: "search_node \<Rightarrow> search_node \<Rightarrow> bool"
    and successors :: "search_node \<Rightarrow> search_node list"
    and better :: "search_node \<Rightarrow> 'b \<Rightarrow> 'b"
    and pruned :: "search_node \<Rightarrow> best_seen \<Rightarrow> bool"
    and h B :: nat
    and loop :: "search_node list \<Rightarrow> best_seen \<Rightarrow> 'b \<Rightarrow> 'b"
  assumes unfold: "loop heap seen best = (case heap_pop le heap of
        None \<Rightarrow> best
      | Some (node, heap') \<Rightarrow>
          if length (n_hops node) > h then loop heap' seen best
          else if pruned node seen then loop heap' seen (better node best)
          else loop (heap' @ successors node) (seen((n_at node, length (n_hops node)) \<mapsto> n_amount node)) (better node best))"
    and fresh: "\<not> pruned node Map.empty"
    and lighter: "heap_pop le heap = Some (node, heap') \<Longrightarrow> length (n_hops node) \<le> h
      \<Longrightarrow> weight B h (heap' @ successors node) < weight B h heap"
begin

lemma loop_cases:
  obtains "heap = []" "loop heap seen best = best"
  | node heap' seen' best' pushed where "mset heap = add_mset node (mset heap')" "node \<in> set heap"
      "loop heap seen best = loop (heap' @ pushed) seen' best'" "weight B h (heap' @ pushed) < weight B h heap"
      "length (n_hops node) > h \<and> best' = best \<and> pushed = []
       \<or> length (n_hops node) \<le> h \<and> best' = better node best \<and> set pushed \<subseteq> set (successors node)"
proof (cases "heap_pop le heap")
  case None
  then have "heap = []" by (auto simp: heap_pop_def Let_def split: list.splits)
  with None show ?thesis using unfold [of heap seen best] that(1) by simp
next
  case (Some r)
  obtain node heap' where r: "heap_pop le heap = Some (node, heap')" using Some by (cases r) auto
  note m = mset_heap_pop [OF r]
  let ?seen = "seen((n_at node, length (n_hops node)) \<mapsto> n_amount node)"
  have step: "loop heap seen best =
      (if length (n_hops node) > h then loop heap' seen best
       else if pruned node seen then loop heap' seen (better node best)
       else loop (heap' @ successors node) ?seen (better node best))"
    using unfold [of heap seen best] r by simp
  consider "length (n_hops node) > h" | "length (n_hops node) \<le> h" "pruned node seen"
    | "length (n_hops node) \<le> h" "\<not> pruned node seen" by linarith
  then show ?thesis
  proof cases
    case 1
    then show ?thesis using that(2) [of node heap' "[]" seen best] m step weight_pop [OF r] by simp
  next
    case 2
    then show ?thesis using that(2) [of node heap' "[]" seen "better node best"] m step weight_pop [OF r] by simp
  next
    case 3
    then show ?thesis
      using that(2) [of node heap' "successors node" ?seen "better node best"] m step lighter [OF r] by simp
  qed
qed

text \<open>What holds of every node and is kept by every offer holds of the result.\<close>

lemma loop_inv:
  assumes "\<And>n m. P n \<Longrightarrow> length (n_hops n) \<le> h \<Longrightarrow> m \<in> set (successors n) \<Longrightarrow> P m"
    and "\<And>n b. P n \<Longrightarrow> length (n_hops n) \<le> h \<Longrightarrow> Q b \<Longrightarrow> Q (better n b)"
  shows "\<forall>n\<in>set heap. P n \<Longrightarrow> Q best \<Longrightarrow> Q (loop heap seen best)"
proof (induction "weight B h heap" arbitrary: heap seen best rule: less_induct)
  case less
  show ?case
  proof (cases heap seen best rule: loop_cases)
    case 1
    then show ?thesis using less.prems by simp
  next
    case (2 node heap' seen' best' pushed)
    have "set heap' \<subseteq> set heap" using arg_cong [OF 2(1), of set_mset] by auto
    moreover have "P node" using 2(2) less.prems(1) by blast
    then have "\<forall>n\<in>set pushed. P n" using 2(5) assms(1) by (metis empty_iff empty_set subset_iff)
    ultimately have "\<forall>n\<in>set (heap' @ pushed). P n" using less.prems(1) by auto
    moreover have "Q best'" using 2 less.prems assms(2) by auto
    ultimately show ?thesis using less.hyps 2 by simp
  qed
qed

text \<open>A node of the heap within the hop limit is offered, and what the offer gives is kept.\<close>

lemma loop_offers:
  assumes "\<And>b. R (better n b)" "\<And>m b. R b \<Longrightarrow> R (better m b)" "length (n_hops n) \<le> h"
  shows "n \<in> set heap \<Longrightarrow> R (loop heap seen best)"
proof (induction "weight B h heap" arbitrary: heap seen best rule: less_induct)
  case less
  show ?case
  proof (cases heap seen best rule: loop_cases)
    case 1
    then show ?thesis using less.prems by simp
  next
    case (2 node heap' seen' best' pushed)
    show ?thesis
    proof (cases "node = n")
      case True
      then have "R best'" using 2 assms by auto
      then show ?thesis using loop_inv [of "\<lambda>_. True" R] assms(2) 2 by auto
    next
      case False
      then have "n \<in> set heap'" using less.prems arg_cong [OF 2(1), of set_mset] by auto
      then show ?thesis using less.hyps [of "heap' @ pushed"] 2 by simp
    qed
  qed
qed

lemma loop_root:
  assumes "length (n_hops root) \<le> h"
  shows "\<exists>seen. loop [root] Map.empty best = loop (successors root) seen (better root best)"
  using assms unfold [of "[root]" Map.empty best] fresh by (auto simp: heap_pop_def)

end

abbreviation nexts_in :: "graph \<Rightarrow> alkane_id \<Rightarrow> nat \<Rightarrow> search_node \<Rightarrow> search_node list" where
  "nexts_in g dst fee node \<equiv> concat (map (step_in g dst fee node) (lookup_edges (neighbors g) (n_at node)))"

abbreviation nexts_out :: "graph \<Rightarrow> alkane_id \<Rightarrow> nat \<Rightarrow> search_node \<Rightarrow> search_node list" where
  "nexts_out g src fee node \<equiv> concat (map (step_out g src fee node) (lookup_edges (in_neighbors g) (n_at node)))"

interpretation ein: best_first "\<lambda>a b. n_amount a \<le> n_amount b" "nexts_in g dst fee" "better_in g dst amount fee"
  "\<lambda>node seen. case seen (n_at node, length (n_hops node)) of Some b \<Rightarrow> n_amount node \<le> b | None \<Rightarrow> False"
  h "fanout (neighbors g)" "exact_in_loop g dst amount fee h" for g dst amount fee h
proof unfold_locales
  show "exact_in_loop g dst amount fee h heap seen best = (case heap_pop (\<lambda>a b. n_amount a \<le> n_amount b) heap of
        None \<Rightarrow> best
      | Some (node, heap') \<Rightarrow>
          if length (n_hops node) > h then exact_in_loop g dst amount fee h heap' seen best
          else if (case seen (n_at node, length (n_hops node)) of Some b \<Rightarrow> n_amount node \<le> b | None \<Rightarrow> False)
          then exact_in_loop g dst amount fee h heap' seen (better_in g dst amount fee node best)
          else exact_in_loop g dst amount fee h (heap' @ nexts_in g dst fee node)
            (seen((n_at node, length (n_hops node)) \<mapsto> n_amount node)) (better_in g dst amount fee node best))" for heap seen best
    by (subst exact_in_loop.simps) (simp only: Let_def)
qed (auto intro!: weight_step length_step(1) hops_step(1) lookup_edges_fanout simp del: weight_append)

interpretation eout: best_first "\<lambda>a b. n_amount b \<le> n_amount a" "nexts_out g src fee" "better_out g src required fee"
  "\<lambda>node seen. case seen (n_at node, length (n_hops node)) of Some b \<Rightarrow> n_amount node \<ge> b | None \<Rightarrow> False"
  h "fanout (in_neighbors g)" "exact_out_loop g src required fee h" for g src required fee h
proof unfold_locales
  show "exact_out_loop g src required fee h heap seen best = (case heap_pop (\<lambda>a b. n_amount b \<le> n_amount a) heap of
        None \<Rightarrow> best
      | Some (node, heap') \<Rightarrow>
          if length (n_hops node) > h then exact_out_loop g src required fee h heap' seen best
          else if (case seen (n_at node, length (n_hops node)) of Some b \<Rightarrow> n_amount node \<ge> b | None \<Rightarrow> False)
          then exact_out_loop g src required fee h heap' seen (better_out g src required fee node best)
          else exact_out_loop g src required fee h (heap' @ nexts_out g src fee node)
            (seen((n_at node, length (n_hops node)) \<mapsto> n_amount node)) (better_out g src required fee node best))" for heap seen best
    by (subst exact_out_loop.simps) (simp only: Let_def)
qed (auto intro!: weight_step length_step(2) hops_step(2) lookup_edges_fanout simp del: weight_append)

section \<open>The graph of a snapshot\<close>

text \<open>An edge of a snapshot: one direction of a pool with liquidity on both sides.\<close>

definition pool_edge :: "snapshot \<Rightarrow> edge \<Rightarrow> bool" where
  "pool_edge s e = (\<exists>(p, snap)\<in>set s. p = pool e \<and> base_reserve snap \<noteq> 0 \<and> quote_reserve snap \<noteq> 0
     \<and> (token_in e = base_id snap \<and> token_out e = quote_id snap \<or> token_in e = quote_id snap \<and> token_out e = base_id snap))"

lemma lookup_push_entry: "lookup_edges (push_entry k v m) t = lookup_edges m t @ (if t = k then [v] else [])"
  by (induction m) (auto simp: lookup_edges_def)

lemma pool_edge_Cons: "pool_edge (x # s) e \<longleftrightarrow> pool_edge [x] e \<or> pool_edge s e"
  by (simp add: pool_edge_def)

lemma edge_eq_iff: "(e = \<lparr>pool = p, token_in = a, token_out = b\<rparr>) \<longleftrightarrow> pool e = p \<and> token_in e = a \<and> token_out e = b"
  by (cases e) simp

lemma add_pool_neighbors:
  "set (lookup_edges (neighbors (add_pool x g)) t)
     = set (lookup_edges (neighbors g) t) \<union> {(token_out e, e) | e. pool_edge [x] e \<and> token_in e = t}"
  "set (lookup_edges (in_neighbors (add_pool x g)) t)
     = set (lookup_edges (in_neighbors g) t) \<union> {(token_in e, e) | e. pool_edge [x] e \<and> token_out e = t}"
  "pools (add_pool x g) = pools g"
  by (auto simp: add_pool_def Let_def lookup_push_entry pool_edge_def edge_eq_iff split: if_splits)

lemma fold_add_pool:
  "set (lookup_edges (neighbors (fold add_pool s g)) t)
     = set (lookup_edges (neighbors g) t) \<union> {(token_out e, e) | e. pool_edge s e \<and> token_in e = t}"
  "set (lookup_edges (in_neighbors (fold add_pool s g)) t)
     = set (lookup_edges (in_neighbors g) t) \<union> {(token_in e, e) | e. pool_edge s e \<and> token_out e = t}"
  "pools (fold add_pool s g) = pools g"
proof (induction s arbitrary: g)
  case (Cons x s)
  { case 1 show ?case using Cons(1) [of "add_pool x g"] pool_edge_Cons [of x s] by (auto simp: add_pool_neighbors) }
  { case 2 show ?case using Cons(2) [of "add_pool x g"] pool_edge_Cons [of x s] by (auto simp: add_pool_neighbors) }
  { case 3 show ?case using Cons(3) [of "add_pool x g"] by (simp add: add_pool_neighbors) }
qed (simp_all add: pool_edge_def)

lemma from_snapshot_edges:
  "set (lookup_edges (neighbors (from_snapshot s)) t) = {(token_out e, e) | e. pool_edge s e \<and> token_in e = t}"
  "set (lookup_edges (in_neighbors (from_snapshot s)) t) = {(token_in e, e) | e. pool_edge s e \<and> token_out e = t}"
  "pools (from_snapshot s) = s"
  unfolding from_snapshot_def by (simp_all add: fold_add_pool) (simp_all add: lookup_edges_def)

end
