(* ===== verification/Swap_Routes.thy ===== *)
theory Swap_Routes
  imports Best_First
begin

text \<open>
  Routes through the pools of a snapshot, and what the planners return in terms of them: a chain of
  swaps from the input token to the output token, each at the price of its pool.
\<close>

section \<open>Walks and chains of swaps\<close>

fun walk :: "snapshot \<Rightarrow> alkane_id \<Rightarrow> edge list \<Rightarrow> alkane_id \<Rightarrow> bool" where
  "walk s t [] t' = (t = t')"
| "walk s t (e # es) t' = (pool_edge s e \<and> token_in e = t \<and> walk s (token_out e) es t')"

lemma walk_append [simp]: "walk s t (xs @ ys) t' \<longleftrightarrow> (\<exists>m. walk s t xs m \<and> walk s m ys t')"
  by (induction xs arbitrary: t) auto

text \<open>The edge a hop uses, and that a hop pays what its pool quotes for an exact input or an exact output.\<close>

definition hop_edge :: "hop \<Rightarrow> edge" where
  "hop_edge h = \<lparr>pool = hop_pool h, token_in = hop_token_in h, token_out = hop_token_out h\<rparr>"

definition priced_in :: "graph \<Rightarrow> nat \<Rightarrow> hop \<Rightarrow> bool" where
  "priced_in g fee h = (case reserves_for g (hop_edge h) of
       None \<Rightarrow> False
     | Some (rin, rout) \<Rightarrow> xyk_out_exact_in rin rout (hop_amount_in h) fee = Some (hop_amount_out h))"

definition priced_out :: "graph \<Rightarrow> nat \<Rightarrow> hop \<Rightarrow> bool" where
  "priced_out g fee h = (case reserves_for g (hop_edge h) of
       None \<Rightarrow> False
     | Some (rin, rout) \<Rightarrow> xyk_in_for_exact_out rin rout (hop_amount_out h) fee = Some (hop_amount_in h))"

text \<open>Each hop spends the token and the amount the hop before it received.\<close>

fun swap_chain :: "(hop \<Rightarrow> bool) \<Rightarrow> alkane_id \<Rightarrow> u128 \<Rightarrow> hop list \<Rightarrow> alkane_id \<Rightarrow> u128 \<Rightarrow> bool" where
  "swap_chain priced t a [] t' a' = (t = t' \<and> a = a')"
| "swap_chain priced t a (h # hs) t' a' = (hop_token_in h = t \<and> hop_amount_in h = a \<and> priced h
     \<and> swap_chain priced (hop_token_out h) (hop_amount_out h) hs t' a')"

lemma swap_chain_append [simp]:
  "swap_chain priced t a (xs @ ys) t' a' \<longleftrightarrow> (\<exists>m b. swap_chain priced t a xs m b \<and> swap_chain priced m b ys t' a')"
  by (induction xs arbitrary: t a) auto

lemma hop_of_simps [simp]: "hop_edge (hop_of e i out) = e" "hop_amount_in (hop_of e i out) = i"
  "hop_amount_out (hop_of e i out) = out" "hop_token_in (hop_of e i out) = token_in e"
  "hop_token_out (hop_of e i out) = token_out e"
  by (simp_all add: hop_of_def hop_edge_def)

lemma hop_edge_simps [simp]: "token_in (hop_edge h) = hop_token_in h" "token_out (hop_edge h) = hop_token_out h"
  by (simp_all add: hop_edge_def)

lemma priced_hop_of:
  "reserves_for g e = Some (rin, rout) \<Longrightarrow> priced_in g fee (hop_of e i out) \<longleftrightarrow> xyk_out_exact_in rin rout i fee = Some out"
  "reserves_for g e = Some (rin, rout) \<Longrightarrow> priced_out g fee (hop_of e i out) \<longleftrightarrow> xyk_in_for_exact_out rin rout out fee = Some i"
  by (simp_all add: priced_in_def priced_out_def)

lemma swap_chain_ends:
  assumes "swap_chain priced t a hs t' a'" "hs \<noteq> []"
  shows "amount_in (quote_of_hops hs) = a" "amount_out (quote_of_hops hs) = a'"
proof -
  show "amount_in (quote_of_hops hs) = a" using assms by (cases hs) (auto simp: quote_of_hops_def)
  show "amount_out (quote_of_hops hs) = a'" using assms by (cases hs rule: rev_cases) (auto simp: quote_of_hops_def)
qed

section \<open>Quotes along a walk\<close>

lemma hops_exact_in_chain:
  assumes "hops_exact_in g fee es a acc = Some hs" "walk s t es t'"
  shows "\<exists>hs' a'. hs = acc @ hs' \<and> map hop_edge hs' = es \<and> swap_chain (priced_in g fee) t a hs' t' a'"
  using assms
proof (induction es arbitrary: a acc t)
  case (Cons e es)
  obtain rin rout out where e: "reserves_for g e = Some (rin, rout)" "xyk_out_exact_in rin rout a fee = Some out"
    and rest: "hops_exact_in g fee es out (acc @ [hop_of e a out]) = Some hs"
    using Cons.prems(1) by (auto split: option.splits)
  obtain hs' a' where "hs = (acc @ [hop_of e a out]) @ hs'" "map hop_edge hs' = es"
    "swap_chain (priced_in g fee) (token_out e) out hs' t' a'"
    using Cons.IH [OF rest, of "token_out e"] Cons.prems(2) by auto
  then show ?case
    using e Cons.prems(2) by (intro exI [of _ "hop_of e a out # hs'"] exI [of _ a']) (simp add: priced_hop_of)
qed auto

lemma hops_exact_out_chain:
  assumes "hops_exact_out g fee res a' acc = Some hs" "walk s t (rev res) t'"
  shows "\<exists>hs' a. hs = acc @ hs' \<and> map hop_edge hs' = res \<and> swap_chain (priced_out g fee) t a (rev hs') t' a'"
  using assms
proof (induction res arbitrary: a' acc t')
  case (Cons e res)
  obtain rin rout a where e: "reserves_for g e = Some (rin, rout)" "xyk_in_for_exact_out rin rout a' fee = Some a"
    and rest: "hops_exact_out g fee res a (acc @ [hop_of e a a']) = Some hs"
    using Cons.prems(1) by (auto split: option.splits)
  obtain hs' b where "hs = (acc @ [hop_of e a a']) @ hs'" "map hop_edge hs' = res"
    "swap_chain (priced_out g fee) t b (rev hs') (token_in e) a"
    using Cons.IH [OF rest, of "token_in e"] Cons.prems(2) by auto
  then show ?case
    using e Cons.prems(2) by (intro exI [of _ "hop_of e a a' # hs'"] exI [of _ b]) (auto simp: priced_hop_of)
qed auto

lemma pathquote_in_chain:
  assumes "pathquote_from_edges_exact_in g es a fee = Some q" "walk s t es t'"
  shows "swap_chain (priced_in g fee) t a (hops q) t' (amount_out q)" "amount_in q = a" "map hop_edge (hops q) = es"
proof -
  obtain hs where hs: "es \<noteq> []" "hops_exact_in g fee es a [] = Some hs" "q = quote_of_hops hs"
    using assms(1) by (auto simp: pathquote_from_edges_exact_in_def split: if_splits)
  obtain a' where c: "swap_chain (priced_in g fee) t a hs t' a'" "map hop_edge hs = es"
    using hops_exact_in_chain [OF hs(2) assms(2)] by auto
  then have "hs \<noteq> []" using hs(1) by auto
  with c show "swap_chain (priced_in g fee) t a (hops q) t' (amount_out q)" "amount_in q = a" "map hop_edge (hops q) = es"
    using swap_chain_ends [OF c(1)] hs(3) by (simp_all add: quote_of_hops_def)
qed

lemma pathquote_out_chain:
  assumes "pathquote_from_edges_exact_out g es a' fee = Some q" "walk s t es t'"
  shows "swap_chain (priced_out g fee) t (amount_in q) (hops q) t' a'" "amount_out q = a'" "map hop_edge (hops q) = es"
proof -
  obtain hs where hs: "es \<noteq> []" "hops_exact_out g fee (rev es) a' [] = Some hs" "q = quote_of_hops (rev hs)"
    using assms(1) by (auto simp: pathquote_from_edges_exact_out_def split: if_splits)
  obtain a where c: "swap_chain (priced_out g fee) t a (rev hs) t' a'" "map hop_edge hs = rev es"
    using hops_exact_out_chain [OF hs(2), of s t t'] assms(2) by auto
  then have "rev hs \<noteq> []" using hs(1) by auto
  with c show "swap_chain (priced_out g fee) t (amount_in q) (hops q) t' a'" "amount_out q = a'" "map hop_edge (hops q) = es"
    using swap_chain_ends [OF c(1)] hs(3) by (simp_all add: quote_of_hops_def rev_map [symmetric])
qed

section \<open>The searches\<close>

text \<open>Every node the forward search visits carries a walk from the source, and the backward one a reversed walk to the target.\<close>

lemma step_in_walk:
  assumes "walk s src (n_hops n) (n_at n)" "m \<in> set (nexts_in (from_snapshot s) dst fee n)"
  shows "walk s src (n_hops m) (n_at m)"
proof -
  obtain nxt where nxt: "nxt \<in> set (lookup_edges (neighbors (from_snapshot s)) (n_at n))"
    "m \<in> set (step_in (from_snapshot s) dst fee n nxt)" using assms(2) by auto
  then show ?thesis
    using assms(1) step_in_cases [of "from_snapshot s" dst fee n nxt] by (auto simp: from_snapshot_edges)
qed

lemma step_out_walk:
  assumes "walk s (n_at n) (rev (n_hops n)) dst" "m \<in> set (nexts_out (from_snapshot s) src fee n)"
  shows "walk s (n_at m) (rev (n_hops m)) dst"
proof -
  obtain nxt where nxt: "nxt \<in> set (lookup_edges (in_neighbors (from_snapshot s)) (n_at n))"
    "m \<in> set (step_out (from_snapshot s) src fee n nxt)" using assms(2) by auto
  then show ?thesis
    using assms(1) step_out_cases [of "from_snapshot s" src fee n nxt] by (auto simp: from_snapshot_edges)
qed

text \<open>The quote a search keeps is the one of a walk within the hop limit.\<close>

lemma best_first_exact_in_route:
  assumes "best_first_exact_in (from_snapshot s) src dst a fee h = Some q"
  shows "\<exists>es. es \<noteq> [] \<and> length es \<le> h \<and> walk s src es dst \<and> amount_out q > 0
    \<and> pathquote_from_edges_exact_in (from_snapshot s) es a fee = Some q"
proof -
  let ?g = "from_snapshot s"
  let ?Q = "\<lambda>b :: path_quote option \<times> u128. \<forall>q. fst b = Some q \<longrightarrow> (\<exists>es. es \<noteq> [] \<and> length es \<le> h \<and> walk s src es dst \<and> amount_out q > (0::nat)
    \<and> pathquote_from_edges_exact_in ?g es a fee = Some q)"
  have "?Q (exact_in_loop ?g dst a fee h [\<lparr>n_amount = a, n_at = src, n_hops = []\<rparr>] Map.empty (None, 0))"
  proof (rule ein.loop_inv [where P = "\<lambda>n. walk s src (n_hops n) (n_at n)" and Q = ?Q])
    fix n :: search_node and b assume "walk s src (n_hops n) (n_at n)" "length (n_hops n) \<le> h" "?Q b"
    then show "?Q (better_in ?g dst a fee n b)"
      by (auto simp: better_in_def split: option.splits if_splits intro!: exI [of _ "n_hops n"])
  qed (erule (1) step_in_walk, simp_all)
  then show ?thesis using assms by (simp add: best_first_exact_in_def)
qed

lemma best_first_exact_out_route:
  assumes "best_first_exact_out (from_snapshot s) src dst a fee h = Some q"
  shows "\<exists>es. es \<noteq> [] \<and> length es \<le> h \<and> walk s src es dst
    \<and> pathquote_from_edges_exact_out (from_snapshot s) es a fee = Some q"
proof -
  let ?g = "from_snapshot s"
  let ?Q = "\<lambda>b. \<forall>q. b = Some q \<longrightarrow> (\<exists>es. es \<noteq> [] \<and> length es \<le> h \<and> walk s src es dst
    \<and> pathquote_from_edges_exact_out ?g es a fee = Some q)"
  have "?Q (exact_out_loop ?g src a fee h [\<lparr>n_amount = a, n_at = dst, n_hops = []\<rparr>] Map.empty None)"
  proof (rule eout.loop_inv [where P = "\<lambda>n. walk s (n_at n) (rev (n_hops n)) dst" and Q = ?Q])
    fix n :: search_node and b assume "walk s (n_at n) (rev (n_hops n)) dst" "length (n_hops n) \<le> h" "?Q b"
    then show "?Q (better_out ?g src a fee n b)"
      by (auto simp: better_out_def split: option.splits if_splits intro!: exI [of _ "rev (n_hops n)"])
  qed (erule (1) step_out_walk, simp_all)
  then show ?thesis using assms by (simp add: best_first_exact_out_def)
qed

section \<open>A direct pool is never missed\<close>

lemma better_in_keeps: "snd b \<le> snd (better_in g dst a fee n b)"
  by (auto simp: better_in_def split: option.splits)

lemma exact_in_loop_output:
  fixes r :: "path_quote option \<times> u128"
  assumes "r = exact_in_loop g dst a fee h heap Map.empty (None, 0)"
  shows "fst r = None \<and> snd r = 0 \<or> (\<exists>q. fst r = Some q \<and> amount_out q = snd r)"
  unfolding assms
  by (rule ein.loop_inv [where P = "\<lambda>_. True"]) (auto simp: better_in_def split: option.splits if_splits)

lemma best_first_exact_in_direct:
  assumes e: "pool_edge s e" "token_in e = src" "token_out e = dst" "src \<noteq> dst"
    and price: "reserves_for (from_snapshot s) e = Some (rin, rout)" "xyk_out_exact_in rin rout a fee = Some y" "y > 0"
    and h: "h \<ge> 1"
  shows "\<exists>q. best_first_exact_in (from_snapshot s) src dst a fee h = Some q \<and> y \<le> amount_out q"
proof -
  let ?g = "from_snapshot s"
  let ?root = "\<lparr>n_amount = a, n_at = src, n_hops = []\<rparr>"
  let ?n = "\<lparr>n_amount = y, n_at = dst, n_hops = [e]\<rparr>"
  let ?r = "exact_in_loop ?g dst a fee h [?root] Map.empty (None, 0)"
  have "step_in ?g dst fee ?root (dst, e) = [?n]"
    using price by (simp add: step_in_def) (auto simp: xyk_out_exact_in_def split: if_splits)
  moreover have "(dst, e) \<in> set (lookup_edges (neighbors ?g) src)" using e by (auto simp: from_snapshot_edges)
  ultimately have n: "?n \<in> set (nexts_in ?g dst fee ?root)" by force
  obtain seen where r: "?r = exact_in_loop ?g dst a fee h (nexts_in ?g dst fee ?root) seen (better_in ?g dst a fee ?root (None, 0))"
    using ein.loop_root [of ?root h ?g dst a fee "(None, 0)"] by fastforce
  have offer: "y \<le> snd (better_in ?g dst a fee ?n b)" for b
    using price by (auto simp: better_in_def pathquote_from_edges_exact_in_def quote_of_hops_def)
  have "y \<le> snd ?r"
    unfolding r using h order_trans [OF _ better_in_keeps]
    by (intro ein.loop_offers [where R = "\<lambda>b. y \<le> snd b", OF offer _ _ n]) simp_all
  then show ?thesis
    using exact_in_loop_output [OF refl, of ?g dst a fee h "[?root]"] price(3) by (auto simp: best_first_exact_in_def)
qed

section \<open>An exact-output route delivers\<close>

definition reserves_within :: "nat \<Rightarrow> snapshot \<Rightarrow> bool" where
  "reserves_within m s = (\<forall>(p, snap)\<in>set s. base_reserve snap \<le> m \<and> quote_reserve snap \<le> m)"

lemma reserves_withinD: "reserves_within m s \<Longrightarrow> reserves_for (from_snapshot s) e = Some (rin, rout) \<Longrightarrow> rin \<le> m \<and> rout \<le> m"
  by (auto simp: reserves_within_def reserves_for_def from_snapshot_edges split: option.splits if_splits dest!: map_of_SomeD)

lemma exact_out_delivers:
  assumes "reserves_within (2 ^ 63) s"
  shows "swap_chain (priced_out (from_snapshot s) fee) t a hs t' a' \<Longrightarrow> \<forall>h\<in>set hs. hop_amount_in h \<le> 2 ^ 64
    \<Longrightarrow> a \<le> b \<Longrightarrow> b \<le> 2 ^ 64
    \<Longrightarrow> \<exists>hs' b'. hops_exact_in (from_snapshot s) fee (map hop_edge hs) b acc = Some (acc @ hs') \<and> length hs' = length hs
      \<and> a' \<le> b' \<and> swap_chain (priced_in (from_snapshot s) fee) t b hs' t' b'"
proof (induction hs arbitrary: t a b acc)
  case (Cons h hs)
  let ?g = "from_snapshot s"
  obtain rin rout where r: "reserves_for ?g (hop_edge h) = Some (rin, rout)"
    and q: "xyk_in_for_exact_out rin rout (hop_amount_out h) fee = Some (hop_amount_in h)"
    using Cons.prems(1) by (auto simp: priced_out_def split: option.splits)
  note small = reserves_withinD [OF assms r]
  obtain y where y: "hop_amount_out h \<le> y" "xyk_out_exact_in rin rout b fee = Some y"
    using xyk_in_small [OF q, of b] small Cons.prems by auto
  have "y < rout" using xyk_out_bound(1) [OF y(2)] small Cons.prems(4) by (simp add: U128_MAX_def)
  then have "y \<le> 2 ^ 64" using small by simp
  then obtain hs' b' where "hops_exact_in ?g fee (map hop_edge hs) y (acc @ [hop_of (hop_edge h) b y]) = Some ((acc @ [hop_of (hop_edge h) b y]) @ hs')"
    "length hs' = length hs" "a' \<le> b'" "swap_chain (priced_in ?g fee) (hop_token_out h) y hs' t' b'"
    using Cons.IH [of "hop_token_out h" "hop_amount_out h" y "acc @ [hop_of (hop_edge h) b y]"] Cons.prems y(1) by auto
  then show ?case using Cons.prems(1) r y(2)
    by (intro exI [of _ "hop_of (hop_edge h) b y # hs'"] exI [of _ b']) (auto simp: priced_hop_of)
qed auto

end
