(* ===== verification/Mev_Search.thy ===== *)
theory Mev_Search
  imports Mev_Cycles Swap_Routes
begin

text \<open>
  What the cycle search finds: exactly the simple cycles through the start token that never turn back
  on the pool they came from, and, on each, a quote at least as profitable as any input it scans.
\<close>

section \<open>Simple cycles\<close>

definition turns_back :: "edge \<Rightarrow> edge \<Rightarrow> bool" where
  "turns_back a b = (pool a = pool b \<and> token_in a = token_out b \<and> token_out a = token_in b)"

fun no_backtrack :: "edge list \<Rightarrow> bool" where
  "no_backtrack (a # b # es) = (\<not> turns_back a b \<and> no_backtrack (b # es))"
| "no_backtrack es = True"

text \<open>A cycle: at least two pools, no token visited twice, and no swap undone by the next one.\<close>

definition simple_cycle :: "snapshot \<Rightarrow> alkane_id \<Rightarrow> edge list \<Rightarrow> bool" where
  "simple_cycle s start path = (2 \<le> length path \<and> walk s start path start
     \<and> distinct (map token_out path) \<and> no_backtrack path)"

text \<open>The edges that extend the path \<open>acc\<close> to a cycle, the tokens of \<open>visited\<close> excluded.\<close>

definition closes :: "snapshot \<Rightarrow> alkane_id \<Rightarrow> alkane_id \<Rightarrow> alkane_id set \<Rightarrow> edge list \<Rightarrow> edge list \<Rightarrow> bool" where
  "closes s cur start visited acc p = (p \<noteq> [] \<and> walk s cur p start \<and> 2 \<le> length (acc @ p) \<and> distinct (map token_out p)
     \<and> token_out ` set (butlast p) \<inter> visited = {} \<and> no_backtrack ((if acc = [] then [] else [last acc]) @ p))"

lemma is_immediate_backtrack_snoc:
  "is_immediate_backtrack_same_pool (acc @ [e]) \<longleftrightarrow> acc \<noteq> [] \<and> turns_back (last acc) e"
  by (cases acc rule: rev_cases) (auto simp: is_immediate_backtrack_same_pool_def turns_back_def nth_append Let_def)

definition branch :: "graph \<Rightarrow> alkane_id \<Rightarrow> nat \<Rightarrow> alkane_id list \<Rightarrow> edge list \<Rightarrow> edge \<Rightarrow> edge list set" where
  "branch g start n visited acc e =
     (if token_out e = start then (if acc \<noteq> [] \<and> \<not> turns_back (last acc) e then {acc @ [e]} else {})
      else if token_out e \<in> set visited \<or> acc \<noteq> [] \<and> turns_back (last acc) e then {}
      else set (dfs_cycles g (token_out e) start n (token_out e # visited) (acc @ [e])))"

lemma dfs_cycles_Suc:
  "set (dfs_cycles (from_snapshot s) cur start (Suc n) visited acc)
     = (\<Union>e\<in>{e. pool_edge s e \<and> token_in e = cur}. branch (from_snapshot s) start n visited acc e)"
proof -
  let ?g = "from_snapshot s"
  define f where "f = (\<lambda>(to, ek).
       if to = start then
         (if acc \<noteq> [] \<and> length acc + 1 \<ge> 2 then
            (let path = acc @ [ek] in if \<not> is_immediate_backtrack_same_pool path then [path] else [])
          else [])
       else if to \<in> set visited then []
       else if acc \<noteq> [] \<and> pool (last acc) = pool ek \<and> token_in (last acc) = to \<and> token_out (last acc) = cur then []
       else dfs_cycles ?g to start n (to # visited) (acc @ [ek]))"
  have "set (f (token_out e, e)) = branch ?g start n visited acc e" if "token_in e = cur" for e
    using that by (auto simp: f_def branch_def Let_def is_immediate_backtrack_snoc turns_back_def Suc_le_eq)
  then show ?thesis
    by (simp add: f_def [symmetric] from_snapshot_edges) blast
qed

lemma closes_Cons:
  assumes "start \<in> set visited"
  shows "closes s cur start (set visited) acc (e # p) \<longleftrightarrow> pool_edge s e \<and> token_in e = cur
    \<and> (if p = [] then token_out e = start \<and> acc \<noteq> [] \<and> \<not> turns_back (last acc) e
       else token_out e \<notin> set visited \<and> (acc = [] \<or> \<not> turns_back (last acc) e)
         \<and> closes s (token_out e) start (set (token_out e # visited)) (acc @ [e]) p)"
proof (cases p rule: rev_cases)
  case (snoc p' l)
  then show ?thesis
    using assms by (cases p') (auto simp: closes_def)
qed (auto simp: closes_def Suc_le_eq)

lemma dfs_cycles_iff:
  "start \<in> set visited \<Longrightarrow> path \<in> set (dfs_cycles (from_snapshot s) cur start n visited acc)
    \<longleftrightarrow> (\<exists>p. path = acc @ p \<and> length p \<le> n \<and> closes s cur start (set visited) acc p)"
proof (induction n arbitrary: cur visited acc)
  case 0
  then show ?case by (simp add: closes_def)
next
  case (Suc n)
  have each: "path \<in> branch (from_snapshot s) start n visited acc e \<longleftrightarrow>
      (\<exists>p. path = acc @ e # p \<and> length p \<le> n \<and> closes s cur start (set visited) acc (e # p))"
    if e: "pool_edge s e" "token_in e = cur" for e
  proof (cases "token_out e = start")
    case True
    then have "closes s cur start (set visited) acc (e # p) \<longleftrightarrow> p = [] \<and> acc \<noteq> [] \<and> \<not> turns_back (last acc) e" for p
      using e Suc.prems by (simp add: closes_Cons)
    then show ?thesis using True by (auto simp: branch_def)
  next
    case False
    have "closes s cur start (set visited) acc (e # p) \<longleftrightarrow> token_out e \<notin> set visited
        \<and> (acc = [] \<or> \<not> turns_back (last acc) e) \<and> closes s (token_out e) start (set (token_out e # visited)) (acc @ [e]) p" for p
      using e False Suc.prems closes_def [of s _ start _ _ "[]"] by (auto simp: closes_Cons)
    then show ?thesis
      using False Suc.prems Suc.IH [of "token_out e # visited" "token_out e" "acc @ [e]"]
      by (auto simp: branch_def)
  qed
  have first: "pool_edge s e \<and> token_in e = cur" if "closes s cur start (set visited) acc (e # p)" for e p
    using that by (simp add: closes_def)
  have "path \<in> set (dfs_cycles (from_snapshot s) cur start (Suc n) visited acc) \<longleftrightarrow>
      (\<exists>e. pool_edge s e \<and> token_in e = cur \<and> path \<in> branch (from_snapshot s) start n visited acc e)"
    unfolding dfs_cycles_Suc by blast
  also have "\<dots> \<longleftrightarrow> (\<exists>e p. path = acc @ e # p \<and> length p \<le> n \<and> closes s cur start (set visited) acc (e # p))"
    using each first by metis
  also have "\<dots> \<longleftrightarrow> (\<exists>p. path = acc @ p \<and> length p \<le> Suc n \<and> closes s cur start (set visited) acc p)"
    by (metis Suc_le_mono closes_def length_Cons neq_Nil_conv)
  finally show ?case .
qed

lemma simple_cycle_closes: "closes s start start {start} [] p \<longleftrightarrow> simple_cycle s start p"
proof (cases p rule: rev_cases)
  case (snoc p' l)
  then show ?thesis by (auto simp: closes_def simple_cycle_def)
qed (simp add: closes_def simple_cycle_def)

lemma enumerate_cycles_iff:
  "path \<in> set (enumerate_cycles (from_snapshot s) start n) \<longleftrightarrow> simple_cycle s start path \<and> length path \<le> n"
  using dfs_cycles_iff [of start "[start]" path s start n "[]"]
  by (auto simp: enumerate_cycles_def simple_cycle_closes)

section \<open>The best quote of a scan\<close>

text \<open>A pair of a best quote and its profit: \<open>P\<close> holds of the quote, and with no quote the profit is the initial \<open>c\<close>.\<close>

definition tracked :: "(path_quote \<Rightarrow> bool) \<Rightarrow> i128 \<Rightarrow> path_quote option \<times> i128 \<Rightarrow> bool" where
  "tracked P c b = (case fst b of None \<Rightarrow> snd b = c | Some q \<Rightarrow> P q \<and> snd b = profit q)"

lemma tracked_start [simp]: "tracked P c (None, c)"
  by (simp add: tracked_def)

lemma tracked_keep_better: "tracked P c b \<Longrightarrow> P q \<Longrightarrow> tracked P c (keep_better q b)"
  by (simp add: tracked_def keep_better_def Let_def)

lemma tracked_above: "tracked P c b \<Longrightarrow> c < snd b \<Longrightarrow> \<exists>q. fst b = Some q \<and> P q \<and> profit q = snd b"
  by (cases "fst b") (auto simp: tracked_def)

lemma keep_better_ge: "snd b \<le> snd (keep_better q b)" "profit q \<le> snd (keep_better q b)"
  by (simp_all add: keep_better_def Let_def)

lemma scan_tracked:
  "tracked P c b \<Longrightarrow> (\<And>x q. x \<in> set xs \<Longrightarrow> pathquote_from_edges_exact_in g es x fee = Some q \<Longrightarrow> P q)
    \<Longrightarrow> tracked P c (scan_inputs g es fee xs b)"
proof (induction xs arbitrary: b)
  case (Cons x xs)
  have "tracked P c (case pathquote_from_edges_exact_in g es x fee of Some q \<Rightarrow> keep_better q b | None \<Rightarrow> b)"
    using Cons.prems(1) Cons.prems(2) [of x] by (simp add: tracked_keep_better split: option.split)
  from Cons.IH [OF this] Cons.prems(2) show ?case by force
qed simp

lemma scan_grows: "snd b \<le> snd (scan_inputs g es fee xs b)"
proof (induction xs arbitrary: b)
  case (Cons x xs)
  have "snd b \<le> snd (case pathquote_from_edges_exact_in g es x fee of Some q \<Rightarrow> keep_better q b | None \<Rightarrow> b)"
    by (simp add: keep_better_ge split: option.split)
  also note Cons.IH
  finally show ?case by simp
qed simp

lemma scan_ge:
  "x \<in> set xs \<Longrightarrow> pathquote_from_edges_exact_in g es x fee = Some q \<Longrightarrow> profit q \<le> snd (scan_inputs g es fee xs b)"
proof (induction xs arbitrary: b)
  case (Cons y xs)
  show ?case
  proof (cases "y = x")
    case True
    then show ?thesis using Cons.prems(2) order_trans [OF keep_better_ge(2) [of q b] scan_grows] by simp
  qed (use Cons in simp)
qed simp

definition quoted :: "graph \<Rightarrow> edge list \<Rightarrow> nat \<Rightarrow> u128 \<Rightarrow> path_quote \<Rightarrow> bool" where
  "quoted g es fee cap q = (\<exists>x\<in>{1..cap}. pathquote_from_edges_exact_in g es x fee = Some q)"

lemma ternary_tracked:
  "ternary n g es fee lo hi b = Some (lo', hi', b') \<Longrightarrow> tracked (quoted g es fee cap) c b \<Longrightarrow> 1 \<le> lo \<Longrightarrow> lo \<le> hi \<Longrightarrow> hi \<le> cap
    \<Longrightarrow> tracked (quoted g es fee cap) c b'"
proof (induction n arbitrary: lo hi b)
  case (Suc n)
  define m1 m2 where "m1 = lo + (hi - lo) div 3" and "m2 = hi - (hi - lo) div 3"
  obtain q1 q2 where q: "pathquote_from_edges_exact_in g es m1 fee = Some q1" "pathquote_from_edges_exact_in g es m2 fee = Some q2"
    using Suc.prems(1) by (auto simp: m1_def m2_def Let_def split: option.splits)
  have "1 \<le> m1" "m1 \<le> cap" "1 \<le> m2" "m2 \<le> cap" unfolding m1_def m2_def using Suc.prems(3-5) by linarith+
  then have "quoted g es fee cap q1" "quoted g es fee cap q2" using q by (auto simp: quoted_def)
  then have t: "tracked (quoted g es fee cap) c (keep_better q2 (keep_better q1 b))"
    using Suc.prems(2) by (simp add: tracked_keep_better)
  define lo1 hi1 where "lo1 = (if profit q1 < profit q2 then m1 + 1 else lo)" and "hi1 = (if profit q1 < profit q2 then hi else m2 - 1)"
  have run: "ternary (Suc n) g es fee lo hi b = (if lo1 \<ge> hi1 then Some (lo1, hi1, keep_better q2 (keep_better q1 b))
      else ternary n g es fee lo1 hi1 (keep_better q2 (keep_better q1 b)))"
    by (simp only: ternary.simps(2) Let_def m1_def [symmetric] m2_def [symmetric] q option.case lo1_def hi1_def saturating_sub_def)
  have "1 \<le> lo1" "hi1 \<le> cap" using Suc.prems(3-5) \<open>m2 \<le> cap\<close> by (auto simp: lo1_def hi1_def)
  then show ?case using Suc.IH [of lo1 hi1] Suc.prems(1) t run by (auto split: if_splits)
qed simp

lemma optimize_quoted:
  assumes "optimize_exact_in_on_path g es fee cap = Some q"
  shows "quoted g es fee cap q"
proof (cases "cap \<le> 64")
  case True
  then have "fst (scan_inputs g es fee [1..<cap + 1] (None, I128_MIN)) = Some q"
    using assms by (auto simp: optimize_exact_in_on_path_def split: if_splits)
  moreover have "tracked (quoted g es fee cap) I128_MIN (scan_inputs g es fee [1..<cap + 1] (None, I128_MIN))"
    by (rule scan_tracked) (auto simp: quoted_def)
  ultimately show ?thesis by (simp add: tracked_def)
next
  case False
  then obtain lo hi b where t: "ternary 40 g es fee 1 cap (None, I128_MIN) = Some (lo, hi, b)"
    and s: "fst (scan_inputs g es fee [max (saturating_sub lo 16) 1..<min (hi + 16) cap + 1] b) = Some q"
    using assms by (auto simp: optimize_exact_in_on_path_def Let_def split: option.splits)
  have "tracked (quoted g es fee cap) I128_MIN b" using ternary_tracked [OF t] False by simp
  then have "tracked (quoted g es fee cap) I128_MIN (scan_inputs g es fee [max (saturating_sub lo 16) 1..<min (hi + 16) cap + 1] b)"
    by (rule scan_tracked) (auto simp: quoted_def)
  with s show ?thesis by (simp add: tracked_def)
qed

lemma optimize_small_cap:
  assumes "1 \<le> x" "x \<le> cap" "cap \<le> 64" "pathquote_from_edges_exact_in g es x fee = Some q" "I128_MIN < profit q"
  shows "\<exists>q'. optimize_exact_in_on_path g es fee cap = Some q' \<and> profit q \<le> profit q'"
proof -
  let ?r = "scan_inputs g es fee [1..<cap + 1] (None, I128_MIN)"
  have "profit q \<le> snd ?r" using assms(1,2,4) by (intro scan_ge [of x]) auto
  moreover have "tracked (\<lambda>_. True) I128_MIN ?r" by (rule scan_tracked) simp_all
  ultimately have "\<exists>q'. fst ?r = Some q' \<and> profit q' = snd ?r"
    using tracked_above [of "\<lambda>_. True" I128_MIN ?r] assms(5) by auto
  then show ?thesis using assms \<open>profit q \<le> snd ?r\<close> by (auto simp: optimize_exact_in_on_path_def)
qed

section \<open>The plan\<close>

lemma mev_loop_tracked:
  "tracked P c b \<Longrightarrow> (\<And>p q. p \<in> set paths \<Longrightarrow> quoted g p fee (cap_for_path g p) q \<Longrightarrow> P q)
    \<Longrightarrow> tracked P c (mev_loop g fee paths b)"
proof (induction paths arbitrary: b)
  case (Cons p paths)
  have "tracked P c (case optimize_exact_in_on_path g p fee (cap_for_path g p) of Some q \<Rightarrow> keep_better q b | None \<Rightarrow> b)"
    using Cons.prems(1) Cons.prems(2) [of p] optimize_quoted [of g p fee "cap_for_path g p"]
    by (simp add: tracked_keep_better split: option.split)
  from Cons.IH [OF this] Cons.IH [OF Cons.prems(1)] Cons.prems(2) show ?case by (force simp: Let_def)
qed simp

lemma mev_loop_grows: "snd b \<le> snd (mev_loop g fee paths b)"
proof (induction paths arbitrary: b)
  case (Cons p paths)
  have "snd b \<le> snd (case optimize_exact_in_on_path g p fee (cap_for_path g p) of Some q \<Rightarrow> keep_better q b | None \<Rightarrow> b)"
    by (simp add: keep_better_ge split: option.split)
  also note Cons.IH
  finally show ?case using Cons.IH [of b] by (simp add: Let_def)
qed simp

lemma mev_loop_ge:
  "p \<in> set paths \<Longrightarrow> cap_for_path g p \<noteq> 0 \<Longrightarrow> optimize_exact_in_on_path g p fee (cap_for_path g p) = Some q
    \<Longrightarrow> profit q \<le> snd (mev_loop g fee paths b)"
proof (induction paths arbitrary: b)
  case (Cons p' paths)
  show ?case
  proof (cases "p' = p")
    case True
    then show ?thesis using Cons.prems(2,3) order_trans [OF keep_better_ge(2) [of q b] mev_loop_grows] by (simp add: Let_def)
  qed (use Cons in \<open>simp add: Let_def\<close>)
qed simp

lemma plan_best_mev_swap_route:
  assumes "plan_best_mev_swap s token fee h = Some q"
  shows "\<exists>path. simple_cycle s token path \<and> length path \<le> h
    \<and> quoted (from_snapshot s) path fee (cap_for_path (from_snapshot s) path) q \<and> profit q > 0"
proof -
  let ?g = "from_snapshot s"
  let ?P = "\<lambda>q. \<exists>path. simple_cycle s token path \<and> length path \<le> h \<and> quoted ?g path fee (cap_for_path ?g path) q"
  let ?r = "mev_loop ?g fee (enumerate_cycles ?g token h) (None, 0)"
  have "tracked ?P 0 ?r" by (rule mev_loop_tracked) (auto simp: enumerate_cycles_iff)
  moreover have "0 < snd ?r" "fst ?r = Some q" using assms by (auto simp: plan_best_mev_swap_def Let_def split: if_splits)
  ultimately show ?thesis by (auto simp: tracked_def)
qed

lemma plan_best_mev_swap_ge:
  assumes "simple_cycle s token path" "length path \<le> h"
    and "optimize_exact_in_on_path (from_snapshot s) path fee (cap_for_path (from_snapshot s) path) = Some q" "0 < profit q"
  shows "\<exists>q'. plan_best_mev_swap s token fee h = Some q' \<and> profit q \<le> profit q'"
proof -
  let ?g = "from_snapshot s"
  let ?r = "mev_loop ?g fee (enumerate_cycles ?g token h) (None, 0)"
  have "cap_for_path ?g path \<noteq> 0" using optimize_quoted [OF assms(3)] by (auto simp: quoted_def)
  then have ge: "profit q \<le> snd ?r" using assms by (intro mev_loop_ge) (simp_all add: enumerate_cycles_iff)
  moreover have "tracked (\<lambda>_. True) 0 ?r" by (rule mev_loop_tracked) simp_all
  ultimately show ?thesis
    using tracked_above [of "\<lambda>_. True" 0 ?r] assms(4) by (auto simp: plan_best_mev_swap_def Let_def)
qed

lemma cap_loop_le: "cap_loop g es cap \<le> cap"
proof (induction es arbitrary: cap)
  case (Cons e es)
  have "cap_loop g es c \<le> cap" if "c \<le> cap" for c using Cons.IH [of c] that by simp
  then show ?case by (auto simp: Let_def split: option.splits)
qed simp

lemma cap_loop_le_reserve:
  assumes "e \<in> set es" "reserves_for g e = Some (rin, rout)"
  shows "cap_loop g es cap \<le> rin div 3"
  using assms(1)
proof (induction es arbitrary: cap)
  case (Cons e' es)
  show ?case
  proof (cases "e' = e")
    case True
    then show ?thesis
      using assms(2) cap_loop_le [of g es "min (rin div 3) cap"] by (auto simp: Let_def min_def split: if_splits)
  next
    case False
    then show ?thesis using Cons by (auto simp: Let_def split: option.splits)
  qed
qed simp

text \<open>With reserves in the signed range the amounts along a chain stay in it, and the profit is the true difference.\<close>

lemma chain_within:
  assumes "reserves_within (2 ^ 127 - 1) s"
  shows "swap_chain (priced_in (from_snapshot s) fee) t a hs t' a' \<Longrightarrow> a < 2 ^ 127 \<Longrightarrow> a' < 2 ^ 127"
proof (induction hs arbitrary: t a)
  case (Cons h hs)
  obtain rin rout where r: "reserves_for (from_snapshot s) (hop_edge h) = Some (rin, rout)"
    and q: "xyk_out_exact_in rin rout (hop_amount_in h) fee = Some (hop_amount_out h)"
    using Cons.prems(1) by (auto simp: priced_in_def split: option.splits)
  note small = reserves_withinD [OF assms r]
  have "hop_amount_out h < rout" using xyk_out_bound(1) [OF q] small Cons.prems by (simp add: U128_MAX_def)
  then show ?case using Cons.IH Cons.prems small by auto
qed simp

lemma profit_exact: "amount_in q < 2 ^ 127 \<Longrightarrow> amount_out q < 2 ^ 127 \<Longrightarrow> profit q = int (amount_out q) - int (amount_in q)"
  by (simp add: profit_def as_i128_small wrap_i128_id)

end
