(* ===== verification/Swap_Properties.thy ===== *)
theory Swap_Properties
  imports Mev_Search "HOL-Library.Code_Target_Nat"
begin

text \<open>
  The properties of the swap planner: of one pool's quotes, of the routes the planners return, and of
  the search for profitable cycles. The witnesses run the planners on a small market of three pools.
\<close>

section \<open>A small market\<close>

definition token :: "64 word \<Rightarrow> alkane_id" where
  "token n = \<lparr>id_block = 2, id_tx = n\<rparr>"

definition market :: snapshot where
  "market =
    [(token 10, \<lparr>base_reserve = 100, quote_reserve = 300, base_id = token 0, quote_id = token 1\<rparr>),
     (token 11, \<lparr>base_reserve = 200, quote_reserve = 200, base_id = token 1, quote_id = token 0\<rparr>),
     (token 12, \<lparr>base_reserve = 500, quote_reserve = 400, base_id = token 1, quote_id = token 2\<rparr>)]"

definition market_edge :: edge where
  "market_edge = \<lparr>pool = token 10, token_in = token 0, token_out = token 1\<rparr>"

lemma market_direct:
  "pool_edge market market_edge" "token_in market_edge = token 0" "token_out market_edge = token 1" "token 0 \<noteq> token 1"
  "reserves_for (from_snapshot market) market_edge = Some (100, 300)"
  by code_simp+

lemma market_price: "xyk_out_exact_in 100 300 20 50 = Some 47"
  by code_simp

text \<open>Two pools that disagree on the price of their tokens.\<close>

definition small_market :: snapshot where
  "small_market =
    [(token 10, \<lparr>base_reserve = 20, quote_reserve = 60, base_id = token 0, quote_id = token 1\<rparr>),
     (token 11, \<lparr>base_reserve = 40, quote_reserve = 40, base_id = token 1, quote_id = token 0\<rparr>)]"

definition market_cycle :: "edge list" where
  "market_cycle = [\<lparr>pool = token 10, token_in = token 0, token_out = token 1\<rparr>, \<lparr>pool = token 11, token_in = token 1, token_out = token 0\<rparr>]"

definition market_quote :: path_quote where
  "market_quote = the (pathquote_from_edges_exact_in (from_snapshot small_market) market_cycle 6 50)"

lemma market_cycle_quote: "pathquote_from_edges_exact_in (from_snapshot small_market) market_cycle 6 50 = Some market_quote"
  "profit market_quote = 2"
  by (simp_all add: market_quote_def pathquote_from_edges_exact_in_def market_cycle_def reserves_for_def from_snapshot_edges
      small_market_def token_def xyk_out_exact_in_def apply_fee_def saturating_add_def saturating_sub_def saturating_mul_def
      U128_MAX_def quote_of_hops_def hop_of_def profit_exact)

lemma market_cycle_simple: "simple_cycle small_market (token 0) market_cycle"
  "cap_for_path (from_snapshot small_market) market_cycle = 6" "length market_cycle = 2"
  by code_simp+

lemma market_cycle_plan: "\<exists>q. plan_best_mev_swap small_market (token 0) 50 3 = Some q"
  using optimize_small_cap [of 6 6 "from_snapshot small_market" market_cycle 50 market_quote]
    plan_best_mev_swap_ge [OF market_cycle_simple(1), of 3 50]
  by (auto simp: market_cycle_quote market_cycle_simple I128_MIN_def)

lemma market_within: "reserves_within (2 ^ 63) market" "reserves_within (2 ^ 127 - 1) small_market"
  by (simp_all add: reserves_within_def market_def small_market_def)

section \<open>One pool\<close>

text \<open>
  C27. A constant-product quote is safe for the pool: the output is below the reserve it is paid from, and the
  product of the reserves after the swap is at least the product before it, whatever the fee and even
  where an intermediate product saturates.
\<close>

theorem swap_keeps_product:
  assumes "xyk_out_exact_in r_in r_out amount fee_bps = Some out" "r_in + amount \<le> U128_MAX"
  shows "out < r_out \<and> r_in * r_out \<le> (r_in + amount) * (r_out - out)"
  using xyk_out_bound(1) [OF assms] xyk_product_grows [OF assms] by simp

theorem swap_keeps_product_witness:
  "xyk_out_exact_in 1000 2000 91 50 = Some 165 \<and> (1000::nat) * 2000 \<le> (1000 + 91) * (2000 - 165)"
proof -
  have q: "xyk_out_exact_in 1000 2000 91 50 = Some 165" by code_simp
  have "(1000::nat) + 91 \<le> U128_MAX" by code_simp
  from swap_keeps_product [OF q this] q show ?thesis by blast
qed

text \<open>
  C28. The input quoted for an exact output is the least one that buys it: with products in range, an input \<open>b\<close>
  yields at least \<open>out\<close> exactly when \<open>b\<close> reaches the quote.
\<close>

theorem exact_out_quote_is_least:
  assumes "xyk_in_for_exact_out r_in r_out out fee_bps = Some a"
    and "out * r_in \<le> U128_MAX" "pf_div_ceil (out * r_in) (r_out - out) * 10000 \<le> U128_MAX"
    and "b * 10000 \<le> U128_MAX" "r_in + b \<le> U128_MAX" "b * r_out \<le> U128_MAX"
  shows "(\<exists>y. xyk_out_exact_in r_in r_out b fee_bps = Some y \<and> out \<le> y) \<longleftrightarrow> a \<le> b"
  using xyk_in_least [OF assms] by blast

theorem exact_out_quote_is_least_witness:
  "xyk_in_for_exact_out 1000 2000 165 50 = Some 91 \<and>
   ((\<exists>y. xyk_out_exact_in 1000 2000 90 50 = Some y \<and> 165 \<le> y) \<longleftrightarrow> (91::nat) \<le> 90)"
proof -
  have q: "xyk_in_for_exact_out 1000 2000 165 50 = Some 91" by code_simp
  have "(165::nat) * 1000 \<le> U128_MAX" "pf_div_ceil (165 * 1000) (2000 - 165) * 10000 \<le> U128_MAX"
    "(90::nat) * 10000 \<le> U128_MAX" "(1000::nat) + 90 \<le> U128_MAX" "(90::nat) * 2000 \<le> U128_MAX" by code_simp+
  from exact_out_quote_is_least [OF q this] q show ?thesis by blast
qed

section \<open>The planners\<close>

text \<open>
  C13. A plan for an exact input is executable as it stands: its hops form a chain from the input token to the
  output token that starts with the given amount, every hop pays what its pool quotes, the route has at
  least one and at most \<open>max_hops\<close> hops, and the output is positive and at least the demanded minimum.
\<close>

theorem exact_in_plan_sound:
  assumes "plan_swap_exact_tokens_for_tokens s src dst amount out_min fee_bps max_hops = Some q"
  shows "swap_chain (priced_in (from_snapshot s) fee_bps) src amount (hops q) dst (amount_out q)
    \<and> amount_in q = amount \<and> hops q \<noteq> [] \<and> length (hops q) \<le> max_hops \<and> 0 < amount_out q \<and> out_min \<le> amount_out q"
proof -
  have "best_first_exact_in (from_snapshot s) src dst amount fee_bps max_hops = Some q" "out_min \<le> amount_out q"
    using assms by (auto simp: plan_swap_exact_tokens_for_tokens_def split: if_splits option.splits)
  moreover from best_first_exact_in_route [OF this(1)] obtain es where es: "es \<noteq> []" "length es \<le> max_hops" "walk s src es dst"
    "0 < amount_out q" "pathquote_from_edges_exact_in (from_snapshot s) es amount fee_bps = Some q" by blast
  note c = pathquote_in_chain [OF es(5,3)]
  moreover have "length (hops q) = length es" using arg_cong [OF c(3), of length] by simp
  ultimately show ?thesis using es by auto
qed

theorem exact_in_plan_sound_witness:
  "\<exists>q. plan_swap_exact_tokens_for_tokens market (token 0) (token 1) 20 45 50 3 = Some q
    \<and> swap_chain (priced_in (from_snapshot market) 50) (token 0) 20 (hops q) (token 1) (amount_out q) \<and> 45 \<le> amount_out q"
proof -
  obtain q where "plan_swap_exact_tokens_for_tokens market (token 0) (token 1) 20 45 50 3 = Some q"
    using best_first_exact_in_direct [OF market_direct market_price, of 3] market_direct(4)
    by (auto simp: plan_swap_exact_tokens_for_tokens_def)
  with exact_in_plan_sound [OF this] show ?thesis by blast
qed

text \<open>
  C15. The search misses no direct pool: if some pool trades the two tokens and would pay \<open>y\<close>, a positive amount
  of at least the minimum, then the planner finds a plan, and its output is at least \<open>y\<close>.
\<close>

theorem exact_in_plan_beats_direct_pools:
  assumes "pool_edge s e" "token_in e = src" "token_out e = dst" "src \<noteq> dst"
    and "reserves_for (from_snapshot s) e = Some (rin, rout)" "xyk_out_exact_in rin rout amount fee_bps = Some y"
    and "0 < y" "out_min \<le> y" "0 < amount" "1 \<le> max_hops"
  shows "\<exists>q. plan_swap_exact_tokens_for_tokens s src dst amount out_min fee_bps max_hops = Some q \<and> y \<le> amount_out q"
  using best_first_exact_in_direct [OF assms(1-7) assms(10)] assms
  by (auto simp: plan_swap_exact_tokens_for_tokens_def)

theorem exact_in_plan_beats_direct_pools_witness:
  "\<exists>q. plan_swap_exact_tokens_for_tokens market (token 0) (token 1) 20 45 50 2 = Some q \<and> 47 \<le> amount_out q"
  by (rule exact_in_plan_beats_direct_pools [OF market_direct market_price]) simp_all

text \<open>
  C29. A plan for an exact output delivers: its hops chain the input token to the output token at the quoted
  prices and end with the required amount, the input respects the caller's maximum, and paying that
  input into the first pool and passing on what each pool really pays yields at least the required amount.
  This holds where reserves are at most \<open>2 ^ 63\<close> and no hop needs more than \<open>2 ^ 64\<close>, so that nothing saturates.
\<close>

theorem exact_out_plan_delivers:
  assumes "plan_swap_tokens_for_exact_tokens s src dst required in_max fee_bps max_hops = Some q"
    and "reserves_within (2 ^ 63) s" "\<forall>h\<in>set (hops q). hop_amount_in h \<le> 2 ^ 64"
  shows "swap_chain (priced_out (from_snapshot s) fee_bps) src (amount_in q) (hops q) dst required
    \<and> amount_in q \<le> in_max \<and> length (hops q) \<le> max_hops
    \<and> (\<exists>q'. pathquote_from_edges_exact_in (from_snapshot s) (map hop_edge (hops q)) (amount_in q) fee_bps = Some q'
        \<and> required \<le> amount_out q')"
proof -
  let ?g = "from_snapshot s"
  have q: "best_first_exact_out ?g src dst required fee_bps max_hops = Some q" "amount_in q \<le> in_max"
    using assms(1) by (auto simp: plan_swap_tokens_for_exact_tokens_def split: if_splits option.splits)
  obtain es where es: "es \<noteq> []" "length es \<le> max_hops" "walk s src es dst"
    "pathquote_from_edges_exact_out ?g es required fee_bps = Some q"
    using best_first_exact_out_route [OF q(1)] by blast
  note c = pathquote_out_chain [OF es(4,3)]
  have ne: "hops q \<noteq> []" "length (hops q) = length es" using arg_cong [OF c(3), of length] es(1) by auto
  then have "amount_in q \<le> 2 ^ 64" using c(1) assms(3) by (cases "hops q") auto
  then obtain hs b where hs: "hops_exact_in ?g fee_bps (map hop_edge (hops q)) (amount_in q) [] = Some hs"
    "length hs = length (hops q)" "required \<le> b" "swap_chain (priced_in ?g fee_bps) src (amount_in q) hs dst b"
    using exact_out_delivers [OF assms(2) c(1) assms(3) order_refl, of "[]"] by auto
  then have "hs \<noteq> []" using ne(1) by auto
  then have "pathquote_from_edges_exact_in ?g (map hop_edge (hops q)) (amount_in q) fee_bps = Some (quote_of_hops hs)"
    "required \<le> amount_out (quote_of_hops hs)"
    using hs swap_chain_ends(2) [OF hs(4)] ne(1) by (simp_all add: pathquote_from_edges_exact_in_def)
  then show ?thesis using c(1) q(2) ne(2) es(2) by auto
qed

definition market_plan :: path_quote where
  "market_plan = quote_of_hops [hop_of market_edge 19 45]"

theorem exact_out_plan_delivers_witness:
  "plan_swap_tokens_for_exact_tokens market (token 0) (token 1) 45 100 50 1 = Some market_plan
   \<and> (\<exists>q'. pathquote_from_edges_exact_in (from_snapshot market) (map hop_edge (hops market_plan)) (amount_in market_plan) 50 = Some q'
        \<and> 45 \<le> amount_out q')"
proof -
  have p: "plan_swap_tokens_for_exact_tokens market (token 0) (token 1) 45 100 50 1 = Some market_plan" by code_simp
  have "\<forall>h\<in>set (hops market_plan). hop_amount_in h \<le> 2 ^ 64" by (simp add: market_plan_def quote_of_hops_def)
  from exact_out_plan_delivers [OF p market_within(1) this] p show ?thesis by blast
qed

section \<open>Cycles\<close>

text \<open>
  C30. The enumeration is exact: a path is listed for a start token and a hop limit if and only if it is a simple
  cycle of pools with liquidity from that token back to it, of two to \<open>max_hops\<close> swaps, that visits no token
  twice and never undoes a swap in the next one on the same pool.
\<close>

theorem enumerate_cycles_exact:
  "path \<in> set (enumerate_cycles (from_snapshot s) start max_hops) \<longleftrightarrow>
     2 \<le> length path \<and> length path \<le> max_hops \<and> walk s start path start
     \<and> distinct (map token_out path) \<and> no_backtrack path"
  by (auto simp: enumerate_cycles_iff simple_cycle_def)

text \<open>
  C31. A cycle plan makes a profit: where the reserves are in the signed range, a returned quote is a simple cycle
  of at most \<open>max_hops\<close> swaps at the pools' prices that pays out more than was put in.
\<close>

theorem mev_plan_profitable:
  assumes "plan_best_mev_swap s start fee_bps max_hops = Some q" "reserves_within (2 ^ 127 - 1) s"
  shows "amount_in q < amount_out q \<and> length (hops q) \<le> max_hops \<and> simple_cycle s start (map hop_edge (hops q))
    \<and> swap_chain (priced_in (from_snapshot s) fee_bps) start (amount_in q) (hops q) start (amount_out q)"
proof -
  let ?g = "from_snapshot s"
  obtain path x where p: "simple_cycle s start path" "length path \<le> max_hops" "0 < profit q"
    and x: "x \<le> cap_for_path ?g path" "pathquote_from_edges_exact_in ?g path x fee_bps = Some q"
    using plan_best_mev_swap_route [OF assms(1)] by (auto simp: quoted_def)
  have w: "walk s start path start" using p(1) by (simp add: simple_cycle_def)
  note c = pathquote_in_chain [OF x(2) w]
  obtain e es where e: "path = e # es" using p(1) by (cases path) (auto simp: simple_cycle_def)
  then obtain rin rout where "reserves_for ?g e = Some (rin, rout)"
    using x(2) by (auto simp: pathquote_from_edges_exact_in_def split: option.splits)
  then have "x < 2 ^ 127"
    using x(1) reserves_withinD [OF assms(2)] cap_loop_le_reserve [of e path ?g rin rout U128_MAX] e
    by (fastforce simp: cap_for_path_def)
  then have "amount_in q < amount_out q"
    using profit_exact [of q] p(3) c(2) chain_within [OF assms(2) c(1)] by simp
  moreover have "length (hops q) = length path" using c(3) by (metis length_map)
  ultimately show ?thesis using p c by simp
qed

theorem mev_plan_profitable_witness:
  "\<exists>q. plan_best_mev_swap small_market (token 0) 50 3 = Some q \<and> amount_in q < amount_out q"
proof -
  obtain q where "plan_best_mev_swap small_market (token 0) 50 3 = Some q" using market_cycle_plan by blast
  with mev_plan_profitable [OF this market_within(2)] show ?thesis by blast
qed

text \<open>
  C32. On small markets the plan is optimal: if some simple cycle within the hop limit has a search cap of at most
  64 and turns an input within that cap into a profit, the planner returns a plan with at least that profit.
\<close>

theorem mev_plan_optimal_for_small_caps:
  assumes "simple_cycle s start path" "length path \<le> max_hops" "cap_for_path (from_snapshot s) path \<le> 64"
    and "1 \<le> x" "x \<le> cap_for_path (from_snapshot s) path"
    and "pathquote_from_edges_exact_in (from_snapshot s) path x fee_bps = Some q" "0 < profit q"
  shows "\<exists>q'. plan_best_mev_swap s start fee_bps max_hops = Some q' \<and> profit q \<le> profit q'"
proof -
  have "I128_MIN < profit q" using assms(7) by (simp add: I128_MIN_def)
  from optimize_small_cap [OF assms(4,5,3,6) this] obtain q1 where
    q1: "optimize_exact_in_on_path (from_snapshot s) path fee_bps (cap_for_path (from_snapshot s) path) = Some q1"
      "profit q \<le> profit q1" by blast
  have "0 < profit q1" using q1(2) assms(7) by simp
  from plan_best_mev_swap_ge [OF assms(1,2) q1(1) this] q1(2) show ?thesis by (meson order_trans)
qed

theorem mev_plan_optimal_for_small_caps_witness:
  "\<exists>q'. plan_best_mev_swap small_market (token 0) 50 3 = Some q' \<and> profit market_quote \<le> profit q'"
  by (rule mev_plan_optimal_for_small_caps [OF market_cycle_simple(1) _ _ _ _ market_cycle_quote(1)])
    (simp_all add: market_cycle_simple market_cycle_quote)

end
