(* ===== verification/Projection.thy ===== *)
theory Projection
  imports U128 Pathfinder "HOL-Library.AList"
begin

text \<open>
  What the projection of unconfirmed calls works on (\<^verbatim>\<open>src/runtime/mempool_projection/mod.rs\<close>): sheets of
  token balances, the call a protostone carries, and the rule for frBTC
  (\<^verbatim>\<open>src/runtime/mempool_projection/frbtc.rs\<close>).

  A rule is a stateful computation that fails with \<open>Inl ()\<close> where the code returns \<open>None\<close>; a panic is the
  outer \<open>None\<close>. A map (\<open>BTreeMap\<close>, \<open>HashMap\<close>) is an association list with distinct keys. The order of its
  entries stands for the order a \<open>HashMap\<close> happens to iterate in; the theorems hold for every order.
\<close>

section \<open>Sheets\<close>

type_synonym sheet = "(alkane_id \<times> u128) list"
type_synonym ('r, 'a) rule = "('r, unit, 'a) comp"

text \<open>\<open>m.get(&k).copied().unwrap_or_default()\<close>, and \<open>xs.get(i)\<close> with and without the default.\<close>

definition bal :: "('k \<times> nat) list \<Rightarrow> 'k \<Rightarrow> nat" where
  "bal m k = (case map_of m k of Some a \<Rightarrow> a | None \<Rightarrow> 0)"

definition get_at :: "'a list \<Rightarrow> nat \<Rightarrow> 'a option" where
  "get_at xs i = (if i < length xs then Some (xs ! i) else None)"

definition arg :: "u128 list \<Rightarrow> nat \<Rightarrow> u128" where
  "arg inputs i = (case get_at inputs i of Some a \<Rightarrow> a | None \<Rightarrow> 0)"

text \<open>The \<open>?\<close> on an \<open>Option\<close>.\<close>

definition attempt :: "'a option \<Rightarrow> ('r, 'a) rule" where
  "attempt x = (\<lambda>r. Some (case x of Some a \<Rightarrow> Inr a | None \<Rightarrow> Inl (), r))"

definition get_rule :: "('r, 'r) rule" where
  "get_rule = (\<lambda>r. Some (Inr r, r))"

definition require :: "bool \<Rightarrow> ('r, unit) rule" where
  "require b = attempt (if b then Some () else None)"

definition add_to_sheet :: "sheet \<Rightarrow> alkane_id \<Rightarrow> u128 \<Rightarrow> sheet" where
  "add_to_sheet sh t amount = (if amount = 0 then sh else AList.update t (saturating_add (bal sh t) amount) sh)"

definition remove_from_sheet :: "sheet \<Rightarrow> alkane_id \<Rightarrow> u128 \<Rightarrow> sheet \<times> u128" where
  "remove_from_sheet sh t amount = (case map_of sh t of
       None \<Rightarrow> (sh, 0)
     | Some entry \<Rightarrow>
         let taken = min entry amount; left = saturating_sub entry taken in
         (if left = 0 then AList.delete t sh else AList.update t left sh, taken))"

definition alkane_id_from_parts :: "u128 \<Rightarrow> u128 \<Rightarrow> alkane_id option" where
  "alkane_id_from_parts block tx =
     (if block < 2 ^ 32 \<and> tx < 2 ^ 64 then Some \<lparr>id_block = word_of_nat block, id_tx = word_of_nat tx\<rparr> else None)"

section \<open>Calls\<close>

record cellpack =
  target_block :: u128
  target_tx :: u128
  inputs :: "u128 list"

record protostone =
  protocol_tag :: u128
  message :: bytes

record tx_out =
  script_pubkey :: bytes
  sats :: nat

record call_context =
  outputs :: "tx_out list"
  stone :: protostone
  incoming :: sheet

text \<open>The decoders of the alkanes crates.\<close>

record codec =
  decode_varint_list :: "bytes \<Rightarrow> u128 list option"
  try_cellpack :: "u128 list \<Rightarrow> cellpack option"

text \<open>The message is a byte vector, so \<open>to_be_bytes\<close> of an element is that byte.\<close>

definition u8_to_be_bytes :: "u8 \<Rightarrow> bytes" where
  "u8_to_be_bytes v = [v]"

definition cellpack_from_protostone :: "codec \<Rightarrow> protostone \<Rightarrow> cellpack option" where
  "cellpack_from_protostone X p =
     (if protocol_tag p \<noteq> 1 \<or> message p = [] then None
      else case decode_varint_list X (concat (map u8_to_be_bytes (message p))) of
        None \<Rightarrow> None
      | Some vals \<Rightarrow> try_cellpack X vals)"

section \<open>The frBTC rule\<close>

definition FRBTC_ALKANE_ID :: alkane_id where
  "FRBTC_ALKANE_ID = \<lparr>id_block = 32, id_tx = 0\<rparr>"

definition FRBTC_WRAP_OPCODE :: u128 where
  "FRBTC_WRAP_OPCODE = 77"

definition FRBTC_UNWRAP_OPCODE :: u128 where
  "FRBTC_UNWRAP_OPCODE = 78"

record frbtc_rule =
  signer_script :: "bytes option"

definition frbtc_new :: "bytes option option \<Rightarrow> frbtc_rule" where
  "frbtc_new signer = \<lparr>signer_script = (case signer of Some s \<Rightarrow> s | None \<Rightarrow> None)\<rparr>"

definition wrap_mint_amount :: "u128 \<Rightarrow> u128" where
  "wrap_mint_amount n = n"

definition signer_output_sats :: "tx_out list \<Rightarrow> bytes \<Rightarrow> u128 option" where
  "signer_output_sats outs script =
     (let total = foldl (\<lambda>total out. saturating_add total (sats out)) 0 (filter (\<lambda>out. script_pubkey out = script) outs) in
      if total > 0 then Some total else None)"

definition signer_vout_matches :: "tx_out list \<Rightarrow> nat \<Rightarrow> bytes \<Rightarrow> bool" where
  "signer_vout_matches outs vout script =
     (case get_at outs vout of Some out \<Rightarrow> script_pubkey out = script | None \<Rightarrow> False)"

text \<open>\<open>usize::try_from\<close>.\<close>

definition as_usize :: "u128 \<Rightarrow> nat option" where
  "as_usize n = (if n < 2 ^ 64 then Some n else None)"

definition frbtc_unwrap :: "bytes \<Rightarrow> call_context \<Rightarrow> u128 list \<Rightarrow> (frbtc_rule, sheet) rule" where
  "frbtc_unwrap script ctx ins =
     bindc (attempt (Option.bind (get_at ins 1) as_usize)) (\<lambda>signer_vout.
     bindc (attempt (get_at ins 2)) (\<lambda>amount.
     bindc (require (amount \<noteq> 0 \<and> signer_vout_matches (outputs ctx) signer_vout script)) (\<lambda>_.
     let r = remove_from_sheet (incoming ctx) FRBTC_ALKANE_ID amount in
     bindc (require (snd r = amount)) (\<lambda>_. ret (fst r)))))"

definition frbtc_project :: "codec \<Rightarrow> call_context \<Rightarrow> (frbtc_rule, sheet) rule" where
  "frbtc_project X ctx =
     bindc (attempt (cellpack_from_protostone X (stone ctx))) (\<lambda>cp.
     bindc (require (target_block cp = unat (id_block FRBTC_ALKANE_ID) \<and> target_tx cp = unat (id_tx FRBTC_ALKANE_ID))) (\<lambda>_.
     bindc (\<lambda>r. attempt (signer_script r) r) (\<lambda>script.
     bindc (attempt (get_at (inputs cp) 0)) (\<lambda>opcode.
     if opcode = FRBTC_WRAP_OPCODE then
       bindc (attempt (signer_output_sats (outputs ctx) script)) (\<lambda>total.
       ret (add_to_sheet (incoming ctx) FRBTC_ALKANE_ID (wrap_mint_amount total)))
     else if opcode = FRBTC_UNWRAP_OPCODE then frbtc_unwrap script ctx (inputs cp)
     else attempt None))))"

end
