(* ===== verification/Amm_Projection.thy ===== *)
theory Amm_Projection
  imports Projection
begin

text \<open>
  The projection of AMM calls (\<^verbatim>\<open>src/runtime/mempool_projection/amm.rs\<close>): swaps, deposits and withdrawals of
  liquidity, directly on a pool or through the factory, applied to the latest indexed reserves.
\<close>

section \<open>Constants and state\<close>

definition AMM_POOL_ADD_LIQUIDITY_OPCODE :: u128 where
  "AMM_POOL_ADD_LIQUIDITY_OPCODE = 1"

definition AMM_POOL_WITHDRAW_AND_BURN_OPCODE :: u128 where
  "AMM_POOL_WITHDRAW_AND_BURN_OPCODE = 2"

definition AMM_POOL_SWAP_OPCODE :: u128 where
  "AMM_POOL_SWAP_OPCODE = 3"

text \<open>Collecting fees, reading or setting the fee, forwarding, and the views.\<close>

definition pool_passthrough_opcodes :: "u128 list" where
  "pool_passthrough_opcodes = [50, 10, 20, 97, 98, 99, 999, 21]"

definition AMM_FACTORY_ADD_LIQUIDITY_OPCODE :: u128 where
  "AMM_FACTORY_ADD_LIQUIDITY_OPCODE = 11"

definition AMM_FACTORY_BURN_OPCODE :: u128 where
  "AMM_FACTORY_BURN_OPCODE = 12"

definition AMM_FACTORY_SWAP_EXACT_IN_OPCODE :: u128 where
  "AMM_FACTORY_SWAP_EXACT_IN_OPCODE = 13"

definition AMM_FACTORY_SWAP_EXACT_OUT_OPCODE :: u128 where
  "AMM_FACTORY_SWAP_EXACT_OUT_OPCODE = 14"

definition AMM_FACTORY_SWAP_EXACT_IN_IMPLICIT_OPCODE :: u128 where
  "AMM_FACTORY_SWAP_EXACT_IN_IMPLICIT_OPCODE = 29"

definition factory_passthrough_opcodes :: "u128 list" where
  "factory_passthrough_opcodes = [50, 2, 3, 4, 10, 21]"

definition DEFAULT_TOTAL_FEE_PER_1000 :: u128 where
  "DEFAULT_TOTAL_FEE_PER_1000 = 10"

definition FEE_DENOMINATOR :: u128 where
  "FEE_DENOMINATOR = 1000"

definition MINIMUM_LIQUIDITY :: u128 where
  "MINIMUM_LIQUIDITY = 1000"

type_synonym pair_map = "((alkane_id \<times> alkane_id) \<times> alkane_id) list"

record amm_rule =
  factory_id :: "alkane_id option"
  reserves :: snapshot
  lp_supplies :: "(alkane_id \<times> u128) list"
  by_pair :: pair_map

definition pools_by_pair :: "snapshot \<Rightarrow> pair_map" where
  "pools_by_pair rs = foldl (\<lambda>out (p, s).
     AList.update (quote_id s, base_id s) p (AList.update (base_id s, quote_id s) p out)) [] rs"

text \<open>
  \<open>new\<close>: the arguments are what the provider returns for the latest snapshot and for the supply of
  each pool, and the factory of the network.
\<close>

definition amm_new :: "snapshot option \<Rightarrow> (alkane_id \<Rightarrow> u128 option) \<Rightarrow> alkane_id option \<Rightarrow> amm_rule" where
  "amm_new snap supply_of factory =
     (let rs = (case snap of Some s \<Rightarrow> s | None \<Rightarrow> []) in
      \<lparr>factory_id = factory, reserves = rs,
       lp_supplies = concat (map (\<lambda>(p, _). case supply_of p of Some n \<Rightarrow> [(p, n)] | None \<Rightarrow> []) rs),
       by_pair = pools_by_pair rs\<rparr>)"

section \<open>Arithmetic\<close>

definition ordered_reserves :: "pool_snapshot \<Rightarrow> alkane_id \<Rightarrow> alkane_id \<Rightarrow> (u128 \<times> u128) option" where
  "ordered_reserves s t t' =
     (if base_id s = t \<and> quote_id s = t' then Some (base_reserve s, quote_reserve s)
      else if quote_id s = t \<and> base_id s = t' then Some (quote_reserve s, base_reserve s)
      else None)"

definition get_amount_out :: "u128 \<Rightarrow> u128 \<Rightarrow> u128 \<Rightarrow> u128 option" where
  "get_amount_out amt reserve_in reserve_out =
     (if amt = 0 \<or> reserve_in = 0 \<or> reserve_out = 0 then None
      else Option.bind (checked_mul amt (FEE_DENOMINATOR - DEFAULT_TOTAL_FEE_PER_1000)) (\<lambda>amount_in_with_fee.
           Option.bind (checked_mul amount_in_with_fee reserve_out) (\<lambda>numerator.
           Option.bind (Option.bind (checked_mul reserve_in FEE_DENOMINATOR) (\<lambda>d. checked_add d amount_in_with_fee)) (\<lambda>denominator.
           let out = numerator div denominator in
           if out > 0 \<and> out < reserve_out then Some out else None))))"

definition get_amount_in :: "u128 \<Rightarrow> u128 \<Rightarrow> u128 \<Rightarrow> u128 option" where
  "get_amount_in out reserve_in reserve_out =
     (if out = 0 \<or> reserve_in = 0 \<or> out \<ge> reserve_out then None
      else Option.bind (Option.bind (checked_mul reserve_in out) (\<lambda>n. checked_mul n FEE_DENOMINATOR)) (\<lambda>numerator.
           Option.bind (Option.bind (checked_sub reserve_out out)
             (\<lambda>d. checked_mul d (FEE_DENOMINATOR - DEFAULT_TOTAL_FEE_PER_1000))) (\<lambda>denominator.
           Some (numerator div denominator + 1))))"

text \<open>
  Newton's iteration. \<open>x + 1\<close> wraps at \<open>u128::MAX\<close> (a debug build panics there already), which makes
  the next division one by zero: a panic, \<open>None\<close>.
\<close>

function sqrt_loop :: "u128 \<Rightarrow> u128 \<Rightarrow> u128 \<Rightarrow> u128 option" where
  "sqrt_loop n x y =
     (if y < x then (if y = 0 then None else sqrt_loop n y ((y + n div y) div 2)) else Some x)"
  by pat_completeness auto
termination by (relation "measure (\<lambda>(n, x, y). x)") auto

declare sqrt_loop.simps [simp del]

definition integer_sqrt :: "u128 \<Rightarrow> u128 option" where
  "integer_sqrt n = (if n < 2 then Some n else sqrt_loop n n ((n + 1) mod 2 ^ 128 div 2))"

definition optimal_liquidity_amounts :: "u128 \<Rightarrow> u128 \<Rightarrow> u128 \<Rightarrow> u128 \<Rightarrow> u128 \<Rightarrow> u128 \<Rightarrow> (u128 \<times> u128) option" where
  "optimal_liquidity_amounts reserve_a reserve_b a_desired b_desired a_min b_min =
     (if reserve_a = 0 \<and> reserve_b = 0 then Some (a_desired, b_desired)
      else if reserve_a = 0 \<or> reserve_b = 0 then None
      else Option.bind (Option.bind (checked_mul a_desired reserve_b) (\<lambda>n. checked_div n reserve_a)) (\<lambda>b_optimal.
        if b_optimal \<le> b_desired then (if b_optimal < b_min then None else Some (a_desired, b_optimal))
        else Option.bind (Option.bind (checked_mul b_desired reserve_a) (\<lambda>n. checked_div n reserve_b)) (\<lambda>a_optimal.
          if a_optimal > a_desired \<or> a_optimal < a_min then None else Some (a_optimal, b_desired))))"

definition minted_liquidity :: "u128 \<Rightarrow> u128 \<Rightarrow> u128 \<Rightarrow> u128 \<Rightarrow> u128 \<Rightarrow> (unit, u128) reader" where
  "minted_liquidity supply reserve_a reserve_b a b =
     (if supply = 0 then
        (case checked_mul a b of
           None \<Rightarrow> Some (Inl ())
         | Some k \<Rightarrow> (case integer_sqrt k of
             None \<Rightarrow> None
           | Some root_k \<Rightarrow> Some (case checked_sub root_k MINIMUM_LIQUIDITY of Some l \<Rightarrow> Inr l | None \<Rightarrow> Inl ())))
      else if reserve_a = 0 \<or> reserve_b = 0 then Some (Inl ())
      else Some (case (Option.bind (checked_mul a supply) (\<lambda>n. checked_div n reserve_a),
                       Option.bind (checked_mul b supply) (\<lambda>n. checked_div n reserve_b)) of
             (Some la, Some lb) \<Rightarrow> Inr (min la lb) | _ \<Rightarrow> Inl ()))"

definition burned_liquidity_amounts :: "u128 \<Rightarrow> u128 \<Rightarrow> u128 \<Rightarrow> u128 \<Rightarrow> (u128 \<times> u128) option" where
  "burned_liquidity_amounts liquidity reserve_a reserve_b supply =
     (if liquidity = 0 \<or> supply = 0 then None
      else case (Option.bind (checked_mul liquidity reserve_a) (\<lambda>n. checked_div n supply),
                 Option.bind (checked_mul liquidity reserve_b) (\<lambda>n. checked_div n supply)) of
             (Some a, Some b) \<Rightarrow> Some (a, b) | _ \<Rightarrow> None)"

section \<open>Hops\<close>

definition amount_out_for_pair :: "alkane_id \<Rightarrow> alkane_id \<Rightarrow> u128 \<Rightarrow> snapshot \<Rightarrow> pair_map \<Rightarrow> u128 option" where
  "amount_out_for_pair t t' amt rs pairs =
     Option.bind (map_of pairs (t, t')) (\<lambda>p. Option.bind (map_of rs p) (\<lambda>s.
     Option.bind (ordered_reserves s t t') (\<lambda>(rin, rout). get_amount_out amt rin rout)))"

definition amount_in_for_pair :: "alkane_id \<Rightarrow> alkane_id \<Rightarrow> u128 \<Rightarrow> snapshot \<Rightarrow> pair_map \<Rightarrow> u128 option" where
  "amount_in_for_pair t t' out rs pairs =
     Option.bind (map_of pairs (t, t')) (\<lambda>p. Option.bind (map_of rs p) (\<lambda>s.
     Option.bind (ordered_reserves s t t') (\<lambda>(rin, rout). get_amount_in out rin rout)))"

text \<open>\<open>apply_hop\<close> works on a trial copy that is dropped on failure, so only success returns one.\<close>

definition swapped :: "pool_snapshot \<Rightarrow> alkane_id \<Rightarrow> alkane_id \<Rightarrow> u128 \<Rightarrow> u128 \<Rightarrow> pool_snapshot option" where
  "swapped s t t' amt out =
     (if base_id s = t \<and> quote_id s = t' then
        (if out \<ge> quote_reserve s then None
         else Option.bind (checked_sub (quote_reserve s) out) (\<lambda>q.
           Some (s\<lparr>base_reserve := saturating_add (base_reserve s) amt, quote_reserve := q\<rparr>)))
      else if quote_id s = t \<and> base_id s = t' then
        (if out \<ge> base_reserve s then None
         else Option.bind (checked_sub (base_reserve s) out) (\<lambda>b.
           Some (s\<lparr>quote_reserve := saturating_add (quote_reserve s) amt, base_reserve := b\<rparr>)))
      else None)"

definition apply_hop :: "snapshot \<Rightarrow> pair_map \<Rightarrow> alkane_id \<Rightarrow> alkane_id \<Rightarrow> u128 \<Rightarrow> u128 \<Rightarrow> snapshot option" where
  "apply_hop rs pairs t t' amt out =
     (if amt = 0 \<or> out = 0 then None
      else Option.bind (map_of pairs (t, t')) (\<lambda>p. Option.bind (map_of rs p) (\<lambda>s.
        map_option (\<lambda>s'. AList.update p s' rs) (swapped s t t' amt out))))"

definition exact_in_hop :: "snapshot \<Rightarrow> pair_map \<Rightarrow> alkane_id \<Rightarrow> alkane_id \<Rightarrow> u128 \<Rightarrow> (snapshot \<times> u128) option" where
  "exact_in_hop rs pairs t t' amt =
     Option.bind (amount_out_for_pair t t' amt rs pairs) (\<lambda>out.
     map_option (\<lambda>rs'. (rs', out)) (apply_hop rs pairs t t' amt out))"

text \<open>The loops over \<open>path.windows(2)\<close>.\<close>

fun exact_in_path :: "pair_map \<Rightarrow> alkane_id list \<Rightarrow> snapshot \<Rightarrow> u128 \<Rightarrow> (snapshot \<times> u128) option" where
  "exact_in_path pairs (a # b # path) rs amt =
     Option.bind (exact_in_hop rs pairs a b amt) (\<lambda>(rs', out). exact_in_path pairs (b # path) rs' out)"
| "exact_in_path pairs path rs amt = Some (rs, amt)"

fun amounts_for_path :: "pair_map \<Rightarrow> snapshot \<Rightarrow> alkane_id list \<Rightarrow> u128 \<Rightarrow> u128 list option" where
  "amounts_for_path pairs rs (a # b # path) desired =
     Option.bind (amounts_for_path pairs rs (b # path) desired) (\<lambda>amounts.
     map_option (\<lambda>x. x # amounts) (amount_in_for_pair a b (hd amounts) rs pairs))"
| "amounts_for_path pairs rs [a] desired = Some [desired]"
| "amounts_for_path pairs rs [] desired = None"

fun apply_path :: "pair_map \<Rightarrow> alkane_id list \<Rightarrow> u128 list \<Rightarrow> snapshot \<Rightarrow> snapshot option" where
  "apply_path pairs (a # b # path) (x # y # amounts) rs =
     Option.bind (apply_hop rs pairs a b x y) (apply_path pairs (b # path) (y # amounts))"
| "apply_path pairs path amounts rs = Some rs"

section \<open>Arguments of a call\<close>

definition parse_alkane_at :: "u128 list \<Rightarrow> nat \<Rightarrow> alkane_id option" where
  "parse_alkane_at ins offset =
     Option.bind (get_at ins offset) (\<lambda>b. Option.bind (get_at ins (offset + 1)) (alkane_id_from_parts b))"

fun parse_ids :: "u128 list \<Rightarrow> nat \<Rightarrow> nat \<Rightarrow> alkane_id list option" where
  "parse_ids ins cursor 0 = Some []"
| "parse_ids ins cursor (Suc len) =
     Option.bind (parse_alkane_at ins cursor) (\<lambda>a. map_option (\<lambda>path. a # path) (parse_ids ins (cursor + 2) len))"

text \<open>
  \<open>Vec::with_capacity(len)\<close> panics when the capacity exceeds \<open>isize::MAX\<close> bytes; an id takes 16.
\<close>

definition parse_path :: "u128 list \<Rightarrow> nat \<Rightarrow> (unit, alkane_id list \<times> nat) reader" where
  "parse_path ins minimum_len = (case Option.bind (get_at ins 1) as_usize of
       None \<Rightarrow> Some (Inl ())
     | Some len \<Rightarrow>
         if len < minimum_len then Some (Inl ())
         else if len * 16 \<ge> 2 ^ 63 then None
         else Some (case parse_ids ins 2 len of Some path \<Rightarrow> Inr (path, 2 + 2 * len) | None \<Rightarrow> Inl ()))"

definition single_incoming_asset :: "sheet \<Rightarrow> (alkane_id \<times> u128) option" where
  "single_incoming_asset sh = (case filter (\<lambda>(_, a). a > 0) sh of [x] \<Rightarrow> Some x | _ \<Rightarrow> None)"

section \<open>The operations of the rule\<close>

definition lp_supply :: "amm_rule \<Rightarrow> alkane_id \<Rightarrow> u128" where
  "lp_supply r p = bal (lp_supplies r) p"

definition swap_sheet :: "sheet \<Rightarrow> alkane_id \<Rightarrow> u128 \<Rightarrow> alkane_id \<Rightarrow> u128 \<Rightarrow> sheet" where
  "swap_sheet inc t amt t' out = add_to_sheet (fst (remove_from_sheet inc t amt)) t' out"

definition set_reserves :: "snapshot \<Rightarrow> (amm_rule, unit) rule" where
  "set_reserves rs = (\<lambda>r. Some (Inr (), r\<lparr>reserves := rs\<rparr>))"

text \<open>One direction of a swap, with the output capped by the amount the call asks for.\<close>

definition swap_through_pair :: "alkane_id \<Rightarrow> alkane_id \<Rightarrow> u128 \<Rightarrow> u128 \<Rightarrow> sheet \<Rightarrow> (amm_rule, sheet) rule" where
  "swap_through_pair t t' amt wanted inc =
     bindc get_rule (\<lambda>r.
     bindc (attempt (amount_out_for_pair t t' amt (reserves r) (by_pair r))) (\<lambda>computed.
     let out = (if wanted > 0 then min wanted computed else computed) in
     bindc (require (out \<noteq> 0)) (\<lambda>_.
     bindc (attempt (apply_hop (reserves r) (by_pair r) t t' amt out)) (\<lambda>trial.
     bindc (set_reserves trial) (\<lambda>_. ret (swap_sheet inc t amt t' out))))))"

definition project_pool_swap :: "alkane_id \<Rightarrow> u128 list \<Rightarrow> sheet \<Rightarrow> (amm_rule, sheet) rule" where
  "project_pool_swap p ins inc =
     bindc get_rule (\<lambda>r.
     bindc (attempt (map_of (reserves r) p)) (\<lambda>s.
     let amount_0_out = arg ins 1; amount_1_out = arg ins 2;
         base_in = bal inc (base_id s); quote_in = bal inc (quote_id s) in
     bindc (require (\<not> (amount_0_out > 0 \<and> amount_1_out > 0))) (\<lambda>_.
     bindc (require ((base_in > 0) \<noteq> (quote_in > 0))) (\<lambda>_.
     if base_in > 0 then swap_through_pair (base_id s) (quote_id s) base_in amount_1_out inc
     else swap_through_pair (quote_id s) (base_id s) quote_in amount_0_out inc))))"

definition put_pool :: "alkane_id \<Rightarrow> pool_snapshot \<Rightarrow> (amm_rule, unit) rule" where
  "put_pool p s = (\<lambda>r. Some (Inr (), r\<lparr>reserves := AList.update p s (reserves r)\<rparr>))"

definition deposited :: "pool_snapshot \<Rightarrow> alkane_id \<Rightarrow> alkane_id \<Rightarrow> u128 \<Rightarrow> u128 \<Rightarrow> pool_snapshot option" where
  "deposited s ta tb a b =
     (if base_id s = ta \<and> quote_id s = tb then
        Some (s\<lparr>base_reserve := saturating_add (base_reserve s) a, quote_reserve := saturating_add (quote_reserve s) b\<rparr>)
      else if base_id s = tb \<and> quote_id s = ta then
        Some (s\<lparr>base_reserve := saturating_add (base_reserve s) b, quote_reserve := saturating_add (quote_reserve s) a\<rparr>)
      else None)"

definition apply_reserve_delta :: "alkane_id \<Rightarrow> alkane_id \<Rightarrow> alkane_id \<Rightarrow> u128 \<Rightarrow> u128 \<Rightarrow> (amm_rule, unit) rule" where
  "apply_reserve_delta p ta tb a b =
     bindc get_rule (\<lambda>r.
     bindc (attempt (map_of (reserves r) p)) (\<lambda>s.
     bindc (attempt (deposited s ta tb a b)) (put_pool p)))"

definition set_supply :: "alkane_id \<Rightarrow> u128 \<Rightarrow> (amm_rule, unit) rule" where
  "set_supply p n = (\<lambda>r. Some (Inr (), r\<lparr>lp_supplies := AList.update p n (lp_supplies r)\<rparr>))"

definition project_add_liquidity ::
  "alkane_id \<Rightarrow> alkane_id \<Rightarrow> alkane_id \<Rightarrow> u128 \<Rightarrow> u128 \<Rightarrow> sheet \<Rightarrow> (amm_rule, sheet) rule" where
  "project_add_liquidity p ta tb a b inc =
     bindc (require (a \<noteq> 0 \<and> b \<noteq> 0)) (\<lambda>_.
     bindc get_rule (\<lambda>r.
     bindc (attempt (map_of (reserves r) p)) (\<lambda>s.
     let supply = lp_supply r p in
     bindc (attempt (ordered_reserves s ta tb)) (\<lambda>(ra, rb).
     bindc (liftr (\<lambda>_. minted_liquidity supply ra rb a b)) (\<lambda>liquidity.
     bindc (require (liquidity \<noteq> 0)) (\<lambda>_.
     bindc (apply_reserve_delta p ta tb a b) (\<lambda>_.
     bindc (set_supply p (saturating_add supply liquidity)) (\<lambda>_.
     ret (add_to_sheet (fst (remove_from_sheet (fst (remove_from_sheet inc ta a)) tb b)) p liquidity)))))))))"

definition project_factory_add_liquidity :: "u128 list \<Rightarrow> sheet \<Rightarrow> (amm_rule, sheet) rule" where
  "project_factory_add_liquidity ins inc =
     bindc (attempt (parse_alkane_at ins 1)) (\<lambda>ta.
     bindc (attempt (parse_alkane_at ins 3)) (\<lambda>tb.
     bindc (require (arg ins 5 \<noteq> 0 \<and> arg ins 6 \<noteq> 0)) (\<lambda>_.
     bindc get_rule (\<lambda>r.
     bindc (attempt (map_of (by_pair r) (ta, tb))) (\<lambda>p.
     bindc (attempt (map_of (reserves r) p)) (\<lambda>s.
     bindc (attempt (ordered_reserves s ta tb)) (\<lambda>(ra, rb).
     bindc (attempt (optimal_liquidity_amounts ra rb (arg ins 5) (arg ins 6) (arg ins 7) (arg ins 8))) (\<lambda>(a, b).
     bindc (require (a \<le> bal inc ta \<and> b \<le> bal inc tb)) (\<lambda>_.
     project_add_liquidity p ta tb a b inc)))))))))"

definition project_direct_pool_add_liquidity :: "alkane_id \<Rightarrow> sheet \<Rightarrow> (amm_rule, sheet) rule" where
  "project_direct_pool_add_liquidity p inc =
     bindc get_rule (\<lambda>r.
     bindc (attempt (map_of (reserves r) p)) (\<lambda>s.
     let base = bal inc (base_id s); quote = bal inc (quote_id s) in
     bindc (require (base \<noteq> 0 \<and> quote \<noteq> 0)) (\<lambda>_.
     bindc (require (\<not> list_ex (\<lambda>(t, a). a > 0 \<and> t \<noteq> base_id s \<and> t \<noteq> quote_id s) inc)) (\<lambda>_.
     project_add_liquidity p (base_id s) (quote_id s) base quote inc))))"

text \<open>The check of one minimum of a withdrawal.\<close>

definition min_met :: "pool_snapshot \<Rightarrow> u128 \<Rightarrow> u128 \<Rightarrow> (alkane_id \<times> u128) option \<Rightarrow> bool" where
  "min_met s base quote m = (case m of
       None \<Rightarrow> True
     | Some (t, least) \<Rightarrow>
         if t = base_id s then least \<le> base else if t = quote_id s then least \<le> quote else False)"

definition project_pool_burn ::
  "alkane_id \<Rightarrow> u128 option \<Rightarrow> (alkane_id \<times> u128) option \<Rightarrow> (alkane_id \<times> u128) option \<Rightarrow> sheet \<Rightarrow> (amm_rule, sheet) rule" where
  "project_pool_burn p override min_a min_b inc =
     (let available = bal inc p; liquidity = (case override of Some l \<Rightarrow> l | None \<Rightarrow> available) in
     bindc (require (liquidity \<noteq> 0)) (\<lambda>_.
     bindc (require (liquidity \<le> available)) (\<lambda>_.
     bindc get_rule (\<lambda>r.
     bindc (attempt (map_of (reserves r) p)) (\<lambda>s.
     let supply = lp_supply r p in
     bindc (attempt (burned_liquidity_amounts liquidity (base_reserve s) (quote_reserve s) supply)) (\<lambda>(base, quote).
     bindc (require (base \<noteq> 0 \<and> quote \<noteq> 0)) (\<lambda>_.
     bindc (require (min_met s base quote min_a)) (\<lambda>_.
     bindc (require (min_met s base quote min_b)) (\<lambda>_.
     bindc (attempt (checked_sub (base_reserve s) base)) (\<lambda>base_left.
     bindc (put_pool p (s\<lparr>base_reserve := base_left\<rparr>)) (\<lambda>_.
     bindc (attempt (checked_sub (quote_reserve s) quote)) (\<lambda>quote_left.
     bindc (put_pool p (s\<lparr>base_reserve := base_left, quote_reserve := quote_left\<rparr>)) (\<lambda>_.
     bindc (attempt (checked_sub supply liquidity)) (\<lambda>supply_left.
     bindc (set_supply p supply_left) (\<lambda>_.
     ret (add_to_sheet (add_to_sheet (fst (remove_from_sheet inc p liquidity)) (base_id s) base) (quote_id s) quote))))))))))))))))"

definition project_factory_burn :: "u128 list \<Rightarrow> sheet \<Rightarrow> (amm_rule, sheet) rule" where
  "project_factory_burn ins inc =
     bindc (attempt (parse_alkane_at ins 1)) (\<lambda>ta.
     bindc (attempt (parse_alkane_at ins 3)) (\<lambda>tb.
     let liquidity = arg ins 5 in
     bindc (\<lambda>r. attempt (map_of (by_pair r) (ta, tb)) r) (\<lambda>p.
     bindc (require (liquidity \<noteq> 0 \<and> liquidity \<le> bal inc p)) (\<lambda>_.
     project_pool_burn p (Some liquidity) (Some (ta, arg ins 6)) (Some (tb, arg ins 7)) inc))))"

definition project_factory_exact_in :: "u128 list \<Rightarrow> sheet \<Rightarrow> bool \<Rightarrow> (amm_rule, sheet) rule" where
  "project_factory_exact_in ins inc implicit =
     bindc (liftr (\<lambda>_. parse_path ins (if implicit then 1 else 2))) (\<lambda>(parsed, cursor).
     bindc (if implicit then bindc (attempt (single_incoming_asset inc)) (\<lambda>(t, available). ret (t # parsed, available))
            else ret (parsed, arg ins cursor)) (\<lambda>(path, amt).
     bindc (require (path \<noteq> [])) (\<lambda>_.
     bindc (require (amt \<noteq> 0 \<and> amt \<le> bal inc (hd path))) (\<lambda>_.
     let min_out = arg ins (if implicit then cursor else cursor + 1) in
     bindc (\<lambda>r. attempt (exact_in_path (by_pair r) path (reserves r) amt) r) (\<lambda>(trial, out).
     bindc (require (min_out \<le> out)) (\<lambda>_.
     bindc (set_reserves trial) (\<lambda>_. ret (swap_sheet inc (hd path) amt (last path) out))))))))"

definition project_factory_exact_out :: "u128 list \<Rightarrow> sheet \<Rightarrow> (amm_rule, sheet) rule" where
  "project_factory_exact_out ins inc =
     bindc (liftr (\<lambda>_. parse_path ins 2)) (\<lambda>(path, cursor).
     let desired = arg ins cursor; in_max = arg ins (cursor + 1) in
     bindc (require (desired \<noteq> 0)) (\<lambda>_.
     bindc (\<lambda>r. attempt (amounts_for_path (by_pair r) (reserves r) path desired) r) (\<lambda>amounts.
     let amt = hd amounts in
     bindc (require (amt \<noteq> 0 \<and> amt \<le> in_max \<and> amt \<le> bal inc (hd path))) (\<lambda>_.
     bindc (\<lambda>r. attempt (apply_path (by_pair r) path amounts (reserves r)) r) (\<lambda>trial.
     bindc (set_reserves trial) (\<lambda>_. ret (swap_sheet inc (hd path) amt (last path) desired)))))))"

definition project_pool_call :: "alkane_id \<Rightarrow> u128 \<Rightarrow> u128 list \<Rightarrow> sheet \<Rightarrow> (amm_rule, sheet) rule" where
  "project_pool_call p opcode ins inc =
     (if opcode = AMM_POOL_ADD_LIQUIDITY_OPCODE then project_direct_pool_add_liquidity p inc
      else if opcode = AMM_POOL_WITHDRAW_AND_BURN_OPCODE then project_pool_burn p None None None inc
      else if opcode = AMM_POOL_SWAP_OPCODE then project_pool_swap p ins inc
      else if opcode \<in> set pool_passthrough_opcodes then ret inc
      else attempt None)"

definition project_factory_swap :: "u128 \<Rightarrow> u128 list \<Rightarrow> sheet \<Rightarrow> (amm_rule, sheet) rule" where
  "project_factory_swap opcode ins inc =
     (if opcode = AMM_FACTORY_ADD_LIQUIDITY_OPCODE then project_factory_add_liquidity ins inc
      else if opcode = AMM_FACTORY_BURN_OPCODE then project_factory_burn ins inc
      else if opcode = AMM_FACTORY_SWAP_EXACT_IN_OPCODE then project_factory_exact_in ins inc False
      else if opcode = AMM_FACTORY_SWAP_EXACT_IN_IMPLICIT_OPCODE then project_factory_exact_in ins inc True
      else if opcode = AMM_FACTORY_SWAP_EXACT_OUT_OPCODE then project_factory_exact_out ins inc
      else if opcode \<in> set factory_passthrough_opcodes then ret inc
      else attempt None)"

definition amm_project :: "codec \<Rightarrow> call_context \<Rightarrow> (amm_rule, sheet) rule" where
  "amm_project X ctx =
     bindc (attempt (cellpack_from_protostone X (stone ctx))) (\<lambda>cp.
     bindc (attempt (alkane_id_from_parts (target_block cp) (target_tx cp))) (\<lambda>p.
     bindc (attempt (get_at (inputs cp) 0)) (\<lambda>opcode.
     bindc get_rule (\<lambda>r.
     if map_of (reserves r) p \<noteq> None then project_pool_call p opcode (inputs cp) (incoming ctx)
     else if Some p = factory_id r then project_factory_swap opcode (inputs cp) (incoming ctx)
     else attempt None))))"

end
