(* ===== verification/Fire_Projection.thy ===== *)
theory Fire_Projection
  imports Amm_Projection
begin

text \<open>
  The projection of the FIRE contracts (\<^verbatim>\<open>src/runtime/mempool_projection/fire.rs\<close>) and the registry that tries the
  rules in turn (\<^verbatim>\<open>src/runtime/mempool_projection/mod.rs\<close>).
\<close>

section \<open>State\<close>

record fire_deployments =
  staking_beacon :: alkane_id
  position_beacon :: alkane_id
  fire_token :: alkane_id
  staking_factory :: alkane_id
  redemption :: alkane_id
  price_oracle :: alkane_id
  bonding :: alkane_id
  treasury :: alkane_id
  epoch0_staking :: alkane_id
  epoch0_position :: alkane_id
  diesel_frbtc_lp :: alkane_id
  distributor :: "alkane_id option"
  contribution_token :: "alkane_id option"

record fire_rule =
  deployments :: "fire_deployments option"
  contract_balances :: "(alkane_id \<times> sheet) list"
  total_fire_supply :: "u128 option"

datatype network = Bitcoin | Regtest | Signet | Testnet | Testnet4

definition mk_id :: "u32 \<Rightarrow> 64 word \<Rightarrow> alkane_id" where
  "mk_id block tx = \<lparr>id_block = block, id_tx = tx\<rparr>"

definition deployments_on :: "network \<Rightarrow> fire_deployments option" where
  "deployments_on n = (case n of
       Bitcoin \<Rightarrow> Some \<lparr>staking_beacon = mk_id 2 77621, position_beacon = mk_id 2 77622, fire_token = mk_id 2 77623,
         staking_factory = mk_id 2 77624, redemption = mk_id 2 77625, price_oracle = mk_id 2 77626, bonding = mk_id 2 77627,
         treasury = mk_id 2 77628, epoch0_staking = mk_id 2 77631, epoch0_position = mk_id 2 77632,
         diesel_frbtc_lp = mk_id 2 77087, distributor = None, contribution_token = Some FRBTC_ALKANE_ID\<rparr>
     | _ \<Rightarrow> None)"

text \<open>\<open>new\<close>: the indexed balances of a contract and the indexed supply of a token are arguments.\<close>

definition fire_new :: "network \<Rightarrow> (alkane_id \<Rightarrow> sheet) \<Rightarrow> (alkane_id \<Rightarrow> u128 option) \<Rightarrow> fire_rule" where
  "fire_new n balances_of supply_of = (case deployments_on n of
       None \<Rightarrow> \<lparr>deployments = None, contract_balances = [], total_fire_supply = None\<rparr>
     | Some d \<Rightarrow>
         \<lparr>deployments = Some d,
          contract_balances = fold (\<lambda>owner. AList.update owner (balances_of owner))
            ([bonding d, redemption d, treasury d, epoch0_staking d] @ (case distributor d of Some o' \<Rightarrow> [o'] | None \<Rightarrow> [])) [],
          total_fire_supply = supply_of (fire_token d)\<rparr>)"

section \<open>Balances of the contracts\<close>

definition owner_sheet :: "fire_rule \<Rightarrow> alkane_id \<Rightarrow> sheet" where
  "owner_sheet r owner = (case map_of (contract_balances r) owner of Some sh \<Rightarrow> sh | None \<Rightarrow> [])"

definition contract_balance :: "fire_rule \<Rightarrow> alkane_id \<Rightarrow> alkane_id \<Rightarrow> u128" where
  "contract_balance r owner t = bal (owner_sheet r owner) t"

definition put_sheet :: "alkane_id \<Rightarrow> sheet \<Rightarrow> fire_rule \<Rightarrow> fire_rule" where
  "put_sheet owner sh r = r\<lparr>contract_balances := AList.update owner sh (contract_balances r)\<rparr>"

definition add_contract_balance :: "alkane_id \<Rightarrow> alkane_id \<Rightarrow> u128 \<Rightarrow> fire_rule \<Rightarrow> fire_rule" where
  "add_contract_balance owner t amount r =
     (if amount = 0 then r else put_sheet owner (add_to_sheet (owner_sheet r owner) t amount) r)"

definition take_contract_balance :: "alkane_id \<Rightarrow> alkane_id \<Rightarrow> u128 \<Rightarrow> fire_rule \<Rightarrow> fire_rule \<times> u128" where
  "take_contract_balance owner t amount r =
     (if amount = 0 then (r, 0)
      else
        let sh = owner_sheet r owner; taken = min (bal sh t) amount in
        if taken = 0 then (put_sheet owner sh r, 0)
        else
          let left = saturating_sub (bal sh t) taken in
          (put_sheet owner (if left = 0 then AList.delete t sh else AList.update t left sh) r, taken))"

definition add_treasury_redemption_backing :: "sheet \<Rightarrow> u128 \<Rightarrow> fire_deployments \<Rightarrow> fire_rule \<Rightarrow> fire_rule \<times> sheet" where
  "add_treasury_redemption_backing out fire_amount d r =
     (if fire_amount = 0 then (r, out)
      else case total_fire_supply r of
        None \<Rightarrow> (r, out)
      | Some supply \<Rightarrow>
          if supply = 0 then (r, out)
          else
            let diesel_share = saturating_mul (contract_balance r (treasury d) (diesel_frbtc_lp d)) fire_amount div supply;
                (r', taken) = take_contract_balance (treasury d) (diesel_frbtc_lp d) diesel_share r in
            (r', add_to_sheet out (diesel_frbtc_lp d) taken))"

definition without_token :: "sheet \<Rightarrow> alkane_id \<Rightarrow> sheet" where
  "without_token inc t = AList.delete t inc"

text \<open>Updating the rule and returning a sheet.\<close>

definition modify :: "(fire_rule \<Rightarrow> fire_rule) \<Rightarrow> (fire_rule, unit) rule" where
  "modify f = (\<lambda>r. Some (Inr (), f r))"

definition returning :: "(fire_rule \<Rightarrow> fire_rule \<times> sheet) \<Rightarrow> (fire_rule, sheet) rule" where
  "returning f = (\<lambda>r. let (r', out) = f r in Some (Inr out, r'))"

section \<open>The contracts\<close>

definition mint_fire :: "u128 \<Rightarrow> fire_rule \<Rightarrow> fire_rule" where
  "mint_fire amount r = r\<lparr>total_fire_supply :=
     Some (saturating_add (case total_fire_supply r of Some n \<Rightarrow> n | None \<Rightarrow> 0) amount)\<rparr>"

definition burn_fire :: "u128 \<Rightarrow> fire_rule \<Rightarrow> fire_rule" where
  "burn_fire amount r = r\<lparr>total_fire_supply :=
     Some (saturating_sub (case total_fire_supply r of Some n \<Rightarrow> n | None \<Rightarrow> 0) amount)\<rparr>"

definition project_fire_token :: "u128 \<Rightarrow> u128 list \<Rightarrow> sheet \<Rightarrow> fire_deployments \<Rightarrow> (fire_rule, sheet) rule" where
  "project_fire_token opcode ins inc d =
     (if opcode = 0 then
        (let minted = saturating_add (arg ins 5) (arg ins 8) in
         bindc (modify (mint_fire minted)) (\<lambda>_.
         bindc (modify (add_contract_balance (treasury d) (fire_token d) minted)) (\<lambda>_.
         ret (add_to_sheet [] (fire_token d) minted))))
      else if opcode = 77 then
        (let amount = arg ins 1 in
         bindc (require (amount \<noteq> 0)) (\<lambda>_.
         bindc (modify (mint_fire amount)) (\<lambda>_. ret (add_to_sheet inc (fire_token d) amount))))
      else if opcode = 88 then
        (let burned = bal inc (fire_token d) in
         bindc (modify (if burned > 0 then burn_fire burned else id)) (\<lambda>_. ret (without_token inc (fire_token d))))
      else if 99 \<le> opcode \<and> opcode \<le> 103 then ret inc
      else attempt None)"

definition project_staking :: "u128 \<Rightarrow> sheet \<Rightarrow> fire_deployments \<Rightarrow> (fire_rule, sheet) rule" where
  "project_staking opcode inc d =
     (if opcode \<in> {0, 2, 3, 5, 12, 14, 15, 30, 31, 36} then ret inc
      else if opcode = 1 then
        (let lp = bal inc (diesel_frbtc_lp d) in
         bindc (require (lp \<noteq> 0)) (\<lambda>_.
         bindc (modify (add_contract_balance (epoch0_staking d) (diesel_frbtc_lp d) lp)) (\<lambda>_.
         ret (add_to_sheet (AList.delete (diesel_frbtc_lp d) inc) (epoch0_position d) 1))))
      else attempt None)"

definition project_redemption :: "u128 \<Rightarrow> sheet \<Rightarrow> fire_deployments \<Rightarrow> (fire_rule, sheet) rule" where
  "project_redemption opcode inc d =
     (if opcode = 1 then
        returning (add_treasury_redemption_backing (without_token inc (fire_token d)) (bal inc (fire_token d)) d)
      else if opcode \<in> {0, 2, 3, 4} \<or> 20 \<le> opcode \<and> opcode \<le> 24 then ret inc
      else attempt None)"

definition project_bonding :: "u128 \<Rightarrow> sheet \<Rightarrow> fire_deployments \<Rightarrow> (fire_rule, sheet) rule" where
  "project_bonding opcode inc d =
     (if opcode = 1 then
        (let lp = bal inc (diesel_frbtc_lp d) in
         bindc (modify (if lp > 0 then add_contract_balance (treasury d) (diesel_frbtc_lp d) lp else id)) (\<lambda>_.
         ret (without_token inc (diesel_frbtc_lp d))))
      else if opcode = 10 then
        (let fire = bal inc (fire_token d) in
         bindc (modify (if fire > 0 then add_contract_balance (bonding d) (fire_token d) fire else id)) (\<lambda>_.
         ret (without_token inc (fire_token d))))
      else if opcode \<in> {2, 3, 0, 4, 5, 6} \<or> 20 \<le> opcode \<and> opcode \<le> 25 then ret inc
      else attempt None)"

definition project_treasury :: "u128 \<Rightarrow> u128 list \<Rightarrow> sheet \<Rightarrow> fire_deployments \<Rightarrow> (fire_rule, sheet) rule" where
  "project_treasury opcode ins inc d =
     (if opcode = 2 then
        returning (\<lambda>r. let (r', projected) = take_contract_balance (treasury d) (fire_token d) (arg ins 1) r in
          (r', add_to_sheet inc (fire_token d) projected))
      else if opcode = 6 then
        (if arg ins 1 = 1 then
           returning (\<lambda>r. let (r', projected) = take_contract_balance (treasury d) (diesel_frbtc_lp d) (arg ins 2) r in
             (r', add_to_sheet inc (diesel_frbtc_lp d) projected))
         else ret inc)
      else if opcode = 10 then
        bindc (modify (fold (\<lambda>(t, amount). add_contract_balance (treasury d) t amount) inc)) (\<lambda>_. ret [])
      else if opcode = 11 then returning (add_treasury_redemption_backing inc (arg ins 1) d)
      else if opcode \<in> {5, 0, 1, 3, 4} \<or> 20 \<le> opcode \<and> opcode \<le> 23 then ret inc
      else attempt None)"

definition project_distributor :: "u128 \<Rightarrow> sheet \<Rightarrow> fire_deployments \<Rightarrow> (fire_rule, sheet) rule" where
  "project_distributor opcode inc d =
     (if opcode = 1 then
        bindc (attempt (contribution_token d)) (\<lambda>t.
        bindc (modify (case distributor d of Some owner \<Rightarrow> add_contract_balance owner t (bal inc t) | None \<Rightarrow> id)) (\<lambda>_.
        ret (without_token inc t)))
      else if opcode = 10 then
        bindc (modify (case distributor d of
          Some owner \<Rightarrow> add_contract_balance owner (fire_token d) (bal inc (fire_token d)) | None \<Rightarrow> id)) (\<lambda>_.
        ret (without_token inc (fire_token d)))
      else if opcode \<in> {3, 6, 11, 0, 2, 4, 5} \<or> 20 \<le> opcode \<and> opcode \<le> 25 then ret inc
      else attempt None)"

definition project_position_token :: "u128 \<Rightarrow> sheet \<Rightarrow> alkane_id \<Rightarrow> (fire_rule, sheet) rule" where
  "project_position_token opcode inc t =
     (if opcode = 0 then ret (add_to_sheet [] t 1)
      else if opcode \<in> {1, 2} \<or> 10 \<le> opcode \<and> opcode \<le> 17 \<or> opcode \<in> {19, 23, 99, 100} then ret inc
      else attempt None)"

definition project_read_or_admin_call :: "u128 \<Rightarrow> sheet \<Rightarrow> (fire_rule, sheet) rule" where
  "project_read_or_admin_call opcode inc =
     (if opcode \<le> 25 \<or> opcode \<in> {30, 31, 36, 99, 100} then ret inc else attempt None)"

definition fire_project :: "codec \<Rightarrow> call_context \<Rightarrow> (fire_rule, sheet) rule" where
  "fire_project X ctx =
     bindc (\<lambda>r. attempt (deployments r) r) (\<lambda>d.
     bindc (attempt (cellpack_from_protostone X (stone ctx))) (\<lambda>cp.
     bindc (attempt (alkane_id_from_parts (target_block cp) (target_tx cp))) (\<lambda>t.
     bindc (attempt (get_at (inputs cp) 0)) (\<lambda>opcode.
     if t = fire_token d then project_fire_token opcode (inputs cp) (incoming ctx) d
     else if t = epoch0_staking d \<or> t = staking_factory d then project_staking opcode (incoming ctx) d
     else if t = epoch0_position d then project_position_token opcode (incoming ctx) t
     else if t = redemption d then project_redemption opcode (incoming ctx) d
     else if t = bonding d then project_bonding opcode (incoming ctx) d
     else if t = treasury d then project_treasury opcode (inputs cp) (incoming ctx) d
     else if Some t = distributor d then project_distributor opcode (incoming ctx) d
     else if t = staking_beacon d \<or> t = position_beacon d \<or> t = price_oracle d then
       project_read_or_admin_call opcode (incoming ctx)
     else attempt None))))"

section \<open>The registry\<close>

record registry =
  frbtc :: frbtc_rule
  amm :: amm_rule
  fire :: fire_rule
  applied :: bool

text \<open>A rule run on its part of the registry, and the first of two rules that projects.\<close>

definition on_frbtc :: "(frbtc_rule, 'a) rule \<Rightarrow> (registry, 'a) rule" where
  "on_frbtc m = (\<lambda>g. map_option (\<lambda>(x, r). (x, g\<lparr>frbtc := r\<rparr>)) (m (frbtc g)))"

definition on_amm :: "(amm_rule, 'a) rule \<Rightarrow> (registry, 'a) rule" where
  "on_amm m = (\<lambda>g. map_option (\<lambda>(x, r). (x, g\<lparr>amm := r\<rparr>)) (m (amm g)))"

definition on_fire :: "(fire_rule, 'a) rule \<Rightarrow> (registry, 'a) rule" where
  "on_fire m = (\<lambda>g. map_option (\<lambda>(x, r). (x, g\<lparr>fire := r\<rparr>)) (m (fire g)))"

definition orelse :: "('r, 'a) rule \<Rightarrow> ('r, 'a) rule \<Rightarrow> ('r, 'a) rule" where
  "orelse m m' = (\<lambda>r. case m r of
       None \<Rightarrow> None
     | Some (Inr a, r') \<Rightarrow> Some (Inr a, r')
     | Some (Inl _, r') \<Rightarrow> m' r')"

definition mark_applied :: "sheet \<Rightarrow> (registry, sheet) rule" where
  "mark_applied out = (\<lambda>g. Some (Inr out, g\<lparr>applied := True\<rparr>))"

definition from_latest_indices :: "frbtc_rule \<Rightarrow> amm_rule \<Rightarrow> fire_rule \<Rightarrow> registry" where
  "from_latest_indices f a i = \<lparr>frbtc = f, amm = a, fire = i, applied = False\<rparr>"

definition begin_transaction :: "registry \<Rightarrow> registry" where
  "begin_transaction g = g\<lparr>applied := False\<rparr>"

definition did_apply :: "registry \<Rightarrow> bool" where
  "did_apply g = applied g"

definition registry_project :: "codec \<Rightarrow> call_context \<Rightarrow> (registry, sheet) rule" where
  "registry_project X ctx =
     bindc (orelse (on_frbtc (frbtc_project X ctx)) (orelse (on_amm (amm_project X ctx)) (on_fire (fire_project X ctx)))) mark_applied"

text \<open>Only the frBTC and the AMM rule prefer the projection from inputs.\<close>

definition project_from_inputs :: "codec \<Rightarrow> call_context \<Rightarrow> (registry, sheet) rule" where
  "project_from_inputs X ctx =
     bindc (orelse (on_frbtc (frbtc_project X ctx)) (on_amm (amm_project X ctx))) mark_applied"

end
