(* ===== verification/Amm_Steps.thy ===== *)
theory Amm_Steps
  imports Fire_Projection
begin

text \<open>
  What a projected AMM call may do, as a step relation, and that every successful projection is such a
  step. The lemmas on sheets and on rules are shared by all projection proofs.
\<close>

section \<open>Running a rule\<close>

named_theorems run_iffs \<open>when a rule returns, fails or panics\<close>

lemma bindc_returns [run_iffs]:
  "bindc m f r = Some (Inr b, r') \<longleftrightarrow> (\<exists>a r1. m r = Some (Inr a, r1) \<and> f a r1 = Some (Inr b, r'))"
  "bindc m f r = Some (Inl e, r') \<longleftrightarrow> m r = Some (Inl e, r') \<or> (\<exists>a r1. m r = Some (Inr a, r1) \<and> f a r1 = Some (Inl e, r'))"
  "bindc m f r = None \<longleftrightarrow> m r = None \<or> (\<exists>a r1. m r = Some (Inr a, r1) \<and> f a r1 = None)"
  by (auto simp: bindc_def split: option.splits sum.splits)

lemma run_if [run_iffs]: "(if c then m else m') r = (if c then m r else m' r)"
  by simp

lemma attempt_returns [run_iffs]:
  "attempt x r = Some (Inr a, r') \<longleftrightarrow> x = Some a \<and> r' = r"
  "attempt x r = Some (Inl e, r') \<longleftrightarrow> x = None \<and> r' = r"
  "attempt x r \<noteq> None"
  by (auto simp: attempt_def split: option.splits)

lemma require_returns [run_iffs]:
  "require b r = Some (Inr u, r') \<longleftrightarrow> b \<and> r' = r"
  "require b r = Some (Inl e, r') \<longleftrightarrow> \<not> b \<and> r' = r"
  "require b r \<noteq> None"
  by (auto simp: require_def attempt_returns)

lemma get_rule_returns [run_iffs]:
  "get_rule r = Some (Inr a, r') \<longleftrightarrow> a = r \<and> r' = r" "get_rule r \<noteq> Some (Inl e, r')" "get_rule r \<noteq> None"
  by (auto simp: get_rule_def)

lemma ret_returns [run_iffs]:
  "ret a r = Some (Inr b, r') \<longleftrightarrow> b = a \<and> r' = r" "ret a r \<noteq> Some (Inl e, r')" "ret a r \<noteq> None"
  by (auto simp: ret_def)

lemma liftr_returns [run_iffs]:
  "liftr m r = Some (x, r') \<longleftrightarrow> m r = Some x \<and> r' = r" "liftr m r = None \<longleftrightarrow> m r = None"
  by (auto simp: liftr_def)

lemma set_returns [run_iffs]:
  "set_reserves rs r = Some (x, r') \<longleftrightarrow> x = Inr () \<and> r' = r\<lparr>reserves := rs\<rparr>"
  "set_supply p n r = Some (x, r') \<longleftrightarrow> x = Inr () \<and> r' = r\<lparr>lp_supplies := AList.update p n (lp_supplies r)\<rparr>"
  "put_pool p s r = Some (x, r') \<longleftrightarrow> x = Inr () \<and> r' = r\<lparr>reserves := AList.update p s (reserves r)\<rparr>"
  "set_reserves rs r \<noteq> None" "set_supply p n r \<noteq> None" "put_pool p s r \<noteq> None"
  by (auto simp: set_reserves_def set_supply_def put_pool_def)

section \<open>Sheets\<close>

lemma bal_update: "bal (AList.update k v m) x = (if x = k then v else bal m x)"
  by (simp add: bal_def update_conv')

lemma bal_delete: "bal (AList.delete k m) x = (if x = k then 0 else bal m x)"
  by (simp add: bal_def delete_conv')

lemma bal_add_to_sheet: "bal (add_to_sheet sh t a) x = (if x = t \<and> a \<noteq> 0 then saturating_add (bal sh t) a else bal sh x)"
  by (simp add: add_to_sheet_def bal_update)

lemma bal_add_le: "bal (add_to_sheet sh t a) x \<le> bal sh x + (if x = t then a else 0)"
  by (simp add: bal_add_to_sheet saturating_le_exact)

lemma remove_from_sheet_bal:
  "bal (fst (remove_from_sheet sh t a)) x = bal sh x - (if x = t then a else 0)"
  "snd (remove_from_sheet sh t a) = min (bal sh t) a"
  by (auto simp: remove_from_sheet_def bal_def update_conv' delete_conv' saturating_sub_def Let_def split: option.splits)

section \<open>Steps\<close>

text \<open>The path an exact-output swap names; the first argument of a step.\<close>

definition route_of :: "u128 list \<Rightarrow> alkane_id list option" where
  "route_of ins = (case parse_path ins 2 of Some (Inr (path, _)) \<Rightarrow> Some path | _ \<Rightarrow> None)"

inductive amm_step :: "alkane_id list option \<Rightarrow> amm_rule \<Rightarrow> sheet \<Rightarrow> sheet \<Rightarrow> amm_rule \<Rightarrow> bool" where
  pass: "amm_step u r inc inc r"
| swap_one: "amount_out_for_pair t t' amt (reserves r) (by_pair r) = Some computed \<Longrightarrow> out \<le> computed
    \<Longrightarrow> apply_hop (reserves r) (by_pair r) t t' amt out = Some rs \<Longrightarrow> amt \<le> bal inc t
    \<Longrightarrow> amm_step u r inc (swap_sheet inc t amt t' out) (r\<lparr>reserves := rs\<rparr>)"
| swap_in: "path \<noteq> [] \<Longrightarrow> amt \<le> bal inc (hd path) \<Longrightarrow> exact_in_path (by_pair r) path (reserves r) amt = Some (rs, out)
    \<Longrightarrow> amm_step u r inc (swap_sheet inc (hd path) amt (last path) out) (r\<lparr>reserves := rs\<rparr>)"
| swap_out: "u = Some path \<Longrightarrow> path \<noteq> [] \<Longrightarrow> amounts_for_path (by_pair r) (reserves r) path desired = Some amounts
    \<Longrightarrow> hd amounts \<le> bal inc (hd path) \<Longrightarrow> apply_path (by_pair r) path amounts (reserves r) = Some rs
    \<Longrightarrow> amm_step u r inc (swap_sheet inc (hd path) (hd amounts) (last path) desired) (r\<lparr>reserves := rs\<rparr>)"
| deposit: "map_of (reserves r) p = Some s \<Longrightarrow> ordered_reserves s ta tb = Some (ra, rb)
    \<Longrightarrow> minted_liquidity (lp_supply r p) ra rb a b = Some (Inr l) \<Longrightarrow> a \<le> bal inc ta \<Longrightarrow> b \<le> bal inc tb
    \<Longrightarrow> deposited s ta tb a b = Some s'
    \<Longrightarrow> amm_step u r inc (add_to_sheet (fst (remove_from_sheet (fst (remove_from_sheet inc ta a)) tb b)) p l)
          (r\<lparr>reserves := AList.update p s' (reserves r),
             lp_supplies := AList.update p (saturating_add (lp_supply r p) l) (lp_supplies r)\<rparr>)"
| withdraw: "map_of (reserves r) p = Some s
    \<Longrightarrow> burned_liquidity_amounts l (base_reserve s) (quote_reserve s) (lp_supply r p) = Some (base, quote)
    \<Longrightarrow> base \<le> base_reserve s \<Longrightarrow> quote \<le> quote_reserve s \<Longrightarrow> l \<le> lp_supply r p \<Longrightarrow> l \<le> bal inc p
    \<Longrightarrow> amm_step u r inc (add_to_sheet (add_to_sheet (fst (remove_from_sheet inc p l)) (base_id s) base) (quote_id s) quote)
          (r\<lparr>reserves := AList.update p (s\<lparr>base_reserve := base_reserve s - base, quote_reserve := quote_reserve s - quote\<rparr>) (reserves r),
             lp_supplies := AList.update p (lp_supply r p - l) (lp_supplies r)\<rparr>)"

lemma swap_through_pair_step:
  assumes "swap_through_pair t t' amt wanted inc r = Some (Inr out, r')" "amt \<le> bal inc t"
  shows "amm_step u r inc out r'"
proof -
  obtain computed rs where h: "amount_out_for_pair t t' amt (reserves r) (by_pair r) = Some computed"
    "apply_hop (reserves r) (by_pair r) t t' amt (if wanted > 0 then min wanted computed else computed) = Some rs"
    "out = swap_sheet inc t amt t' (if wanted > 0 then min wanted computed else computed)" "r' = r\<lparr>reserves := rs\<rparr>"
    using assms(1) by (simp only: swap_through_pair_def run_iffs Let_def) blast
  show ?thesis unfolding h(3,4) by (rule swap_one [OF h(1) _ h(2) assms(2)]) simp
qed

lemma pool_swap_step:
  assumes "project_pool_swap p ins inc r = Some (Inr out, r')"
  shows "amm_step u r inc out r'"
  using assms by (auto simp: project_pool_swap_def run_iffs Let_def split: if_splits intro: swap_through_pair_step)

lemma add_liquidity_step:
  assumes "project_add_liquidity p ta tb a b inc r = Some (Inr out, r')" "a \<le> bal inc ta" "b \<le> bal inc tb"
  shows "amm_step u r inc out r'"
proof -
  obtain s ra rb l s' where h: "map_of (reserves r) p = Some s" "ordered_reserves s ta tb = Some (ra, rb)"
    "minted_liquidity (lp_supply r p) ra rb a b = Some (Inr l)" "deposited s ta tb a b = Some s'"
    "out = add_to_sheet (fst (remove_from_sheet (fst (remove_from_sheet inc ta a)) tb b)) p l"
    "r' = r\<lparr>reserves := AList.update p s' (reserves r), lp_supplies := AList.update p (saturating_add (lp_supply r p) l) (lp_supplies r)\<rparr>"
    using assms(1) by (auto simp: project_add_liquidity_def apply_reserve_delta_def run_iffs Let_def)
  show ?thesis unfolding h(5,6) by (rule deposit [OF h(1-3) assms(2,3) h(4)])
qed

lemma direct_add_step:
  assumes "project_direct_pool_add_liquidity p inc r = Some (Inr out, r')"
  shows "amm_step u r inc out r'"
  using assms by (auto simp: project_direct_pool_add_liquidity_def run_iffs Let_def intro: add_liquidity_step)

lemma factory_add_step:
  assumes "project_factory_add_liquidity ins inc r = Some (Inr out, r')"
  shows "amm_step u r inc out r'"
  using assms by (auto simp: project_factory_add_liquidity_def run_iffs Let_def intro: add_liquidity_step)

lemma burn_step:
  assumes "project_pool_burn p override min_a min_b inc r = Some (Inr out, r')"
  shows "amm_step u r inc out r'"
proof -
  define l where "l = (case override of Some l \<Rightarrow> l | None \<Rightarrow> bal inc p)"
  obtain s base quote where h: "map_of (reserves r) p = Some s"
    "burned_liquidity_amounts l (base_reserve s) (quote_reserve s) (lp_supply r p) = Some (base, quote)"
    "base \<le> base_reserve s" "quote \<le> quote_reserve s" "l \<le> lp_supply r p" "l \<le> bal inc p"
    "out = add_to_sheet (add_to_sheet (fst (remove_from_sheet inc p l)) (base_id s) base) (quote_id s) quote"
    "r' = r\<lparr>reserves := AList.update p (s\<lparr>base_reserve := base_reserve s - base, quote_reserve := quote_reserve s - quote\<rparr>)
             (AList.update p (s\<lparr>base_reserve := base_reserve s - base\<rparr>) (reserves r)),
           lp_supplies := AList.update p (lp_supply r p - l) (lp_supplies r)\<rparr>"
    using assms by (auto simp: project_pool_burn_def run_iffs Let_def checked_Some l_def [symmetric])
  show ?thesis unfolding h(7,8) update_last by (rule withdraw [OF h(1-6)])
qed

lemma factory_burn_step: "project_factory_burn ins inc r = Some (Inr out, r') \<Longrightarrow> amm_step u r inc out r'"
  by (auto simp: project_factory_burn_def run_iffs Let_def intro: burn_step)

lemma factory_exact_in_step:
  assumes "project_factory_exact_in ins inc implicit r = Some (Inr out, r')"
  shows "amm_step u r inc out r'"
proof -
  obtain path amt rs amount where "path \<noteq> []" "amt \<le> bal inc (hd path)"
    "exact_in_path (by_pair r) path (reserves r) amt = Some (rs, amount)"
    "out = swap_sheet inc (hd path) amt (last path) amount" "r' = r\<lparr>reserves := rs\<rparr>"
    using assms by (cases implicit) (auto simp: project_factory_exact_in_def run_iffs Let_def simp del: last.simps)
  then show ?thesis using swap_in by simp
qed

lemma factory_exact_out_step:
  assumes "project_factory_exact_out ins inc r = Some (Inr out, r')"
  shows "amm_step (route_of ins) r inc out r'"
proof -
  obtain path amounts desired rs c where "parse_path ins 2 = Some (Inr (path, c))" and h: "amounts_for_path (by_pair r) (reserves r) path desired = Some amounts"
    "hd amounts \<le> bal inc (hd path)" "apply_path (by_pair r) path amounts (reserves r) = Some rs"
    "out = swap_sheet inc (hd path) (hd amounts) (last path) desired" "r' = r\<lparr>reserves := rs\<rparr>"
    using assms by (auto simp: project_factory_exact_out_def run_iffs Let_def)
  then have "route_of ins = Some path" "path \<noteq> []" by (auto simp: route_of_def)
  then show ?thesis using h swap_out by simp
qed

lemmas operation_steps = pool_swap_step direct_add_step factory_add_step burn_step factory_burn_step
  factory_exact_in_step factory_exact_out_step

lemma pool_call_step: "project_pool_call p opcode ins inc r = Some (Inr out, r') \<Longrightarrow> amm_step u r inc out r'"
  by (auto simp: project_pool_call_def run_iffs split: if_splits intro: operation_steps pass)

lemma factory_call_step: "project_factory_swap opcode ins inc r = Some (Inr out, r') \<Longrightarrow> amm_step (route_of ins) r inc out r'"
  by (auto simp: project_factory_swap_def run_iffs split: if_splits intro: operation_steps pass)

definition call_route :: "codec \<Rightarrow> call_context \<Rightarrow> alkane_id list option" where
  "call_route X ctx = Option.bind (cellpack_from_protostone X (stone ctx)) (\<lambda>cp. route_of (inputs cp))"

lemma amm_project_step: "amm_project X ctx r = Some (Inr out, r') \<Longrightarrow> amm_step (call_route X ctx) r (incoming ctx) out r'"
  by (auto simp: amm_project_def call_route_def run_iffs split: if_splits intro: pool_call_step factory_call_step)

end
