(* ===== verification/Amm_Accounts.thy ===== *)
theory Amm_Accounts
  imports Amm_Steps
begin

text \<open>
  The accounts of the projected pools: no call creates tokens, and no call lowers what a share of a
  pool is worth.
\<close>

section \<open>Reserves\<close>

definition reserve_of :: "pool_snapshot \<Rightarrow> alkane_id \<Rightarrow> nat" where
  "reserve_of s t = (if base_id s = t then base_reserve s else 0) + (if quote_id s = t then quote_reserve s else 0)"

definition held :: "snapshot \<Rightarrow> alkane_id \<Rightarrow> nat" where
  "held rs t = sum_list (map (\<lambda>(p, s). reserve_of s t) rs)"

definition pools_ok :: "snapshot \<Rightarrow> bool" where
  "pools_ok rs = (distinct (map fst rs) \<and> (\<forall>(p, s)\<in>set rs. base_id s \<noteq> quote_id s))"

lemma held_update:
  assumes "map_of rs p = Some s"
  shows "held (AList.update p s' rs) t + reserve_of s t = held rs t + reserve_of s' t"
  using assms by (induction rs) (auto simp: held_def split: if_splits)

lemma pools_ok_map_of: "pools_ok rs \<Longrightarrow> map_of rs p = Some s \<Longrightarrow> base_id s \<noteq> quote_id s"
  by (auto simp: pools_ok_def dest!: map_of_SomeD)

lemma ordered_reserves_swap:
  assumes "ordered_reserves s t t' = Some (rin, rout)"
  shows "base_id s = t \<and> quote_id s = t' \<and> rin = base_reserve s \<and> rout = quote_reserve s
    \<or> base_id s = t' \<and> quote_id s = t \<and> rin = quote_reserve s \<and> rout = base_reserve s"
  using assms by (auto simp: ordered_reserves_def split: if_splits)

text \<open>A swap of a pool and a deposit, by the direction of the tokens.\<close>

lemma swapped_cases:
  assumes "swapped s t t' amt out = Some s'"
  obtains "t = base_id s" "t' = quote_id s" "out < quote_reserve s"
      "s' = s\<lparr>base_reserve := saturating_add (base_reserve s) amt, quote_reserve := quote_reserve s - out\<rparr>"
  | "t = quote_id s" "t' = base_id s" "base_id s \<noteq> quote_id s" "out < base_reserve s"
      "s' = s\<lparr>quote_reserve := saturating_add (quote_reserve s) amt, base_reserve := base_reserve s - out\<rparr>"
proof (cases "base_id s = t \<and> quote_id s = t'")
  case True
  with assms show ?thesis by (intro that(1)) (simp_all add: swapped_def checked_sub_def split: if_splits)
next
  case False
  then have "(if quote_id s = t \<and> base_id s = t' then
        (if out \<ge> base_reserve s then None
         else Option.bind (checked_sub (base_reserve s) out) (\<lambda>b.
           Some (s\<lparr>quote_reserve := saturating_add (quote_reserve s) amt, base_reserve := b\<rparr>)))
      else None) = Some s'" using assms unfolding swapped_def by (simp only: if_False)
  then show ?thesis using False by (intro that(2)) (simp_all add: checked_sub_def split: if_splits)
qed

lemma swapped_le:
  assumes "swapped s t t' amt out = Some s'"
  shows "reserve_of s' x + (if x = t' then out else 0) \<le> reserve_of s x + (if x = t then amt else 0)"
  using assms saturating_le_exact(1) [of "base_reserve s" amt] saturating_le_exact(1) [of "quote_reserve s" amt]
  by (cases rule: swapped_cases) (simp_all add: reserve_of_def)

lemma deposited_cases:
  assumes "deposited s ta tb a b = Some s'"
  obtains "ta = base_id s" "tb = quote_id s"
      "s' = s\<lparr>base_reserve := saturating_add (base_reserve s) a, quote_reserve := saturating_add (quote_reserve s) b\<rparr>"
  | "ta = quote_id s" "tb = base_id s" "base_id s \<noteq> quote_id s"
      "s' = s\<lparr>base_reserve := saturating_add (base_reserve s) b, quote_reserve := saturating_add (quote_reserve s) a\<rparr>"
proof (cases "base_id s = ta \<and> quote_id s = tb")
  case True
  with assms show ?thesis by (intro that(1)) (simp_all add: deposited_def)
next
  case False
  then have "(if base_id s = tb \<and> quote_id s = ta then
        Some (s\<lparr>base_reserve := saturating_add (base_reserve s) b, quote_reserve := saturating_add (quote_reserve s) a\<rparr>)
      else None) = Some s'" using assms unfolding deposited_def by (simp only: if_False)
  then show ?thesis using False by (intro that(2)) (simp_all split: if_splits)
qed

lemma deposited_le:
  assumes "deposited s ta tb a b = Some s'"
  shows "reserve_of s' x \<le> reserve_of s x + (if x = ta then a else 0) + (if x = tb then b else 0)"
  using assms saturating_le_exact(1) [of "base_reserve s" a] saturating_le_exact(1) [of "quote_reserve s" a]
    saturating_le_exact(1) [of "base_reserve s" b] saturating_le_exact(1) [of "quote_reserve s" b]
  by (cases rule: deposited_cases) (simp_all add: reserve_of_def)

lemma apply_hop_update:
  assumes "apply_hop rs pairs t t' amt out = Some rs'"
  shows "\<exists>p s s'. map_of pairs (t, t') = Some p \<and> map_of rs p = Some s \<and> swapped s t t' amt out = Some s'
    \<and> rs' = AList.update p s' rs \<and> amt \<noteq> 0 \<and> out \<noteq> 0"
  using assms by (auto simp: apply_hop_def bind_eq_Some_conv split: if_splits)

lemma apply_hop_held:
  assumes "apply_hop rs pairs t t' amt out = Some rs'"
  shows "held rs' x + (if x = t' then out else 0) \<le> held rs x + (if x = t then amt else 0)"
proof -
  obtain p s s' where h: "map_of rs p = Some s" "swapped s t t' amt out = Some s'" "rs' = AList.update p s' rs"
    using apply_hop_update [OF assms] by blast
  show ?thesis unfolding h(3) using held_update [OF h(1), of s' x] swapped_le [OF h(2), of x] by linarith
qed

section \<open>Conservation\<close>

lemma exact_in_path_held:
  assumes "exact_in_path pairs path rs amt = Some (rs', out)" "path \<noteq> []"
  shows "held rs' x + (if x = last path then out else 0) \<le> held rs x + (if x = hd path then amt else 0)"
  using assms
proof (induction pairs path rs amt rule: exact_in_path.induct)
  case (1 pairs a b path rs amt)
  obtain rs1 out1 where h: "exact_in_hop rs pairs a b amt = Some (rs1, out1)" "exact_in_path pairs (b # path) rs1 out1 = Some (rs', out)"
    using 1(2) by (auto simp: bind_eq_Some_conv)
  have "apply_hop rs pairs a b amt out1 = Some rs1" using h(1) by (auto simp: exact_in_hop_def bind_eq_Some_conv)
  then show ?case using 1(1) [OF h(1) refl h(2)] apply_hop_held [of rs pairs a b amt out1 rs1 x] by simp
qed auto

lemma amounts_for_path_shape:
  "amounts_for_path pairs rs path desired = Some amounts \<Longrightarrow> length amounts = length path \<and> last amounts = desired"
  by (induction pairs rs path desired arbitrary: amounts rule: amounts_for_path.induct) (auto simp: bind_eq_Some_conv)

lemma apply_path_held:
  assumes "apply_path pairs path amounts rs = Some rs'" "path \<noteq> []" "length amounts = length path"
  shows "held rs' x + (if x = last path then last amounts else 0) \<le> held rs x + (if x = hd path then hd amounts else 0)"
  using assms
proof (induction pairs path amounts rs rule: apply_path.induct)
  case (1 pairs a b path y z amounts rs)
  obtain rs1 where h: "apply_hop rs pairs a b y z = Some rs1" "apply_path pairs (b # path) (z # amounts) rs1 = Some rs'"
    using 1(2) by (auto simp: bind_eq_Some_conv)
  have "length (z # amounts) = length (b # path)" using 1(4) by simp
  note rest = 1(1) [OF h list.distinct(2) this]
  have "last (a # b # path) = last (b # path)" "last (y # z # amounts) = last (z # amounts)" by simp_all
  then show ?case using rest apply_hop_held [OF h(1), of x] by (simp only: list.sel)
qed (auto simp: length_Suc_conv Suc_length_conv)

lemma swap_sheet_bal:
  assumes "amt \<le> bal inc t"
  shows "bal (swap_sheet inc t amt t' out) x + (if x = t then amt else 0) \<le> bal inc x + (if x = t' then out else 0)"
  using assms bal_add_le [of "fst (remove_from_sheet inc t amt)" t' out x]
  by (auto simp: swap_sheet_def remove_from_sheet_bal split: if_splits)

text \<open>
  Tokens held by the caller and by the pools, against the supply of shares: a call does not create any.
  The supply of a pool's shares at \<open>u128::MAX\<close> may have been clipped, so it is excluded.
\<close>

lemma amm_step_conserves:
  assumes "amm_step u r inc out r'" "pools_ok (reserves r)"
    and unclipped: "map_of (reserves r) x \<noteq> None \<Longrightarrow> lp_supply r' x < U128_MAX"
  shows "bal out x + held (reserves r') x + lp_supply r x \<le> bal inc x + held (reserves r) x + lp_supply r' x"
  using assms(1)
proof cases
  case pass
  then show ?thesis by simp
next
  case (swap_one t t' amt computed amount rs)
  then show ?thesis
    using apply_hop_held [OF swap_one(5), of x] swap_sheet_bal [OF swap_one(6), of t' amount x] by (simp add: lp_supply_def)
next
  case (swap_in path amt rs amount)
  then show ?thesis
    using exact_in_path_held [OF swap_in(5,3), of x] swap_sheet_bal [OF swap_in(4), of "last path" amount x] by (simp add: lp_supply_def)
next
  case (swap_out path desired amounts rs)
  have shape: "length amounts = length path" "last amounts = desired" using amounts_for_path_shape [OF swap_out(5)] by auto
  show ?thesis
    using apply_path_held [OF swap_out(7,4) shape(1), of x, unfolded shape(2)]
      swap_sheet_bal [OF swap_out(6), of "last path" desired x] by (simp add: swap_out(1,2) lp_supply_def)
next
  case (deposit p s ta tb ra rb a b l s')
  have "ta \<noteq> tb" using ordered_reserves_swap [OF deposit(4)] pools_ok_map_of [OF assms(2) deposit(3)] by auto
  then have bal: "bal out x + (if x = ta then a else 0) + (if x = tb then b else 0) \<le> bal inc x + (if x = p then l else 0)"
    using bal_add_le [of "fst (remove_from_sheet (fst (remove_from_sheet inc ta a)) tb b)" p l x] deposit(6,7)
    by (auto simp: deposit(1) remove_from_sheet_bal split: if_splits)
  have "saturating_add (lp_supply r p) l < U128_MAX" if "x = p"
    using unclipped that deposit(3) by (simp add: deposit(2) lp_supply_def bal_update)
  then have "lp_supply r' x = lp_supply r x + (if x = p then l else 0)"
    by (cases "x = p") (auto simp: deposit(2) lp_supply_def bal_update saturating_add_def min_def split: if_splits)
  then show ?thesis
    using bal held_update [OF deposit(3), of s' x] deposited_le [OF deposit(8), of x] by (simp add: deposit(2))
next
  case (withdraw p s l base quote)
  let ?s' = "s\<lparr>base_reserve := base_reserve s - base, quote_reserve := quote_reserve s - quote\<rparr>"
  have "reserve_of ?s' x + (if x = base_id s then base else 0) + (if x = quote_id s then quote else 0) = reserve_of s x"
    using withdraw(5,6) by (auto simp: reserve_of_def)
  moreover have "bal out x + (if x = p then l else 0) \<le> bal inc x + (if x = base_id s then base else 0) + (if x = quote_id s then quote else 0)"
    using bal_add_le [of "add_to_sheet (fst (remove_from_sheet inc p l)) (base_id s) base" "quote_id s" quote x]
      bal_add_le [of "fst (remove_from_sheet inc p l)" "base_id s" base x] withdraw(8)
    by (auto simp: withdraw(1) remove_from_sheet_bal split: if_splits)
  moreover have "lp_supply r' x + (if x = p then l else 0) = lp_supply r x"
    using withdraw(7) by (simp add: withdraw(2) lp_supply_def bal_update)
  ultimately show ?thesis using held_update [OF withdraw(3), of ?s' x] by (simp add: withdraw(2))
qed

section \<open>The pools stay well-formed\<close>

lemma pools_ok_update:
  assumes "pools_ok rs" "base_id s \<noteq> quote_id s"
  shows "pools_ok (AList.update p s rs)"
proof -
  have "set (AList.update p s rs) \<subseteq> insert (p, s) (set rs)" by (induction rs) auto
  then show ?thesis using assms by (fastforce simp: pools_ok_def distinct_update)
qed

lemma apply_hop_pools_ok:
  assumes "apply_hop rs pairs t t' amt out = Some rs'" "pools_ok rs"
  shows "pools_ok rs'"
proof -
  obtain p s s' where h: "map_of rs p = Some s" "swapped s t t' amt out = Some s'" "rs' = AList.update p s' rs"
    using apply_hop_update [OF assms(1)] by blast
  have "base_id s' = base_id s \<and> quote_id s' = quote_id s" using h(2) by (cases rule: swapped_cases) simp_all
  then show ?thesis using pools_ok_update [OF assms(2)] pools_ok_map_of [OF assms(2) h(1)] h(3) by simp
qed

lemma exact_in_path_pools_ok: "exact_in_path pairs path rs amt = Some (rs', out) \<Longrightarrow> pools_ok rs \<Longrightarrow> pools_ok rs'"
proof (induction pairs path rs amt rule: exact_in_path.induct)
  case (1 pairs a b path rs amt)
  obtain rs1 out1 where h: "exact_in_hop rs pairs a b amt = Some (rs1, out1)" "exact_in_path pairs (b # path) rs1 out1 = Some (rs', out)"
    using 1(2) by (auto simp: bind_eq_Some_conv)
  have "apply_hop rs pairs a b amt out1 = Some rs1" using h(1) by (auto simp: exact_in_hop_def bind_eq_Some_conv)
  then show ?case using 1(1) [OF h(1) refl h(2)] apply_hop_pools_ok 1(3) by blast
qed auto

lemma apply_path_pools_ok: "apply_path pairs path amounts rs = Some rs' \<Longrightarrow> pools_ok rs \<Longrightarrow> pools_ok rs'"
proof (induction pairs path amounts rs rule: apply_path.induct)
  case (1 pairs a b path y z amounts rs)
  obtain rs1 where h: "apply_hop rs pairs a b y z = Some rs1" "apply_path pairs (b # path) (z # amounts) rs1 = Some rs'"
    using 1(2) by (auto simp: bind_eq_Some_conv)
  then show ?case using 1(1) [OF h] apply_hop_pools_ok [OF h(1) 1(3)] by blast
qed auto

lemma amm_step_pools_ok:
  assumes "amm_step u r inc out r'" "pools_ok (reserves r)"
  shows "pools_ok (reserves r')"
  using assms(1)
proof cases
  case (deposit p s ta tb ra rb a b l s')
  have "base_id s' = base_id s \<and> quote_id s' = quote_id s" using deposit(8) by (cases rule: deposited_cases) simp_all
  then show ?thesis using pools_ok_update [OF assms(2)] pools_ok_map_of [OF assms(2) deposit(3)] by (simp add: deposit(2))
next
  case (withdraw p s l base quote)
  then show ?thesis using pools_ok_update [OF assms(2)] pools_ok_map_of [OF assms(2) withdraw(3)] by simp
qed (use assms(2) apply_hop_pools_ok exact_in_path_pools_ok apply_path_pools_ok in \<open>simp_all\<close>)

text \<open>A call neither creates nor drops a pool, and it changes no supply but a pool's.\<close>

lemma apply_hop_dom:
  assumes "apply_hop rs pairs t t' amt out = Some rs'"
  shows "dom (map_of rs') = dom (map_of rs)"
proof -
  obtain p s s' where "map_of rs p = Some s" "rs' = AList.update p s' rs" using apply_hop_update [OF assms] by blast
  then show ?thesis by (auto simp: update_conv' split: if_splits)
qed

lemma exact_in_path_dom: "exact_in_path pairs path rs amt = Some (rs', out) \<Longrightarrow> dom (map_of rs') = dom (map_of rs)"
proof (induction pairs path rs amt rule: exact_in_path.induct)
  case (1 pairs a b path rs amt)
  obtain rs1 out1 where h: "exact_in_hop rs pairs a b amt = Some (rs1, out1)" "exact_in_path pairs (b # path) rs1 out1 = Some (rs', out)"
    using 1(2) by (auto simp: bind_eq_Some_conv)
  have "apply_hop rs pairs a b amt out1 = Some rs1" using h(1) by (auto simp: exact_in_hop_def bind_eq_Some_conv)
  then show ?case using 1(1) [OF h(1) refl h(2)] apply_hop_dom by blast
qed auto

lemma apply_path_dom: "apply_path pairs path amounts rs = Some rs' \<Longrightarrow> dom (map_of rs') = dom (map_of rs)"
proof (induction pairs path amounts rs rule: apply_path.induct)
  case (1 pairs a b path y z amounts rs)
  obtain rs1 where h: "apply_hop rs pairs a b y z = Some rs1" "apply_path pairs (b # path) (z # amounts) rs1 = Some rs'"
    using 1(2) by (auto simp: bind_eq_Some_conv)
  then show ?case using 1(1) [OF h] apply_hop_dom [OF h(1)] by simp
qed auto

lemma amm_step_dom:
  assumes "amm_step u r inc out r'"
  shows "dom (map_of (reserves r')) = dom (map_of (reserves r))
    \<and> (\<forall>x. map_of (reserves r) x = None \<longrightarrow> lp_supply r' x = lp_supply r x)"
  using assms
proof cases
  case (deposit p s ta tb ra rb a b l s')
  then show ?thesis by (auto simp: update_conv' lp_supply_def bal_update)
next
  case (withdraw p s l base quote)
  then show ?thesis by (auto simp: update_conv' lp_supply_def bal_update)
qed (simp_all add: lp_supply_def apply_hop_dom exact_in_path_dom apply_path_dom)

end
