(* ===== verification/Amm_Shares.thy ===== *)
theory Amm_Shares
  imports Amm_Accounts
begin

text \<open>
  The value of a pool share under projected calls, measured by the product of the reserves over the
  square of the supply, and the arithmetic behind it.
\<close>

section \<open>Prices\<close>

lemma fair_iff:
  fixes out rin :: nat
  assumes "out \<le> rout"
  shows "rin * rout \<le> (rin + amt) * (rout - out) \<longleftrightarrow> out * rin \<le> amt * (rout - out)"
proof -
  have "rin * rout = rin * (rout - out) + out * rin"
    using assms by (simp add: mult.commute [of out] distrib_left [symmetric])
  then show ?thesis by (simp add: distrib_right)
qed

lemma get_amount_out_fair:
  assumes "get_amount_out amt rin rout = Some computed" "out \<le> computed"
  shows "rin * rout \<le> (rin + amt) * (rout - out)" "rin + amt \<le> U128_MAX"
proof -
  have c: "amt * 990 * rout div (rin * 1000 + amt * 990) = computed" "computed < rout" "rin * 1000 + amt * 990 \<le> U128_MAX"
    using assms(1) by (auto simp: get_amount_out_def FEE_DENOMINATOR_def DEFAULT_TOTAL_FEE_PER_1000_def checked_Some
        bind_eq_Some_conv Let_def split: if_splits)
  show "rin + amt \<le> U128_MAX" using c(3) by linarith
  have "out * (rin * 1000 + amt * 990) \<le> computed * (rin * 1000 + amt * 990)" using assms(2) by simp
  also have "\<dots> \<le> amt * 990 * rout" unfolding c(1) [symmetric] by (rule div_times_less_eq_dividend)
  finally have "out * rin * 1000 + out * amt * 990 \<le> amt * rout * 990" by (simp add: algebra_simps)
  moreover have "out * amt \<le> amt * rout" using c(2) assms(2) by simp
  ultimately have "out * rin + out * amt \<le> amt * rout" by linarith
  moreover have "amt * (rout - out) + out * amt = amt * rout"
    using c(2) assms(2) by (simp add: mult.commute [of out] distrib_left [symmetric])
  ultimately have "out * rin \<le> amt * (rout - out)" by linarith
  then show "rin * rout \<le> (rin + amt) * (rout - out)" using fair_iff c(2) assms(2) by simp
qed

lemma get_amount_in_fair:
  assumes "get_amount_in out rin rout = Some amt"
  shows "rin * rout \<le> (rin + amt) * (rout - out)" "rin + amt \<le> U128_MAX"
proof -
  have c: "amt = rin * out * 1000 div ((rout - out) * 990) + 1" "0 < out" "out < rout" "rin * out * 1000 \<le> U128_MAX"
    using assms by (auto simp: get_amount_in_def FEE_DENOMINATOR_def DEFAULT_TOTAL_FEE_PER_1000_def checked_Some
        bind_eq_Some_conv mult.commute [of out rin] split: if_splits)
  have "rin * out * 1000 \<le> amt * ((rout - out) * 990)"
    using c(1,3) dividend_less_div_times [of "(rout - out) * 990" "rin * out * 1000"] by simp
  then have "out * rin \<le> amt * (rout - out)" by (simp add: algebra_simps)
  then show "rin * rout \<le> (rin + amt) * (rout - out)"
    using fair_iff c(3) by simp
  define n where "n = rin * out"
  have "n * 1000 div ((rout - out) * 990) \<le> n * 1000 div 990"
    using c(3) by (intro div_le_mono2) simp_all
  moreover have "rin \<le> n" using c(2) by (simp add: n_def)
  moreover have "n * 1000 div 990 \<le> 2 * n" by linarith
  ultimately have "rin + amt \<le> 3 * n + 1" using c(1) by (simp only: n_def [symmetric])
  also have "\<dots> \<le> U128_MAX" using c(4) unfolding n_def [symmetric] by (simp add: U128_MAX_def)
  finally show "rin + amt \<le> U128_MAX" .
qed

section \<open>Products of reserves\<close>

definition product :: "pool_snapshot \<Rightarrow> nat" where
  "product s = base_reserve s * quote_reserve s"

definition same_tokens :: "pool_snapshot \<Rightarrow> pool_snapshot \<Rightarrow> bool" where
  "same_tokens s s' = (base_id s' = base_id s \<and> quote_id s' = quote_id s)"

definition products_grow :: "snapshot \<Rightarrow> snapshot \<Rightarrow> bool" where
  "products_grow rs rs' = (\<forall>p s. map_of rs p = Some s \<longrightarrow>
     (\<exists>s'. map_of rs' p = Some s' \<and> same_tokens s s' \<and> product s \<le> product s'))"

lemma products_grow_refl: "products_grow rs rs"
  by (simp add: products_grow_def same_tokens_def)

lemma products_grow_trans:
  assumes "products_grow rs rs1" "products_grow rs1 rs2"
  shows "products_grow rs rs2"
  unfolding products_grow_def
proof (intro allI impI)
  fix p s assume "map_of rs p = Some s"
  then obtain s1 where 1: "map_of rs1 p = Some s1" "same_tokens s s1" "product s \<le> product s1"
    using assms(1) by (auto simp: products_grow_def)
  then obtain s2 where "map_of rs2 p = Some s2" "same_tokens s1 s2" "product s1 \<le> product s2"
    using assms(2) by (auto simp: products_grow_def)
  with 1 show "\<exists>s2. map_of rs2 p = Some s2 \<and> same_tokens s s2 \<and> product s \<le> product s2"
    by (auto simp: same_tokens_def)
qed

lemma products_grow_update:
  "map_of rs p = Some s \<Longrightarrow> same_tokens s s' \<Longrightarrow> product s \<le> product s' \<Longrightarrow> products_grow rs (AList.update p s' rs)"
  by (auto simp: products_grow_def update_conv' same_tokens_def)

lemma swapped_product:
  assumes "swapped s t t' amt out = Some s'" "ordered_reserves s t t' = Some (rin, rout)"
    and "rin * rout \<le> (rin + amt) * (rout - out)" "rin + amt \<le> U128_MAX"
  shows "same_tokens s s' \<and> product s \<le> product s'"
  using assms(1)
proof (cases rule: swapped_cases)
  case 1
  then show ?thesis using assms(2-4) by (simp add: ordered_reserves_def product_def same_tokens_def saturating_exact)
next
  case 2
  then show ?thesis using assms(2-4) by (simp add: ordered_reserves_def product_def same_tokens_def saturating_exact mult.commute)
qed

lemma apply_hop_product:
  assumes "apply_hop rs pairs t t' amt out = Some rs'" "map_of pairs (t, t') = Some p" "map_of rs p = Some s"
    and "ordered_reserves s t t' = Some (rin, rout)" "rin * rout \<le> (rin + amt) * (rout - out)" "rin + amt \<le> U128_MAX"
  shows "products_grow rs rs' \<and> (\<forall>x. x \<noteq> p \<longrightarrow> map_of rs' x = map_of rs x)"
proof -
  obtain s' where s': "swapped s t t' amt out = Some s'" "rs' = AList.update p s' rs"
    using apply_hop_update [OF assms(1)] assms(2,3) by auto
  show ?thesis
    using swapped_product [OF s'(1) assms(4-6)] products_grow_update [OF assms(3)] by (simp add: s'(2) update_conv')
qed

lemma exact_in_path_products:
  "exact_in_path pairs path rs amt = Some (rs', out) \<Longrightarrow> products_grow rs rs'"
proof (induction pairs path rs amt rule: exact_in_path.induct)
  case (1 pairs a b path rs amt)
  obtain rs1 out1 where h: "exact_in_hop rs pairs a b amt = Some (rs1, out1)" "exact_in_path pairs (b # path) rs1 out1 = Some (rs', out)"
    using 1(2) by (auto simp: bind_eq_Some_conv)
  obtain p s rin rout where q: "map_of pairs (a, b) = Some p" "map_of rs p = Some s" "ordered_reserves s a b = Some (rin, rout)"
    "get_amount_out amt rin rout = Some out1" "apply_hop rs pairs a b amt out1 = Some rs1"
    using h(1) by (auto simp: exact_in_hop_def amount_out_for_pair_def bind_eq_Some_conv)
  have "products_grow rs rs1"
    using apply_hop_product [OF q(5,1,2,3) get_amount_out_fair [OF q(4) order_refl]] by simp
  then show ?case using products_grow_trans 1(1) [OF h(1) refl h(2)] by blast
qed (auto simp: products_grow_refl)

text \<open>Exact outputs are priced on the reserves before the call, so no pool may be used twice.\<close>

definition hop_pools :: "pair_map \<Rightarrow> alkane_id list \<Rightarrow> alkane_id option list" where
  "hop_pools pairs path = map (map_of pairs) (zip path (tl path))"

lemma apply_path_products:
  assumes "amounts_for_path pairs rs path desired = Some amounts" "apply_path pairs path amounts rs0 = Some rs'"
    and "distinct (hop_pools pairs path)" "\<forall>p. Some p \<in> set (hop_pools pairs path) \<longrightarrow> map_of rs0 p = map_of rs p"
  shows "products_grow rs0 rs'"
  using assms
proof (induction pairs rs path desired arbitrary: amounts rs0 rule: amounts_for_path.induct)
  case (1 pairs rs a b path desired)
  obtain rest x where r: "amounts_for_path pairs rs (b # path) desired = Some rest"
    "amount_in_for_pair a b (hd rest) rs pairs = Some x" "amounts = x # rest"
    using 1(2) by (auto simp: bind_eq_Some_conv)
  obtain y ys where rest: "rest = y # ys" using amounts_for_path_shape [OF r(1)] by (cases rest) auto
  obtain rs1 where h: "apply_hop rs0 pairs a b x y = Some rs1" "apply_path pairs (b # path) rest rs1 = Some rs'"
    using 1(3) r(3) rest by (auto simp: bind_eq_Some_conv)
  obtain p s rin rout where q: "map_of pairs (a, b) = Some p" "map_of rs p = Some s" "ordered_reserves s a b = Some (rin, rout)"
    "get_amount_in y rin rout = Some x"
    using r(2) rest by (auto simp: amount_in_for_pair_def bind_eq_Some_conv)
  have "map_of rs0 p = Some s" using 1(5) q(1,2) by (simp add: hop_pools_def)
  note hop = apply_hop_product [OF h(1) q(1) this q(3) get_amount_in_fair [OF q(4)]]
  have hp: "hop_pools pairs (a # b # path) = Some p # hop_pools pairs (b # path)" by (simp add: hop_pools_def q(1))
  have d: "distinct (hop_pools pairs (b # path))" "Some p \<notin> set (hop_pools pairs (b # path))" using 1(4) hp by simp_all
  have "\<forall>x. Some x \<in> set (hop_pools pairs (b # path)) \<longrightarrow> map_of rs1 x = map_of rs x"
    using 1(5) hop d(2) unfolding hp by (metis list.set_intros(2))
  from 1(1) [OF r(1) h(2) d(1) this] hop show ?case using products_grow_trans by blast
qed (auto simp: products_grow_refl)

section \<open>Shares\<close>

text \<open>The product per square of the supply does not fall, for a pool that has shares.\<close>

definition share_keeps_value :: "amm_rule \<Rightarrow> amm_rule \<Rightarrow> alkane_id \<Rightarrow> bool" where
  "share_keeps_value r r' p = (\<forall>s. map_of (reserves r) p = Some s \<longrightarrow> 0 < lp_supply r p \<longrightarrow>
     (\<exists>s'. map_of (reserves r') p = Some s' \<and> same_tokens s s'
       \<and> product s * (lp_supply r' p)\<^sup>2 \<le> product s' * (lp_supply r p)\<^sup>2))"

lemma products_grow_shares:
  assumes "products_grow (reserves r) rs" "r' = r\<lparr>reserves := rs\<rparr>"
  shows "share_keeps_value r r' p"
proof -
  have "lp_supply r' p = lp_supply r p" "reserves r' = rs" by (simp_all add: assms(2) lp_supply_def)
  then show ?thesis using assms(1) unfolding share_keeps_value_def products_grow_def by (auto intro!: mult_right_mono)
qed

lemma reserve_le_held: "map_of rs p = Some s \<Longrightarrow> reserve_of s t \<le> held rs t"
proof (induction rs)
  case (Cons e rs)
  then show ?case by (cases e) (auto simp: held_def split: if_splits)
qed simp

lemma proportional_product:
  fixes a b :: nat
  assumes "a * n' \<le> a' * n" "b * n' \<le> b' * n"
  shows "a * b * n'\<^sup>2 \<le> a' * b' * n\<^sup>2"
  using mult_le_mono [OF assms] by (simp add: power2_eq_square algebra_simps)

lemma deposited_product:
  assumes "deposited s ta tb a b = Some s'" "ordered_reserves s ta tb = Some (ra, rb)" "ra + a \<le> U128_MAX" "rb + b \<le> U128_MAX"
  shows "same_tokens s s' \<and> product s = ra * rb \<and> product s' = (ra + a) * (rb + b)"
  using assms(1)
proof (cases rule: deposited_cases)
  case 1
  then show ?thesis using assms(2-4) by (simp add: ordered_reserves_def same_tokens_def product_def saturating_exact)
next
  case 2
  then show ?thesis using assms(2-4) by (simp add: ordered_reserves_def same_tokens_def product_def saturating_exact mult.commute)
qed

lemma minted_proportional:
  assumes "minted_liquidity n ra rb a b = Some (Inr l)" "0 < n"
  shows "ra * (n + l) \<le> (ra + a) * n" "rb * (n + l) \<le> (rb + b) * n"
proof -
  have l: "l \<le> a * n div ra" "l \<le> b * n div rb"
    using assms by (auto simp: minted_liquidity_def checked_Some bind_eq_Some_conv split: if_splits option.splits)
  have "l * ra \<le> a * n" "l * rb \<le> b * n"
    using mult_le_mono1 [OF l(1), of ra] mult_le_mono1 [OF l(2), of rb] div_times_less_eq_dividend [of "a * n" ra]
      div_times_less_eq_dividend [of "b * n" rb] by linarith+
  then show "ra * (n + l) \<le> (ra + a) * n" "rb * (n + l) \<le> (rb + b) * n" by (simp_all add: algebra_simps)
qed

lemma burned_proportional:
  assumes "burned_liquidity_amounts l ra rb n = Some (a, b)"
  shows "ra * (n - l) \<le> (ra - a) * n" "rb * (n - l) \<le> (rb - b) * n"
proof -
  have e: "a = l * ra div n" "b = l * rb div n"
    using assms by (auto simp: burned_liquidity_amounts_def checked_Some bind_eq_Some_conv split: if_splits option.splits)
  have "a * n \<le> l * ra" "b * n \<le> l * rb" unfolding e by (rule div_times_less_eq_dividend)+
  then show "ra * (n - l) \<le> (ra - a) * n" "rb * (n - l) \<le> (rb - b) * n"
    by (simp_all add: diff_mult_distrib diff_mult_distrib2 mult.commute [of l] diff_le_mono2)
qed

lemma amm_step_shares:
  assumes step: "amm_step u r inc out r'" and ok: "pools_ok (reserves r)"
    and range: "\<forall>t. bal inc t + held (reserves r) t \<le> U128_MAX"
    and once: "\<And>path. u = Some path \<Longrightarrow> distinct (hop_pools (by_pair r) path)"
  shows "share_keeps_value r r' p"
  using step
proof cases
  case pass
  then show ?thesis using products_grow_shares [OF products_grow_refl, of r r p] by simp
next
  case (swap_one t t' amt computed amount rs)
  obtain q s rin rout where h: "map_of (by_pair r) (t, t') = Some q" "map_of (reserves r) q = Some s"
    "ordered_reserves s t t' = Some (rin, rout)" "get_amount_out amt rin rout = Some computed"
    using swap_one(3) by (auto simp: amount_out_for_pair_def bind_eq_Some_conv)
  show ?thesis
    using apply_hop_product [OF swap_one(5) h(1-3) get_amount_out_fair [OF h(4) swap_one(4)]] products_grow_shares swap_one(2) by blast
next
  case (swap_in path amt rs amount)
  then show ?thesis using exact_in_path_products products_grow_shares by blast
next
  case (swap_out path desired amounts rs)
  then show ?thesis using apply_path_products [OF swap_out(5,7) once [OF swap_out(3)]] products_grow_shares by blast
next
  case (deposit q s ta tb ra rb a b l s')
  show ?thesis
  proof (cases "p = q")
    case True
    have "ra + a \<le> U128_MAX \<and> rb + b \<le> U128_MAX"
      using spec [OF range, of ta] spec [OF range, of tb] deposit(6,7) reserve_le_held [OF deposit(3), of ta]
        reserve_le_held [OF deposit(3), of tb] ordered_reserves_swap [OF deposit(4)] by (auto simp: reserve_of_def split: if_splits)
    then have s': "same_tokens s s' \<and> product s = ra * rb \<and> product s' = (ra + a) * (rb + b)"
      using deposited_product [OF deposit(8,4)] by blast
    have "lp_supply r' p \<le> lp_supply r q + l"
      using True by (simp add: deposit(2) lp_supply_def bal_update saturating_le_exact)
    then have "ra * lp_supply r' p \<le> (ra + a) * lp_supply r q \<and> rb * lp_supply r' p \<le> (rb + b) * lp_supply r q" if "0 < lp_supply r q"
      using minted_proportional [OF deposit(5) that] order_trans [OF mult_le_mono2] by blast
    then show ?thesis
      using True s' deposit(3) proportional_product [of ra "lp_supply r' p" "ra + a" "lp_supply r q" rb "rb + b"]
      by (simp add: share_keeps_value_def deposit(2) update_conv')
  next
    case False
    then show ?thesis by (simp add: share_keeps_value_def deposit(2) update_conv' lp_supply_def bal_update same_tokens_def)
  qed
next
  case (withdraw q s l base quote)
  show ?thesis
  proof (cases "p = q")
    case True
    have "lp_supply r' p = lp_supply r q - l" using True by (simp add: withdraw(2) lp_supply_def bal_update)
    then show ?thesis
      using True withdraw(3) proportional_product [OF burned_proportional [OF withdraw(4)]]
      by (simp add: share_keeps_value_def withdraw(2) update_conv' same_tokens_def product_def)
  next
    case False
    then show ?thesis by (simp add: share_keeps_value_def withdraw(2) update_conv' lp_supply_def bal_update same_tokens_def)
  qed
qed

end
