(* ===== verification/Amm_Errors.thy ===== *)
theory Amm_Errors
  imports Amm_Shares
begin

text \<open>
  Where a projected AMM call panics or fails: the square root of a first deposit, the length of a path,
  and what a failed call leaves behind.
\<close>

section \<open>The square root\<close>

lemma newton_above:
  fixes n x :: nat
  assumes "0 < x"
  shows "n < ((x + n div x) div 2 + 1)\<^sup>2"
proof -
  define k where "k = (x + n div x) div 2 + 1"
  have "m < 2 * (m div 2 + 1)" for m :: nat by presburger
  then have k: "x + n div x < 2 * k" unfolding k_def .
  have "n < x * (n div x + 1)" using dividend_less_times_div [OF assms, of n] by simp
  also have "\<dots> \<le> x * (2 * k - x)" using k by (intro mult_le_mono2) linarith
  also have "\<dots> \<le> k\<^sup>2"
  proof -
    have "int x * (2 * int k - int x) \<le> (int k)\<^sup>2"
      using zero_le_power2 [of "int k - int x"] by (simp add: power2_eq_square algebra_simps)
    moreover have "int (x * (2 * k - x)) = int x * (2 * int k - int x)" using k by (simp add: of_nat_diff)
    ultimately show ?thesis by (metis of_nat_le_iff of_nat_power)
  qed
  finally show ?thesis unfolding k_def .
qed

lemma sqrt_loop_floor:
  "2 \<le> n \<Longrightarrow> 0 < x \<Longrightarrow> y = (x + n div x) div 2 \<Longrightarrow> n < (x + 1)\<^sup>2
    \<Longrightarrow> \<exists>root. sqrt_loop n x y = Some root \<and> root\<^sup>2 \<le> n \<and> n < (root + 1)\<^sup>2"
proof (induction n x y rule: sqrt_loop.induct)
  case (1 n x y)
  show ?case
  proof (cases "y < x")
    case True
    have "y \<noteq> 0"
    proof
      assume "y = 0"
      then have "x = 1" "n div x = 0" using 1(3,4) by auto
      then show False using 1(2) by simp
    qed
    moreover have "n < (y + 1)\<^sup>2" using newton_above [OF 1(3), of n] 1(4) by simp
    ultimately show ?thesis using 1(1) [OF True _ 1(2) _ refl] True by (simp add: sqrt_loop.simps [of n x y])
  next
    case False
    then have "x \<le> n div x" using 1(4) by linarith
    then have "x * x \<le> n" using div_times_less_eq_dividend [of n x] mult_le_mono1 [of x "n div x" x] by linarith
    then show ?thesis using False 1(5) by (simp add: sqrt_loop.simps [of n x y] power2_eq_square)
  qed
qed

lemma integer_sqrt_floor:
  assumes "n < U128_MAX"
  shows "\<exists>root. integer_sqrt n = Some root \<and> root\<^sup>2 \<le> n \<and> n < (root + 1)\<^sup>2"
proof (cases "n < 2")
  case True
  then have "n = 0 \<or> n = 1" by auto
  then show ?thesis by (auto simp: integer_sqrt_def power2_eq_square)
next
  case False
  have "(n + 1) mod 2 ^ 128 = n + 1" using assms by (simp add: U128_MAX_def)
  then have "integer_sqrt n = sqrt_loop n n ((n + n div n) div 2)" using False by (simp add: integer_sqrt_def)
  moreover have "n < (n + 1)\<^sup>2" by (simp add: power2_eq_square)
  ultimately show ?thesis using sqrt_loop_floor [of n n "(n + n div n) div 2"] False by simp
qed

lemma integer_sqrt_overflow: "integer_sqrt U128_MAX = None"
  by (simp add: integer_sqrt_def U128_MAX_def sqrt_loop.simps)

section \<open>Panics\<close>

text \<open>A path length that \<open>usize\<close> holds but for which no vector can be allocated.\<close>

definition huge_path :: "u128 list \<Rightarrow> bool" where
  "huge_path ins = (case get_at ins 1 of Some len \<Rightarrow> 2 ^ 59 \<le> len \<and> len < 2 ^ 64 | None \<Rightarrow> False)"

lemma parse_path_panics: "m \<le> 2 \<Longrightarrow> parse_path ins m = None \<longleftrightarrow> huge_path ins"
  by (auto simp: parse_path_def huge_path_def as_usize_def split: option.splits)

lemma exact_in_panics: "project_factory_exact_in ins inc implicit r = None \<longleftrightarrow> huge_path ins"
  by (auto simp: project_factory_exact_in_def run_iffs Let_def parse_path_panics)

lemma exact_out_panics: "project_factory_exact_out ins inc r = None \<longleftrightarrow> huge_path ins"
  by (auto simp: project_factory_exact_out_def run_iffs Let_def parse_path_panics)

section \<open>Failures\<close>

lemma swap_through_pair_fails: "swap_through_pair t t' amt wanted inc r = Some (Inl (), r') \<Longrightarrow> r' = r"
  by (auto simp: swap_through_pair_def run_iffs Let_def)

lemma pool_swap_fails: "project_pool_swap p ins inc r = Some (Inl (), r') \<Longrightarrow> r' = r"
  by (auto simp: project_pool_swap_def run_iffs Let_def split: if_splits dest: swap_through_pair_fails)

lemma add_liquidity_fails: "project_add_liquidity p ta tb a b inc r = Some (Inl (), r') \<Longrightarrow> r' = r"
  by (auto simp: project_add_liquidity_def apply_reserve_delta_def run_iffs Let_def)

lemma direct_add_fails: "project_direct_pool_add_liquidity p inc r = Some (Inl (), r') \<Longrightarrow> r' = r"
  by (auto simp: project_direct_pool_add_liquidity_def run_iffs Let_def dest: add_liquidity_fails)

lemma factory_add_fails: "project_factory_add_liquidity ins inc r = Some (Inl (), r') \<Longrightarrow> r' = r"
  by (auto simp: project_factory_add_liquidity_def run_iffs Let_def dest: add_liquidity_fails)

lemma exact_in_fails: "project_factory_exact_in ins inc implicit r = Some (Inl (), r') \<Longrightarrow> r' = r"
  by (cases implicit) (auto simp: project_factory_exact_in_def run_iffs Let_def)

lemma exact_out_fails: "project_factory_exact_out ins inc r = Some (Inl (), r') \<Longrightarrow> r' = r"
  by (auto simp: project_factory_exact_out_def run_iffs Let_def)

text \<open>A withdrawal of no more than the recorded supply takes no more than the reserves.\<close>

lemma burned_within:
  assumes "burned_liquidity_amounts l ra rb n = Some (a, b)" "l \<le> n"
  shows "a \<le> ra \<and> b \<le> rb"
proof -
  have e: "a = l * ra div n" "b = l * rb div n" "0 < n"
    using assms(1) by (auto simp: burned_liquidity_amounts_def checked_Some bind_eq_Some_conv split: if_splits option.splits)
  have "l * ra div n \<le> n * ra div n" "l * rb div n \<le> n * rb div n"
    by (intro div_le_mono mult_le_mono1 assms(2))+
  then show ?thesis using e by simp
qed

lemma burn_fails:
  assumes "project_pool_burn p override min_a min_b inc r = Some (Inl (), r')"
    and "map_of (reserves r) p \<noteq> None \<Longrightarrow> bal inc p \<le> lp_supply r p"
  shows "r' = r"
proof (cases "map_of (reserves r) p")
  case None
  then show ?thesis using assms(1) by (auto simp: project_pool_burn_def run_iffs Let_def)
next
  case (Some s0)
  define l where "l = (case override of Some l \<Rightarrow> l | None \<Rightarrow> bal inc p)"
  have "\<not> (a \<le> base_reserve s \<and> b \<le> quote_reserve s \<and> l \<le> lp_supply r p) \<Longrightarrow> \<not> l \<le> bal inc p"
    if "burned_liquidity_amounts l (base_reserve s) (quote_reserve s) (lp_supply r p) = Some (a, b)" for s a b
    using burned_within [OF that] assms(2) Some by auto
  then show ?thesis
    using assms(1) by (auto simp: project_pool_burn_def run_iffs Let_def checked_sub_def l_def [symmetric] split: if_splits)
qed

lemma factory_burn_fails:
  assumes "project_factory_burn ins inc r = Some (Inl (), r')" "\<forall>p. map_of (reserves r) p \<noteq> None \<longrightarrow> bal inc p \<le> lp_supply r p"
  shows "r' = r"
  using assms by (auto simp: project_factory_burn_def run_iffs Let_def dest: burn_fails)

text \<open>A withdrawal that fails late may already have lowered the reserves; it changes nothing else.\<close>

lemma burn_fails_lowers:
  assumes "project_pool_burn p override min_a min_b inc r = Some (Inl (), r')"
  shows "lp_supplies r' = lp_supplies r \<and> (reserves r' = reserves r \<or> (\<exists>s b q. map_of (reserves r) p = Some s
    \<and> b \<le> base_reserve s \<and> q \<le> quote_reserve s \<and> reserves r' = AList.update p (s\<lparr>base_reserve := b, quote_reserve := q\<rparr>) (reserves r)))"
proof -
  define l where "l = (case override of Some l \<Rightarrow> l | None \<Rightarrow> bal inc p)"
  consider "r' = r"
    | s a where "map_of (reserves r) p = Some s" "r' = r\<lparr>reserves := AList.update p (s\<lparr>base_reserve := base_reserve s - a\<rparr>) (reserves r)\<rparr>"
    | s a b where "map_of (reserves r) p = Some s" "r' = r\<lparr>reserves := AList.update p
          (s\<lparr>base_reserve := base_reserve s - a, quote_reserve := quote_reserve s - b\<rparr>) (reserves r)\<rparr>"
    using assms by (auto simp: project_pool_burn_def run_iffs Let_def checked_sub_def l_def [symmetric] split: if_splits)
  then show ?thesis
  proof cases
    case (2 s a)
    then show ?thesis by (intro conjI disjI2 exI [of _ s] exI [of _ "base_reserve s - a"] exI [of _ "quote_reserve s"]) simp_all
  next
    case (3 s a b)
    then show ?thesis by (intro conjI disjI2 exI [of _ s] exI [of _ "base_reserve s - a"] exI [of _ "quote_reserve s - b"]) simp_all
  qed simp
qed

definition only_lowers :: "amm_rule \<Rightarrow> amm_rule \<Rightarrow> bool" where
  "only_lowers r r' = (lp_supplies r' = lp_supplies r \<and> dom (map_of (reserves r')) = dom (map_of (reserves r)) \<and> (pools_ok (reserves r) \<longrightarrow> pools_ok (reserves r'))
     \<and> (\<forall>x. held (reserves r') x \<le> held (reserves r) x))"

lemma burn_only_lowers:
  assumes "project_pool_burn p override min_a min_b inc r = Some (Inl (), r')"
  shows "only_lowers r r'"
proof -
  have "only_lowers r r'" if h: "map_of (reserves r) p = Some s" "b \<le> base_reserve s" "q \<le> quote_reserve s"
    "reserves r' = AList.update p (s\<lparr>base_reserve := b, quote_reserve := q\<rparr>) (reserves r)" "lp_supplies r' = lp_supplies r" for s b q
  proof -
    have "reserve_of (s\<lparr>base_reserve := b, quote_reserve := q\<rparr>) x \<le> reserve_of s x" for x using h(2,3) by (simp add: reserve_of_def)
    then have "held (reserves r') x \<le> held (reserves r) x" for x
      using held_update [OF h(1), of "s\<lparr>base_reserve := b, quote_reserve := q\<rparr>" x] unfolding h(4)
      by (metis add_le_cancel_right add_left_mono)
    moreover have "dom (map_of (reserves r')) = dom (map_of (reserves r))" using h(1) by (auto simp: h(4) update_conv' split: if_splits)
    ultimately show ?thesis using h(4,5) pools_ok_update pools_ok_map_of [OF _ h(1)] by (simp add: only_lowers_def)
  qed
  moreover have "only_lowers r r'" if "reserves r' = reserves r" "lp_supplies r' = lp_supplies r" using that by (simp add: only_lowers_def)
  ultimately show ?thesis using burn_fails_lowers [OF assms] by blast
qed

lemma only_lowers_refl: "only_lowers r r"
  by (simp add: only_lowers_def)

lemma amm_project_only_lowers:
  assumes "amm_project X ctx r = Some (Inl (), r')"
  shows "only_lowers r r'"
proof -
  have "only_lowers r r'" if "project_pool_call p opcode ins inc r = Some (Inl (), r')" for p opcode ins inc
    using that by (auto simp: project_pool_call_def run_iffs only_lowers_refl split: if_splits
        dest: burn_only_lowers pool_swap_fails direct_add_fails)
  moreover have "only_lowers r r'" if "project_factory_swap opcode ins inc r = Some (Inl (), r')" for opcode ins inc
    using that by (auto simp: project_factory_swap_def project_factory_burn_def Let_def run_iffs only_lowers_refl split: if_splits
        dest: burn_only_lowers factory_add_fails exact_in_fails exact_out_fails)
  ultimately show ?thesis
    using assms by (auto simp: amm_project_def run_iffs only_lowers_refl split: if_splits)
qed

lemma amm_project_fails:
  assumes "amm_project X ctx r = Some (Inl (), r')"
    and own: "\<forall>p. map_of (reserves r) p \<noteq> None \<longrightarrow> bal (incoming ctx) p \<le> lp_supply r p"
  shows "r' = r"
proof -
  have "r' = r" if "project_pool_call p opcode ins (incoming ctx) r = Some (Inl (), r')" for p opcode ins
    using that own by (auto simp: project_pool_call_def run_iffs split: if_splits dest: burn_fails pool_swap_fails direct_add_fails)
  moreover have "r' = r" if "project_factory_swap opcode ins (incoming ctx) r = Some (Inl (), r')" for opcode ins
    using that own by (auto simp: project_factory_swap_def run_iffs split: if_splits
        dest: factory_burn_fails factory_add_fails exact_in_fails exact_out_fails)
  ultimately show ?thesis
    using assms(1) by (auto simp: amm_project_def run_iffs split: if_splits)
qed

end
