(* ===== verification/Fire_Accounts.thy ===== *)
theory Fire_Accounts
  imports Amm_Errors
begin

text \<open>
  The accounts of the FIRE contracts and of the whole registry: the only tokens a projection may create
  are frBTC, FIRE, staking positions and pool shares.
\<close>

section \<open>Balances held by contracts\<close>

definition contracts_held :: "fire_rule \<Rightarrow> alkane_id \<Rightarrow> nat" where
  "contracts_held r t = sum_list (map (\<lambda>(owner, sh). bal sh t) (contract_balances r))"

lemma contracts_held_put:
  "contracts_held (put_sheet owner sh r) t + bal (owner_sheet r owner) t = contracts_held r t + bal sh t"
proof -
  have "sum_list (map (\<lambda>(owner, sh). bal sh t) (AList.update owner sh m)) + bal (case map_of m owner of Some sh \<Rightarrow> sh | None \<Rightarrow> []) t
      = sum_list (map (\<lambda>(owner, sh). bal sh t) m) + bal sh t" for m
    by (induction m) (auto simp: bal_def [of "[]"])
  then show ?thesis by (simp add: contracts_held_def put_sheet_def owner_sheet_def)
qed

lemma add_contract_balance_held: "contracts_held (add_contract_balance owner t a r) x \<le> contracts_held r x + (if x = t then a else 0)"
  using contracts_held_put [of owner "add_to_sheet (owner_sheet r owner) t a" r x] bal_add_le [of "owner_sheet r owner" t a x]
  by (cases "x = t") (auto simp: add_contract_balance_def)

lemma take_contract_balance_held:
  assumes "take_contract_balance owner t a r = (r', taken)"
  shows "contracts_held r' x + (if x = t then taken else 0) = contracts_held r x"
proof -
  let ?sh = "owner_sheet r owner"
  define n where "n = min (bal ?sh t) a"
  let ?left = "if bal ?sh t - n = 0 then AList.delete t ?sh else AList.update t (bal ?sh t - n) ?sh"
  have take: "take_contract_balance owner t a r
      = (if a = 0 then (r, 0) else if n = 0 then (put_sheet owner ?sh r, 0) else (put_sheet owner ?left r, n))"
    by (simp only: take_contract_balance_def Let_def n_def saturating_sub_def)
  have "bal ?left x + (if x = t then n else 0) = bal ?sh x" by (simp add: n_def bal_update bal_delete)
  then show ?thesis
    using assms contracts_held_put [of owner ?sh r x] contracts_held_put [of owner ?left r x] unfolding take
    by (cases "a = 0"; cases "n = 0"; auto)
qed

lemma backing_held:
  assumes "add_treasury_redemption_backing out a d r = (r', out')"
  shows "bal out' x + contracts_held r' x \<le> bal out x + contracts_held r x"
proof -
  have "bal (add_to_sheet out t taken) x + contracts_held r' x \<le> bal out x + contracts_held r x"
    if "take_contract_balance owner t n r = (r', taken)" for owner t n taken
    using take_contract_balance_held [OF that, of x] bal_add_le [of out t taken x] by linarith
  then show ?thesis
    using assms by (auto simp: add_treasury_redemption_backing_def Let_def split: if_splits option.splits prod.splits)
qed

lemma deposit_all_held:
  "contracts_held (fold (\<lambda>(t, a). add_contract_balance owner t a) inc r) x \<le> contracts_held r x + sum_list (map snd (filter (\<lambda>e. fst e = x) inc))"
proof (induction inc arbitrary: r)
  case (Cons e inc)
  show ?case
    using add_contract_balance_held [of owner "fst e" "snd e" r x] Cons.IH [of "add_contract_balance owner (fst e) (snd e) r"]
    by (auto simp: case_prod_beta)
qed simp

lemma sum_distinct_bal: "distinct (map fst inc) \<Longrightarrow> sum_list (map snd (filter (\<lambda>e. fst e = x) inc)) = bal inc x"
proof (induction inc)
  case (Cons e inc)
  have "filter (\<lambda>e. fst e = x) inc = []" if "x \<notin> fst ` set inc" using that by (auto simp: filter_empty_conv)
  then show ?case using Cons by (cases e) (auto simp: bal_def)
qed (simp add: bal_def)

section \<open>The FIRE rule\<close>

lemma modify_returns [run_iffs]:
  "modify f r = Some (x, r') \<longleftrightarrow> x = Inr () \<and> r' = f r" "modify f r \<noteq> None"
  "returning g r = Some (y, r') \<longleftrightarrow> (\<exists>out. y = Inr out \<and> g r = (r', out))" "returning g r \<noteq> None"
  by (auto simp: modify_def returning_def Let_def split: prod.splits)

lemma contracts_held_supply [simp]: "contracts_held (r\<lparr>total_fire_supply := n\<rparr>) x = contracts_held r x"
  by (simp add: contracts_held_def)

text \<open>What a FIRE call may keep or move of a token it does not mint.\<close>

definition fire_keeps :: "alkane_id \<Rightarrow> sheet \<Rightarrow> fire_rule \<Rightarrow> sheet \<Rightarrow> fire_rule \<Rightarrow> bool" where
  "fire_keeps x inc r out r' = (bal out x + contracts_held r' x \<le> bal inc x + contracts_held r x)"

lemma fire_keeps_refl [simp]: "fire_keeps x inc r inc r"
  by (simp add: fire_keeps_def)

lemma fire_keeps_moved: "fire_keeps x inc r (AList.delete t inc) (add_contract_balance owner t (bal inc t) r)"
  using add_contract_balance_held [of owner t "bal inc t" r x] by (auto simp: fire_keeps_def bal_delete split: if_splits)

lemma fire_token_keeps:
  assumes "project_fire_token opcode ins inc d r = Some (Inr out, r')" "x \<noteq> fire_token d"
  shows "fire_keeps x inc r out r'"
proof -
  have "fire_keeps x inc r (add_to_sheet [] (fire_token d) n) (add_contract_balance (treasury d) (fire_token d) n (mint_fire n r))" for n
    using add_contract_balance_held [of "treasury d" "fire_token d" n "mint_fire n r" x] bal_add_le [of "[]" "fire_token d" n x] assms(2)
    by (simp add: fire_keeps_def mint_fire_def bal_def [of "[]"])
  moreover have "fire_keeps x inc r (add_to_sheet inc (fire_token d) n) (mint_fire n r)" for n
    using assms(2) by (simp add: fire_keeps_def mint_fire_def bal_add_to_sheet)
  moreover have "fire_keeps x inc r (without_token inc (fire_token d)) (burn_fire n r)" "fire_keeps x inc r (without_token inc (fire_token d)) r" for n
    by (simp_all add: fire_keeps_def burn_fire_def without_token_def bal_delete)
  ultimately show ?thesis
    using assms(1) by (auto simp: project_fire_token_def run_iffs Let_def split: if_splits)
qed

lemma staking_keeps:
  assumes "project_staking opcode inc d r = Some (Inr out, r')" "x \<noteq> epoch0_position d"
  shows "fire_keeps x inc r out r'"
proof -
  have "fire_keeps x inc r (add_to_sheet (AList.delete t inc) (epoch0_position d) 1) (add_contract_balance owner t (bal inc t) r)" for owner t
    using fire_keeps_moved [of x inc r t owner] assms(2) by (simp add: fire_keeps_def bal_add_to_sheet)
  then show ?thesis using assms(1) by (auto simp: project_staking_def run_iffs Let_def split: if_splits)
qed

lemma redemption_keeps:
  assumes "project_redemption opcode inc d r = Some (Inr out, r')"
  shows "fire_keeps x inc r out r'"
proof -
  have "fire_keeps x inc r out' r''" if "add_treasury_redemption_backing (without_token inc t) a d r = (r'', out')" for out' r'' t a
    using backing_held [OF that, of x] by (simp add: fire_keeps_def without_token_def bal_delete split: if_splits)
  then show ?thesis using assms by (auto simp: project_redemption_def run_iffs split: if_splits)
qed

lemma bonding_keeps:
  assumes "project_bonding opcode inc d r = Some (Inr out, r')"
  shows "fire_keeps x inc r out r'"
proof -
  have "fire_keeps x inc r (without_token inc t) (add_contract_balance owner t (bal inc t) r)" "fire_keeps x inc r (without_token inc t) r" for t owner
    using fire_keeps_moved [of x inc r t owner] by (simp_all add: fire_keeps_def without_token_def bal_delete)
  then show ?thesis using assms by (auto simp: project_bonding_def run_iffs Let_def split: if_splits)
qed

lemma treasury_keeps:
  assumes "project_treasury opcode ins inc d r = Some (Inr out, r')" "distinct (map fst inc)"
  shows "fire_keeps x inc r out r'"
proof -
  have "fire_keeps x inc r (add_to_sheet inc t taken) r''" if "take_contract_balance owner t n r = (r'', taken)" for owner t n r'' taken
    using take_contract_balance_held [OF that, of x] bal_add_le [of inc t taken x] by (simp add: fire_keeps_def)
  moreover have "fire_keeps x inc r [] (fold (\<lambda>(t, a). add_contract_balance owner t a) inc r)" for owner
    using deposit_all_held [of owner inc r x] sum_distinct_bal [OF assms(2), of x] by (simp add: fire_keeps_def bal_def [of "[]"])
  moreover have "fire_keeps x inc r out' r''" if "add_treasury_redemption_backing inc a d r = (r'', out')" for out' r'' a
    using backing_held [OF that, of x] by (simp add: fire_keeps_def)
  ultimately show ?thesis
    using assms(1) by (auto simp: project_treasury_def run_iffs Let_def split: if_splits prod.splits)
qed

lemma distributor_keeps:
  assumes "project_distributor opcode inc d r = Some (Inr out, r')"
  shows "fire_keeps x inc r out r'"
proof -
  have "fire_keeps x inc r (without_token inc t) (add_contract_balance owner t (bal inc t) r)" "fire_keeps x inc r (without_token inc t) r" for t owner
    using fire_keeps_moved [of x inc r t owner] by (simp_all add: fire_keeps_def without_token_def bal_delete)
  then show ?thesis using assms by (auto simp: project_distributor_def run_iffs split: if_splits option.splits)
qed

lemma other_keeps:
  "project_position_token opcode inc t r = Some (Inr out, r') \<Longrightarrow> x \<noteq> t \<Longrightarrow> fire_keeps x inc r out r'"
  "project_read_or_admin_call opcode inc r = Some (Inr out, r') \<Longrightarrow> fire_keeps x inc r out r'"
  by (auto simp: project_position_token_def project_read_or_admin_call_def run_iffs fire_keeps_def bal_add_to_sheet bal_def [of "[]"] split: if_splits)

lemma fire_project_keeps:
  assumes "fire_project X ctx r = Some (Inr out, r')" "distinct (map fst (incoming ctx))"
    and "\<And>d. deployments r = Some d \<Longrightarrow> x \<noteq> fire_token d \<and> x \<noteq> epoch0_position d"
  shows "fire_keeps x (incoming ctx) r out r'"
  using assms by (auto simp: fire_project_def run_iffs split: if_splits
      dest: fire_token_keeps staking_keeps redemption_keeps bonding_keeps treasury_keeps distributor_keeps other_keeps)

end
