(* ===== verification/Registry_Steps.thy ===== *)
theory Registry_Steps
  imports Fire_Accounts
begin

text \<open>
  The rules of the registry one after the other: which rule made a projection, and what the rules that declined
  before it left behind.
\<close>

lemma frbtc_project_effect:
  assumes "frbtc_project X ctx r = Some (x, r')"
  shows "r' = r \<and> (\<forall>out. x = Inr out \<longrightarrow> (\<forall>t. t \<noteq> FRBTC_ALKANE_ID \<longrightarrow> bal out t = bal (incoming ctx) t))"
proof (cases x)
  case (Inl u)
  then show ?thesis using assms by (auto simp: frbtc_project_def frbtc_unwrap_def Let_def run_iffs split: if_splits)
next
  case (Inr out)
  then show ?thesis
    using assms by (auto simp: frbtc_project_def frbtc_unwrap_def Let_def run_iffs bal_add_to_sheet remove_from_sheet_bal split: if_splits)
qed

lemma orelse_returns:
  "orelse m m' r = Some (Inr a, r') \<longleftrightarrow> m r = Some (Inr a, r') \<or> (\<exists>r1. m r = Some (Inl (), r1) \<and> m' r1 = Some (Inr a, r'))"
  by (auto simp: orelse_def split: option.splits sum.splits prod.splits)

lemma on_part_returns:
  "on_frbtc f g = Some (x, g') \<longleftrightarrow> (\<exists>r. f (frbtc g) = Some (x, r) \<and> g' = g\<lparr>frbtc := r\<rparr>)"
  "on_amm m g = Some (x, g') \<longleftrightarrow> (\<exists>r. m (amm g) = Some (x, r) \<and> g' = g\<lparr>amm := r\<rparr>)"
  "on_fire n g = Some (x, g') \<longleftrightarrow> (\<exists>r. n (fire g) = Some (x, r) \<and> g' = g\<lparr>fire := r\<rparr>)"
  by (auto simp: on_frbtc_def on_amm_def on_fire_def)

text \<open>Which rule made a projection, and what the rules before it left.\<close>

lemma registry_project_cases:
  assumes "registry_project X ctx g = Some (Inr out, g')"
  obtains (frbtc) "frbtc_project X ctx (frbtc g) = Some (Inr out, frbtc g)" "amm g' = amm g" "fire g' = fire g" "applied g'"
  | (amm) "amm_project X ctx (amm g) = Some (Inr out, amm g')" "fire g' = fire g" "applied g'"
  | (fire) "amm_project X ctx (amm g) = Some (Inl (), amm g')" "fire_project X ctx (fire g) = Some (Inr out, fire g')" "applied g'"
  using assms frbtc_project_effect [of X ctx "frbtc g"]
  by (auto simp: registry_project_def mark_applied_def bindc_returns orelse_returns on_part_returns)

lemma project_from_inputs_cases:
  assumes "project_from_inputs X ctx g = Some (Inr out, g')"
  obtains (frbtc) "frbtc_project X ctx (frbtc g) = Some (Inr out, frbtc g)" "amm g' = amm g" "fire g' = fire g"
  | (amm) "amm_project X ctx (amm g) = Some (Inr out, amm g')" "fire g' = fire g"
  using assms frbtc_project_effect [of X ctx "frbtc g"]
  by (auto simp: project_from_inputs_def mark_applied_def bindc_returns orelse_returns on_part_returns)

lemma orelse_declines:
  "orelse m m' r = Some (Inl u, r') \<longleftrightarrow> (\<exists>r1. m r = Some (Inl (), r1) \<and> m' r1 = Some (Inl u, r'))"
  by (auto simp: orelse_def split: option.splits sum.splits prod.splits)

lemma fire_project_fails: "fire_project X ctx r = Some (Inl u, r') \<Longrightarrow> r' = r"
  by (auto simp: fire_project_def project_fire_token_def project_staking_def project_redemption_def project_bonding_def project_treasury_def
      project_distributor_def project_position_token_def project_read_or_admin_call_def run_iffs Let_def split: if_splits)

lemma registry_declines:
  assumes "registry_project X ctx g = Some (Inl u, g') \<or> project_from_inputs X ctx g = Some (Inl u, g')"
  shows "only_lowers (amm g) (amm g') \<and> fire g' = fire g"
  using assms frbtc_project_effect [of X ctx "frbtc g"] amm_project_only_lowers fire_project_fails
  by (auto simp: registry_project_def project_from_inputs_def mark_applied_def bindc_returns orelse_declines on_part_returns)

end
