(* ===== verification/Projection_Properties.thy ===== *)
theory Projection_Properties
  imports Registry_Steps "HOL-Library.Code_Target_Nat"
begin

text \<open>
  The properties of the projection of unconfirmed calls. The witnesses project calls on a registry with
  one pool; their codec reads every byte of the message as one value, as a varint below 128 is read.
\<close>

section \<open>A small registry\<close>

definition plain_codec :: codec where
  "plain_codec = \<lparr>decode_varint_list = \<lambda>bs. Some (map unat bs),
     try_cellpack = \<lambda>vs. case vs of b # t # ins \<Rightarrow> Some \<lparr>target_block = b, target_tx = t, inputs = ins\<rparr> | _ \<Rightarrow> None\<rparr>"

definition coin :: "64 word \<Rightarrow> alkane_id" where
  "coin n = \<lparr>id_block = 2, id_tx = n\<rparr>"

definition one_pool :: snapshot where
  "one_pool = [(coin 9, \<lparr>base_reserve = 100, quote_reserve = 300, base_id = coin 1, quote_id = coin 3\<rparr>)]"

definition one_pool_rule :: amm_rule where
  "one_pool_rule = amm_new (Some one_pool) (\<lambda>p. if p = coin 9 then Some 50 else None) (Some (coin 7))"

definition call :: "bytes \<Rightarrow> sheet \<Rightarrow> call_context" where
  "call vs inc = \<lparr>outputs = [], stone = \<lparr>protocol_tag = 1, message = vs\<rparr>, incoming = inc\<rparr>"

definition swap_call :: call_context where
  "swap_call = call [2, 9, 3] [(coin 1, 20)]"

definition after_swap :: amm_rule where
  "after_swap = one_pool_rule\<lparr>reserves := [(coin 9, \<lparr>base_reserve = 120, quote_reserve = 251, base_id = coin 1, quote_id = coin 3\<rparr>)]\<rparr>"

lemma swap_call_projects: "amm_project plain_codec swap_call one_pool_rule = Some (Inr [(coin 3, 49)], after_swap)"
  by code_simp



section \<open>All rules\<close>

definition supplies_unclipped :: "amm_rule \<Rightarrow> bool" where
  "supplies_unclipped r = list_all (\<lambda>(p, n). n < U128_MAX) (lp_supplies r)"

lemma supplies_unclippedD: "supplies_unclipped r \<Longrightarrow> lp_supply r p < U128_MAX"
  by (auto simp: supplies_unclipped_def list_all_iff lp_supply_def bal_def U128_MAX_def split: option.splits dest!: map_of_SomeD)

text \<open>
  C4. No projection creates tokens. Take a token other than frBTC, FIRE and the staking position, and let no share supply
  reach \<open>u128::MAX\<close>. Whichever rule of the registry projects a call, the caller's outgoing balance together with
  what the pools and the FIRE contracts hold afterwards is at most the incoming balance with what they held
  before; for the shares of a pool this total grows by at most what the pool's recorded supply grows. The
  pools stay well-formed and the registry records that a rule applied.
\<close>

theorem registry_creates_no_tokens:
  assumes "registry_project X ctx g = Some (Inr out, g')"
    and "pools_ok (reserves (amm g))" "distinct (map fst (incoming ctx))" "supplies_unclipped (amm g')"
    and "t \<noteq> FRBTC_ALKANE_ID" "\<forall>d. deployments (fire g) = Some d \<longrightarrow> t \<noteq> fire_token d \<and> t \<noteq> epoch0_position d"
  shows "bal out t + held (reserves (amm g')) t + contracts_held (fire g') t + lp_supply (amm g) t
      \<le> bal (incoming ctx) t + held (reserves (amm g)) t + contracts_held (fire g) t + lp_supply (amm g') t
    \<and> pools_ok (reserves (amm g')) \<and> did_apply g'"
  using assms(1)
proof (cases rule: registry_project_cases)
  case frbtc
  then show ?thesis using frbtc_project_effect [OF frbtc(1)] assms(2,5) by (simp add: did_apply_def)
next
  case amm
  note step = amm_project_step [OF amm(1)]
  from amm_step_conserves [OF step assms(2) supplies_unclippedD [OF assms(4)], of t] amm_step_pools_ok [OF step assms(2)] amm(2,3)
  show ?thesis by (simp add: did_apply_def)
next
  case fire
  have "fire_keeps t (incoming ctx) (fire g) out (fire g')"
    using fire_project_keeps [OF fire(2) assms(3)] assms(6) by blast
  moreover have "only_lowers (amm g) (amm g')" by (rule amm_project_only_lowers [OF fire(1)])
  then have "held (reserves (amm g')) t \<le> held (reserves (amm g)) t" "lp_supply (amm g') t = lp_supply (amm g) t"
    "pools_ok (reserves (amm g'))"
    using assms(2) by (simp_all add: only_lowers_def lp_supply_def)
  ultimately show ?thesis using fire(3) by (simp add: fire_keeps_def did_apply_def)
qed

definition small_registry :: registry where
  "small_registry = from_latest_indices (frbtc_new None) one_pool_rule (fire_new Regtest (\<lambda>_. []) (\<lambda>_. None))"

theorem registry_creates_no_tokens_witness:
  "registry_project plain_codec swap_call small_registry = Some (Inr [(coin 3, 49)], small_registry\<lparr>amm := after_swap, applied := True\<rparr>)
    \<and> bal [(coin 3, 49)] (coin 3) + held (reserves after_swap) (coin 3) \<le> held one_pool (coin 3)"
proof -
  let ?g' = "small_registry\<lparr>amm := after_swap, applied := True\<rparr>"
  have f: "frbtc_project plain_codec swap_call (frbtc small_registry) = Some (Inl (), frbtc small_registry)" by code_simp
  have "amm_project plain_codec swap_call (amm small_registry) = Some (Inr [(coin 3, 49)], after_swap)"
    using swap_call_projects by (simp add: small_registry_def from_latest_indices_def)
  with f have p: "registry_project plain_codec swap_call small_registry = Some (Inr [(coin 3, 49)], ?g')"
    by (simp add: registry_project_def mark_applied_def bindc_def orelse_def on_frbtc_def on_amm_def)
  have h: "pools_ok (reserves (amm small_registry))" "distinct (map fst (incoming swap_call))" "supplies_unclipped (amm ?g')"
    "coin 3 \<noteq> FRBTC_ALKANE_ID" "deployments (fire small_registry) = None" "lp_supply (amm small_registry) (coin 3) = 0"
    "lp_supply (amm ?g') (coin 3) = 0" "bal (incoming swap_call) (coin 3) = 0" "reserves (amm small_registry) = one_pool"
    by code_simp+
  from registry_creates_no_tokens [OF p h(1-4)] h(5-9) p show ?thesis by (simp add: contracts_held_def)
qed

section \<open>Pools\<close>



text \<open>
  C14. A call that does not project leaves the pools as they were, when the caller holds no more shares of any
  pool than its recorded supply: reserves and supplies change only together with a result.
\<close>

theorem amm_failed_call_is_clean:
  assumes "amm_project X ctx r = Some (Inl (), r')"
    and "\<forall>p. map_of (reserves r) p \<noteq> None \<longrightarrow> bal (incoming ctx) p \<le> lp_supply r p"
  shows "r' = r"
  by (rule amm_project_fails [OF assms])

definition small_burn :: call_context where
  "small_burn = call [2, 9, 2] [(coin 9, 0)]"

theorem amm_failed_call_is_clean_witness:
  "\<exists>r'. amm_project plain_codec small_burn one_pool_rule = Some (Inl (), r') \<and> r' = one_pool_rule"
proof -
  have p: "amm_project plain_codec small_burn one_pool_rule = Some (Inl (), one_pool_rule)" by code_simp
  have "\<forall>p. map_of (reserves one_pool_rule) p \<noteq> None \<longrightarrow> bal (incoming small_burn) p \<le> lp_supply one_pool_rule p"
    by (simp add: small_burn_def call_def bal_def)
  from amm_failed_call_is_clean [OF p this] p show ?thesis by blast
qed

text \<open>
  Without that bound a late failure keeps what was already written: a withdrawal of more shares than
  the supply fails and has emptied the pool.
\<close>

definition tiny_rule :: amm_rule where
  "tiny_rule = amm_new (Some [(coin 9, \<lparr>base_reserve = 1, quote_reserve = 1, base_id = coin 1, quote_id = coin 3\<rparr>)]) (\<lambda>_. Some 50) None"

lemma failed_burn_empties_pool:
  "amm_project plain_codec (call [2, 9, 2] [(coin 9, 51)]) tiny_rule = Some (Inl (),
     tiny_rule\<lparr>reserves := [(coin 9, \<lparr>base_reserve = 0, quote_reserve = 0, base_id = coin 1, quote_id = coin 3\<rparr>)]\<rparr>)"
  by code_simp

text \<open>
  C38. When a factory swap panics: a call of any of the three swap opcodes on the factory makes the projection panic
  exactly when the path length it names fits \<open>usize\<close> but needs a vector of at least \<open>2 ^ 63\<close> bytes; the length
  is read from the transaction and not compared with the number of arguments before the allocation.
\<close>

theorem factory_swap_panics_iff:
  assumes "cellpack_from_protostone X (stone ctx) = Some cp" "alkane_id_from_parts (target_block cp) (target_tx cp) = Some f"
    and "factory_id r = Some f" "map_of (reserves r) f = None" "get_at (inputs cp) 0 = Some opcode"
    and "opcode = AMM_FACTORY_SWAP_EXACT_IN_OPCODE \<or> opcode = AMM_FACTORY_SWAP_EXACT_IN_IMPLICIT_OPCODE \<or> opcode = AMM_FACTORY_SWAP_EXACT_OUT_OPCODE"
  shows "amm_project X ctx r = None \<longleftrightarrow> huge_path (inputs cp)"
proof -
  have "amm_project X ctx r = project_factory_swap opcode (inputs cp) (incoming ctx) r"
    using assms(1-5) by (simp add: amm_project_def bindc_def attempt_def get_rule_def)
  moreover have "project_factory_swap opcode (inputs cp) (incoming ctx) r = None \<longleftrightarrow> huge_path (inputs cp)"
    using assms(6) exact_in_panics exact_out_panics
    by (auto simp: project_factory_swap_def AMM_FACTORY_ADD_LIQUIDITY_OPCODE_def AMM_FACTORY_BURN_OPCODE_def
        AMM_FACTORY_SWAP_EXACT_IN_OPCODE_def AMM_FACTORY_SWAP_EXACT_IN_IMPLICIT_OPCODE_def AMM_FACTORY_SWAP_EXACT_OUT_OPCODE_def)
  ultimately show ?thesis by simp
qed

definition huge_codec :: codec where
  "huge_codec = plain_codec\<lparr>decode_varint_list := \<lambda>_. Some [2, 7, 13, 2 ^ 60]\<rparr>"

theorem factory_swap_panics_iff_witness:
  "amm_project huge_codec swap_call one_pool_rule = None \<longleftrightarrow> huge_path [13, 2 ^ 60]"
proof -
  have "cellpack_from_protostone huge_codec (stone swap_call) = Some \<lparr>target_block = 2, target_tx = 7, inputs = [13, 2 ^ 60]\<rparr>"
    "alkane_id_from_parts 2 7 = Some (coin 7)" "factory_id one_pool_rule = Some (coin 7)" "map_of (reserves one_pool_rule) (coin 7) = None"
    "get_at [13, 2 ^ 60] 0 = Some (13::nat)" "(13::nat) = AMM_FACTORY_SWAP_EXACT_IN_OPCODE"
    by code_simp+
  from factory_swap_panics_iff [of huge_codec swap_call, OF this(1) _ this(3,4)] this show ?thesis by simp
qed

text \<open>
  C39. \<open>integer_sqrt\<close> ends for every \<open>u128\<close>: it returns the floor of the square root, except at \<open>u128::MAX\<close>, where
  it panics.
\<close>

theorem integer_sqrt_is_floor:
  assumes "n \<le> U128_MAX"
  shows "case integer_sqrt n of Some root \<Rightarrow> root\<^sup>2 \<le> n \<and> n < (root + 1)\<^sup>2 \<and> n \<noteq> U128_MAX | None \<Rightarrow> n = U128_MAX"
  using integer_sqrt_floor [of n] integer_sqrt_overflow assms by (cases "n = U128_MAX") auto

theorem integer_sqrt_is_floor_witness:
  "case integer_sqrt 1000000 of Some root \<Rightarrow> root\<^sup>2 \<le> 1000000 \<and> 1000000 < (root + 1)\<^sup>2 \<and> 1000000 \<noteq> U128_MAX | None \<Rightarrow> 1000000 = U128_MAX"
  by (rule integer_sqrt_is_floor) (simp add: U128_MAX_def)

section \<open>frBTC\<close>

lemma foldl_saturating:
  "a \<le> U128_MAX \<Longrightarrow> foldl (\<lambda>n out. saturating_add n (sats out)) a outs = min U128_MAX (a + sum_list (map sats outs))"
  by (induction outs arbitrary: a) (auto simp: saturating_add_def min_def)

text \<open>
  C40. frBTC follows bitcoin: a projected wrap credits the caller with exactly the satoshis the transaction pays to
  the signer (up to \<open>u128::MAX\<close>), a projected unwrap takes exactly the named positive amount, which the caller had, and
  no other token and no state changes.
\<close>

theorem frbtc_wraps_and_unwraps:
  assumes "frbtc_project X ctx r = Some (Inr out, r')" "bal (incoming ctx) FRBTC_ALKANE_ID \<le> U128_MAX"
  shows "r' = r \<and> (\<forall>t. t \<noteq> FRBTC_ALKANE_ID \<longrightarrow> bal out t = bal (incoming ctx) t)
    \<and> (\<exists>cp script. cellpack_from_protostone X (stone ctx) = Some cp \<and> signer_script r = Some script
        \<and> (arg (inputs cp) 0 = FRBTC_WRAP_OPCODE \<and> bal out FRBTC_ALKANE_ID = min U128_MAX (bal (incoming ctx) FRBTC_ALKANE_ID
              + sum_list (map sats (filter (\<lambda>o'. script_pubkey o' = script) (outputs ctx))))
          \<or> arg (inputs cp) 0 = FRBTC_UNWRAP_OPCODE \<and> 0 < arg (inputs cp) 2
            \<and> bal (incoming ctx) FRBTC_ALKANE_ID = bal out FRBTC_ALKANE_ID + arg (inputs cp) 2))"
proof -
  obtain cp script opcode where h: "cellpack_from_protostone X (stone ctx) = Some cp" "signer_script r = Some script"
    "get_at (inputs cp) 0 = Some opcode"
    and w: "if opcode = FRBTC_WRAP_OPCODE then \<exists>n. signer_output_sats (outputs ctx) script = Some n \<and> out = add_to_sheet (incoming ctx) FRBTC_ALKANE_ID n
       else opcode = FRBTC_UNWRAP_OPCODE \<and> frbtc_unwrap script ctx (inputs cp) r = Some (Inr out, r')"
    using assms(1) by (auto simp: frbtc_project_def wrap_mint_amount_def run_iffs split: if_splits)
  show ?thesis
  proof (cases "opcode = FRBTC_WRAP_OPCODE")
    case True
    let ?n = "sum_list (map sats (filter (\<lambda>o'. script_pubkey o' = script) (outputs ctx)))"
    have "out = add_to_sheet (incoming ctx) FRBTC_ALKANE_ID (min U128_MAX ?n)" "min U128_MAX ?n \<noteq> 0"
      using w True by (auto simp: signer_output_sats_def Let_def foldl_saturating split: if_splits)
    then have "bal out FRBTC_ALKANE_ID = min U128_MAX (bal (incoming ctx) FRBTC_ALKANE_ID + ?n)"
      by (simp add: bal_add_to_sheet saturating_add_def min_def)
    then show ?thesis using h True frbtc_project_effect [OF assms(1)] by (auto simp: arg_def)
  next
    case False
    then have "opcode = FRBTC_UNWRAP_OPCODE" "0 < arg (inputs cp) 2"
      "bal (incoming ctx) FRBTC_ALKANE_ID = bal out FRBTC_ALKANE_ID + arg (inputs cp) 2"
      using w by (auto simp: frbtc_unwrap_def run_iffs Let_def remove_from_sheet_bal arg_def min_def split: if_splits)
    then show ?thesis using h frbtc_project_effect [OF assms(1)] by (auto simp: arg_def)
  qed
qed

definition wrap_call :: call_context where
  "wrap_call = \<lparr>outputs = [\<lparr>script_pubkey = [1], sats = 700\<rparr>], stone = \<lparr>protocol_tag = 1, message = [1]\<rparr>, incoming = []\<rparr>"

theorem frbtc_wraps_and_unwraps_witness:
  "\<exists>out. frbtc_project (plain_codec\<lparr>decode_varint_list := \<lambda>_. Some [32, 0, 77]\<rparr>) wrap_call (frbtc_new (Some (Some [1]))) = Some (Inr out, frbtc_new (Some (Some [1])))
    \<and> bal out FRBTC_ALKANE_ID = 700 \<and> (\<forall>t. t \<noteq> FRBTC_ALKANE_ID \<longrightarrow> bal out t = 0)"
proof -
  have p: "frbtc_project (plain_codec\<lparr>decode_varint_list := \<lambda>_. Some [32, 0, 77]\<rparr>) wrap_call (frbtc_new (Some (Some [1])))
      = Some (Inr [(FRBTC_ALKANE_ID, 700)], frbtc_new (Some (Some [1])))" by code_simp
  have "bal (incoming wrap_call) FRBTC_ALKANE_ID \<le> U128_MAX" by (simp add: wrap_call_def bal_def U128_MAX_def)
  from frbtc_wraps_and_unwraps [OF p this]
  have "\<forall>t. t \<noteq> FRBTC_ALKANE_ID \<longrightarrow> bal [(FRBTC_ALKANE_ID, 700)] t = bal (incoming wrap_call) t" by blast
  then have "\<forall>t. t \<noteq> FRBTC_ALKANE_ID \<longrightarrow> bal [(FRBTC_ALKANE_ID, 700)] t = 0" by (simp add: wrap_call_def bal_def)
  moreover have "bal [(FRBTC_ALKANE_ID, 700)] FRBTC_ALKANE_ID = 700" by (simp add: bal_def)
  ultimately show ?thesis using p by blast
qed

end
