(* ===== verification/Trace.thy ===== *)
theory Trace
  imports Projection "HOL-Library.Product_Lexorder"
begin

text \<open>
  Execution traces of alkanes calls as espo reads them (\<^verbatim>\<open>src/alkanes/trace.rs\<close>), the removal of the returns
  that host functions leave without an invocation (\<^verbatim>\<open>src/alkanes/utils.rs\<close>), and the amounts a trace takes in
  and gives out (\<^verbatim>\<open>src/modules/essentials/utils/balances/utils.rs\<close>).

  A \<open>String\<close> is the list of its UTF-8 bytes. The hex and consensus decoders of third-party crates are the record
  \<open>decoders\<close>.
\<close>

section \<open>Traces\<close>

record short_id =
  sid_block :: string
  sid_tx :: string

record transfer =
  tr_id :: short_id
  tr_value :: string

record invoke_context =
  myself :: short_id
  caller :: short_id
  call_inputs :: "string list"
  incoming_alkanes :: "transfer list"
  ctx_vout :: u32

record invoke_data =
  call_type :: string
  invoke_ctx :: invoke_context
  fuel :: "64 word"

datatype trace_status = Success | Failure

record storage_kv =
  kv_key :: string
  kv_value :: string

record return_response =
  alkanes :: "transfer list"
  resp_data :: string
  storage :: "storage_kv list"

record return_data =
  status :: trace_status
  response :: return_response

datatype trace_event = Invoke invoke_data | Return return_data | Create short_id

record trace =
  outpoint :: string
  events :: "trace_event list"

type_synonym host_values = "bytes \<times> bytes \<times> bytes \<times> bytes"

record decoders =
  hex_decode :: "string \<Rightarrow> bytes option"
  decodes_header :: "bytes \<Rightarrow> bool"
  decodes_coinbase :: "bytes \<Rightarrow> bool"

section \<open>Numbers in strings\<close>

text \<open>\<open>char::to_digit\<close> and \<open>from_str_radix\<close> of an unsigned type with the given greatest value.\<close>

definition to_digit :: "nat \<Rightarrow> char \<Rightarrow> nat option" where
  "to_digit radix c =
     (let n = of_char c :: nat;
          d = (if 48 \<le> n \<and> n \<le> 57 then n - 48 else if 97 \<le> n \<and> n \<le> 122 then n - 87
               else if 65 \<le> n \<and> n \<le> 90 then n - 55 else radix) in
      if d < radix then Some d else None)"

fun parse_digits :: "nat \<Rightarrow> nat \<Rightarrow> nat \<Rightarrow> string \<Rightarrow> nat option" where
  "parse_digits radix bound acc [] = Some acc"
| "parse_digits radix bound acc (c # cs) = (case to_digit radix c of
       None \<Rightarrow> None
     | Some d \<Rightarrow> if acc * radix + d \<le> bound then parse_digits radix bound (acc * radix + d) cs else None)"

definition from_str_radix :: "nat \<Rightarrow> nat \<Rightarrow> string \<Rightarrow> nat option" where
  "from_str_radix bound radix s =
     (if s = [] \<or> s = ''+'' \<or> s = ''-'' then None
      else parse_digits radix bound 0 (if hd s = CHR ''+'' then tl s else s))"

definition strip_0x :: "string \<Rightarrow> string" where
  "strip_0x s = (if take 2 s = ''0x'' then drop 2 s else s)"

definition parse_hex_u32 :: "string \<Rightarrow> u32 option" where
  "parse_hex_u32 s = map_option word_of_nat (from_str_radix (2 ^ 32 - 1) 16 (strip_0x s))"

definition parse_hex_u64 :: "string \<Rightarrow> 64 word option" where
  "parse_hex_u64 s = map_option word_of_nat (from_str_radix (2 ^ 64 - 1) 16 (strip_0x s))"

definition parse_hex_u128 :: "string \<Rightarrow> u128 option" where
  "parse_hex_u128 s = from_str_radix U128_MAX 16 (strip_0x s)"

definition parse_short_id :: "short_id \<Rightarrow> alkane_id option" where
  "parse_short_id i = Option.bind (parse_hex_u32 (sid_block i)) (\<lambda>block.
     Option.bind (parse_hex_u64 (sid_tx i)) (\<lambda>tx. Some \<lparr>id_block = block, id_tx = tx\<rparr>))"

section \<open>Amounts\<close>

text \<open>\<open>*m.entry(k).or_default() = m.get(&k).copied().unwrap_or(0).saturating_add(amount)\<close>.\<close>

definition credit :: "alkane_id \<times> u128 \<Rightarrow> sheet \<Rightarrow> sheet" where
  "credit e m = AList.update (fst e) (saturating_add (bal m (fst e)) (snd e)) m"

text \<open>The amount one transfer of a trace names, if it can be read.\<close>

definition parse_transfer :: "transfer \<Rightarrow> (alkane_id \<times> u128) option" where
  "parse_transfer t = (case (parse_short_id (tr_id t), parse_hex_u128 (tr_value t)) of
       (Some k, Some v) \<Rightarrow> Some (k, v) | _ \<Rightarrow> None)"

definition net_of :: "transfer list \<Rightarrow> sheet" where
  "net_of ts = fold credit (List.map_filter parse_transfer ts) []"

definition transfers_to_sheet :: "transfer list \<Rightarrow> sheet" where
  "transfers_to_sheet ts = fold credit (filter (\<lambda>e. snd e \<noteq> 0) (List.map_filter parse_transfer ts)) []"

datatype trace_type = NOTRACE | REVERT | SUCCESS

fun first_invoke :: "trace_event list \<Rightarrow> invoke_data option" where
  "first_invoke [] = None"
| "first_invoke (Invoke i # es) = Some i"
| "first_invoke (_ # es) = first_invoke es"

fun last_return :: "return_data option \<Rightarrow> trace_event list \<Rightarrow> return_data option" where
  "last_return r [] = r"
| "last_return r (Return r' # es) = last_return (Some r') es"
| "last_return r (_ # es) = last_return r es"

definition compute_nets :: "trace \<Rightarrow> sheet option \<times> sheet option \<times> trace_type" where
  "compute_nets t =
     (map_option (\<lambda>i. net_of (incoming_alkanes (invoke_ctx i))) (first_invoke (events t)),
      case last_return None (events t) of
        None \<Rightarrow> (None, NOTRACE)
      | Some r \<Rightarrow> (Some (net_of (alkanes (response r))), case status r of Failure \<Rightarrow> REVERT | Success \<Rightarrow> SUCCESS))"

section \<open>Returns without an invocation\<close>

datatype clean_view = VInvoke | VReturn "bytes option" | VOther

definition decode_hex_data :: "decoders \<Rightarrow> string \<Rightarrow> bytes option" where
  "decode_hex_data D s = (let trimmed = strip_0x s in if trimmed = [] then Some [] else hex_decode D trimmed)"

fun event_view :: "decoders \<Rightarrow> trace_event \<Rightarrow> clean_view" where
  "event_view D (Invoke _) = VInvoke"
| "event_view D (Return r) = VReturn
     (if status r = Success \<and> alkanes (response r) = [] \<and> storage (response r) = []
      then decode_hex_data D (resp_data (response r)) else None)"
| "event_view D (Create _) = VOther"

definition sandshrew_event_views :: "decoders \<Rightarrow> trace_event list \<Rightarrow> clean_view list" where
  "sandshrew_event_views D es = map (event_view D) es"

definition is_return :: "clean_view \<Rightarrow> bool" where
  "is_return v = (case v of VReturn _ \<Rightarrow> True | _ \<Rightarrow> False)"

definition invokes :: "clean_view list \<Rightarrow> nat" where
  "invokes vs = length (filter (\<lambda>v. v = VInvoke) vs)"

definition returns :: "clean_view list \<Rightarrow> nat" where
  "returns vs = length (filter is_return vs)"

definition host_match :: "host_values \<Rightarrow> bytes \<Rightarrow> bool" where
  "host_match h b = (case h of (header, coinbase, diesel, fee) \<Rightarrow>
     list_ex (\<lambda>hv. hv \<noteq> [] \<and> b = hv) [header, coinbase, diesel, fee])"

definition fuzzy_host_match :: "decoders \<Rightarrow> bytes \<Rightarrow> bool" where
  "fuzzy_host_match D b = (length b = 80 \<and> decodes_header D b \<or> decodes_coinbase D b)"

text \<open>Whether a return may be a host function's, with or without the guess from its payload.\<close>

definition candidate :: "decoders \<Rightarrow> host_values \<Rightarrow> bool \<Rightarrow> clean_view \<Rightarrow> bool" where
  "candidate D h allow_fuzzy v = (case v of
       VReturn (Some b) \<Rightarrow> host_match h b \<or> allow_fuzzy \<and> fuzzy_host_match D b
     | _ \<Rightarrow> False)"

text \<open>
  The loop of an attempt: whenever a return finds no open call, the latest candidate so far is removed. The result
  is the removed indices and the number of candidates.
\<close>

fun removal_loop ::
  "(clean_view \<Rightarrow> bool) \<Rightarrow> nat \<Rightarrow> clean_view list \<Rightarrow> nat list \<Rightarrow> nat list \<Rightarrow> nat \<Rightarrow> int \<Rightarrow> (nat list \<times> nat) option" where
  "removal_loop cand idx [] removed stack seen depth = Some (removed, seen)"
| "removal_loop cand idx (v # vs) removed stack seen depth = (case v of
       VInvoke \<Rightarrow> removal_loop cand (idx + 1) vs removed stack seen (depth + 1)
     | VOther \<Rightarrow> removal_loop cand (idx + 1) vs removed stack seen depth
     | VReturn _ \<Rightarrow>
         let stack = (if cand v then idx # stack else stack);
             seen = (if cand v then seen + 1 else seen);
             depth = depth - 1 in
         if depth < 0 then (case stack of
             [] \<Rightarrow> None
           | remove_idx # stack \<Rightarrow> removal_loop cand (idx + 1) vs (List.insert remove_idx removed) stack seen (depth + 1))
         else removal_loop cand (idx + 1) vs removed stack seen depth)"

fun validate_loop :: "nat list \<Rightarrow> nat \<Rightarrow> clean_view list \<Rightarrow> nat \<Rightarrow> nat \<Rightarrow> int \<Rightarrow> bool" where
  "validate_loop removed idx [] ni nr depth = (ni = nr \<and> depth = 0)"
| "validate_loop removed idx (v # vs) ni nr depth =
     (if idx \<in> set removed then validate_loop removed (idx + 1) vs ni nr depth
      else case v of
        VInvoke \<Rightarrow> validate_loop removed (idx + 1) vs (ni + 1) nr (depth + 1)
      | VReturn _ \<Rightarrow> if depth - 1 < 0 then False else validate_loop removed (idx + 1) vs ni (nr + 1) (depth - 1)
      | VOther \<Rightarrow> validate_loop removed (idx + 1) vs ni nr depth)"

definition removal_attempt :: "(clean_view \<Rightarrow> bool) \<Rightarrow> clean_view list \<Rightarrow> nat list option" where
  "removal_attempt cand vs = (case removal_loop cand 0 vs [] [] 0 0 of
       None \<Rightarrow> None
     | Some (removed, seen) \<Rightarrow>
         let mismatch = returns vs - invokes vs in
         if seen < mismatch \<or> length removed \<noteq> mismatch then None
         else if validate_loop removed 0 vs 0 0 0 then Some removed else None)"

definition orphan_return_removals :: "decoders \<Rightarrow> clean_view list \<Rightarrow> host_values \<Rightarrow> nat list option" where
  "orphan_return_removals D vs h =
     (if invokes vs = returns vs then Some []
      else if returns vs < invokes vs then None
      else case removal_attempt (candidate D h False) vs of
        Some removed \<Rightarrow> Some removed
      | None \<Rightarrow> removal_attempt (candidate D h True) vs)"

text \<open>The elements of a list at the indices not removed.\<close>

definition kept :: "nat list \<Rightarrow> 'a list \<Rightarrow> 'a list" where
  "kept removed xs = map snd (filter (\<lambda>(i, _). i \<notin> set removed) (zip [0..<length xs] xs))"

definition clean_espo_sandshrew_like_trace :: "decoders \<Rightarrow> trace \<Rightarrow> host_values \<Rightarrow> trace option" where
  "clean_espo_sandshrew_like_trace D t h =
     (case orphan_return_removals D (sandshrew_event_views D (events t)) h of
        None \<Rightarrow> None
      | Some removed \<Rightarrow> if removed = [] then Some t else Some \<lparr>outpoint = outpoint t, events = kept removed (events t)\<rparr>)"

end
