(* ===== verification/Sources.thy ===== *)
theory Sources
  imports Trace
begin

text \<open>
  The attribution of tokens to their sources in \<^verbatim>\<open>src/modules/essentials/utils/balances/lib.rs\<close>: for every token a
  queue of amounts with the address or contract they come from, and the flow of sources through the calls of
  a trace.

  A \<open>BTreeMap\<close> is an association list with distinct keys that is iterated in the order of its keys
  (\<open>entries\<close>); a \<open>HashMap\<close> is iterated as it stands.
\<close>

section \<open>Maps\<close>

definition entries :: "(alkane_id \<times> 'a) list \<Rightarrow> (alkane_id \<times> 'a) list" where
  "entries m = sort_key (\<lambda>e. (id_block (fst e), id_tx (fst e))) m"

definition look :: "('k \<times> 'a list) list \<Rightarrow> 'k \<Rightarrow> 'a list" where
  "look m k = (case map_of m k of Some xs \<Rightarrow> xs | None \<Rightarrow> [])"

section \<open>Sources\<close>

datatype source = Address string | Contract alkane_id

type_synonym source_amounts = "(source \<times> u128) list"
type_synonym sourced_sheet = "(alkane_id \<times> source_amounts) list"
type_synonym contract_amounts = "((alkane_id \<times> alkane_id) \<times> u128) list"
type_synonym address_amounts = "(string \<times> contract_amounts) list"

definition source_amounts_total :: "source_amounts \<Rightarrow> u128" where
  "source_amounts_total ss = foldl saturating_add 0 (map snd ss)"

definition add_source_amount :: "source_amounts \<Rightarrow> source \<Rightarrow> u128 \<Rightarrow> source_amounts" where
  "add_source_amount ss s a =
     (if a = 0 then ss
      else if ss \<noteq> [] \<and> fst (last ss) = s then butlast ss @ [(s, saturating_add (snd (last ss)) a)]
      else ss @ [(s, a)])"

definition add_sources_to_sheet :: "sourced_sheet \<Rightarrow> alkane_id \<Rightarrow> source_amounts \<Rightarrow> sourced_sheet" where
  "add_sources_to_sheet sh t ss =
     (if ss = [] then sh
      else let entry = foldl (\<lambda>acc (s, a). add_source_amount acc s a) (look sh t) ss in
        if entry = [] then AList.delete t sh else AList.update t entry sh)"

definition merge_sourced_sheet :: "sourced_sheet \<Rightarrow> sourced_sheet \<Rightarrow> sourced_sheet" where
  "merge_sourced_sheet target src = foldl (\<lambda>m (t, ss). add_sources_to_sheet m t ss) target (entries src)"

definition add_contract_token_amount :: "contract_amounts \<Rightarrow> alkane_id \<Rightarrow> alkane_id \<Rightarrow> u128 \<Rightarrow> contract_amounts" where
  "add_contract_token_amount m c t a = (if a = 0 then m else AList.update (c, t) (saturating_add (bal m (c, t)) a) m)"

definition add_address_contract_amount :: "address_amounts \<Rightarrow> string \<Rightarrow> alkane_id \<Rightarrow> alkane_id \<Rightarrow> u128 \<Rightarrow> address_amounts" where
  "add_address_contract_amount m addr c t a =
     (if a = 0 then m else AList.update addr (add_contract_token_amount (look m addr) c t a) m)"

definition merge_address_contract_amounts :: "address_amounts \<Rightarrow> address_amounts \<Rightarrow> address_amounts" where
  "merge_address_contract_amounts target src =
     foldl (\<lambda>m (addr, es). AList.update addr (foldl (\<lambda>m ((c, t), a). add_contract_token_amount m c t a) (look m addr) es) m) target src"

definition add_contract_receives_from_sources :: "contract_amounts \<Rightarrow> alkane_id \<Rightarrow> source_amounts \<Rightarrow> contract_amounts" where
  "add_contract_receives_from_sources m t ss =
     foldl (\<lambda>m (s, a). case s of Contract c \<Rightarrow> add_contract_token_amount m c t a | Address _ \<Rightarrow> m) m ss"

text \<open>The loop of \<open>take_sources_from_amounts\<close>: the sources that stay and the ones taken.\<close>

function take_loop :: "source_amounts \<Rightarrow> u128 \<Rightarrow> source_amounts \<Rightarrow> source_amounts \<times> source_amounts" where
  "take_loop ss remaining taken =
     (if remaining = 0 then (ss, taken)
      else case ss of
        [] \<Rightarrow> (ss, taken)
      | (s, available) # rest \<Rightarrow>
          let n = min available remaining; left = saturating_sub available n in
          take_loop (if left = 0 then rest else (s, left) # rest) (saturating_sub remaining n) (add_source_amount taken s n))"
  by auto
termination
  by (relation "measure (\<lambda>(ss, remaining, _). length ss + remaining)") (auto simp: saturating_sub_def)

definition take_sources_from_amounts :: "source_amounts \<Rightarrow> u128 \<Rightarrow> source_amounts \<times> source_amounts" where
  "take_sources_from_amounts ss a = take_loop ss a []"

definition take_sources_from_sheet :: "sourced_sheet \<Rightarrow> alkane_id \<Rightarrow> u128 \<Rightarrow> sourced_sheet \<times> source_amounts" where
  "take_sources_from_sheet sh t a =
     (if a = 0 then (sh, [])
      else case map_of sh t of
        None \<Rightarrow> (sh, [])
      | Some ss \<Rightarrow> let r = take_sources_from_amounts ss a in
          (if fst r = [] then AList.delete t sh else AList.update t (fst r) sh, snd r))"

definition take_sources_for_delta :: "sourced_sheet \<Rightarrow> sheet \<Rightarrow> sourced_sheet \<times> sourced_sheet" where
  "take_sources_for_delta sh delta =
     foldl (\<lambda>(sh, out) (t, a). let r = take_sources_from_sheet sh t a in (fst r, add_sources_to_sheet out t (snd r))) (sh, []) (entries delta)"

text \<open>What is not covered by sources counts as the contract's own.\<close>

definition top_up :: "alkane_id \<Rightarrow> u128 \<Rightarrow> source_amounts \<Rightarrow> source_amounts" where
  "top_up owner a ss = (let sourced = source_amounts_total ss in
     if sourced < a then add_source_amount ss (Contract owner) (a - sourced) else ss)"

declare take_loop.simps [simp del]

section \<open>The flow of sources through a trace\<close>

datatype frame_kind = Normal | Delegate | Static

record flow_frame =
  f_kind :: frame_kind
  f_owner :: alkane_id
  f_parent :: "nat option"
  f_incoming :: sourced_sheet
  f_held :: sourced_sheet

record flow =
  frames :: "flow_frame list"
  top_sources :: sourced_sheet
  flow_returned :: sourced_sheet
  flow_sends :: address_amounts

definition to_ascii_lowercase :: "string \<Rightarrow> string" where
  "to_ascii_lowercase s = map (\<lambda>c. let n = of_char c :: nat in if 65 \<le> n \<and> n \<le> 90 then char_of (n + 32) else c) s"

definition kind_of_call :: "string \<Rightarrow> frame_kind" where
  "kind_of_call s = (let l = to_ascii_lowercase s in
     if l = ''delegatecall'' then Delegate else if l = ''staticcall'' then Static else Normal)"

definition nearest_normal_index :: "flow_frame list \<Rightarrow> nat option" where
  "nearest_normal_index fs = (case filter (\<lambda>i. f_kind (fs ! i) = Normal) [0..<length fs] of [] \<Rightarrow> None | js \<Rightarrow> Some (last js))"

definition put_held :: "nat \<Rightarrow> sourced_sheet \<Rightarrow> flow \<Rightarrow> flow" where
  "put_held p sh w = w\<lparr>frames := (frames w)[p := (frames w ! p)\<lparr>f_held := sh\<rparr>]\<rparr>"

text \<open>An amount sent along with a call comes from what the calling contract holds, or from the transaction.\<close>

definition pull_incoming :: "nat option \<Rightarrow> flow \<times> sourced_sheet \<Rightarrow> alkane_id \<times> u128 \<Rightarrow> flow \<times> sourced_sheet" where
  "pull_incoming parent wi e = (case (wi, e, parent) of
       ((w, inc), (t, a), Some p) \<Rightarrow>
         let r = take_sources_from_sheet (f_held (frames w ! p)) t a in
         (put_held p (fst r) w, add_sources_to_sheet inc t (top_up (f_owner (frames w ! p)) a (snd r)))
     | ((w, inc), (t, a), None) \<Rightarrow>
         let r = take_sources_from_sheet (top_sources w) t a in
         (w\<lparr>top_sources := fst r\<rparr>, add_sources_to_sheet inc t (snd r)))"

definition flow_invoke :: "invoke_data \<Rightarrow> flow \<Rightarrow> flow option" where
  "flow_invoke call w = (case parse_short_id (myself (invoke_ctx call)) of
       None \<Rightarrow> None
     | Some owner \<Rightarrow>
         let kind = (if list_ex (\<lambda>f. f_kind f = Static) (frames w) then Static else kind_of_call (call_type call));
             parent = nearest_normal_index (frames w);
             r = (if kind = Static then (w, [])
                  else foldl (pull_incoming parent) (w, []) (entries (transfers_to_sheet (incoming_alkanes (invoke_ctx call))))) in
         Some ((fst r)\<lparr>frames := frames (fst r) @ [\<lparr>f_kind = kind, f_owner = owner, f_parent = parent,
           f_incoming = snd r, f_held = snd r\<rparr>]\<rparr>))"

definition pay_out :: "alkane_id \<Rightarrow> sourced_sheet \<times> sourced_sheet \<Rightarrow> alkane_id \<times> u128 \<Rightarrow> sourced_sheet \<times> sourced_sheet" where
  "pay_out owner hr e = (let r = take_sources_from_sheet (fst hr) (fst e) (snd e) in
     (fst r, add_sources_to_sheet (snd hr) (fst e) (top_up owner (snd e) (snd r))))"

definition record_sends :: "alkane_id \<Rightarrow> sourced_sheet \<Rightarrow> address_amounts \<Rightarrow> address_amounts" where
  "record_sends owner held sends =
     foldl (\<lambda>m (t, ss). foldl (\<lambda>m (s, a). case s of Address addr \<Rightarrow> add_address_contract_amount m addr owner t a | Contract _ \<Rightarrow> m) m ss)
       sends (entries held)"

definition flow_return :: "return_data \<Rightarrow> flow \<Rightarrow> flow option" where
  "flow_return rd w =
     (if frames w = [] then None
      else let f = last (frames w); w = w\<lparr>frames := butlast (frames w)\<rparr> in
      Some (if f_kind f = Static then w
        else if status rd = Failure then (case f_parent f of
            Some p \<Rightarrow> put_held p (merge_sourced_sheet (f_held (frames w ! p)) (f_incoming f)) w
          | None \<Rightarrow> w)
        else
          let r = foldl (pay_out (f_owner f)) (f_held f, []) (entries (transfers_to_sheet (alkanes (response rd))));
              w = w\<lparr>flow_sends := record_sends (f_owner f) (fst r) (flow_sends w)\<rparr> in
          case f_parent f of
            Some p \<Rightarrow> put_held p (merge_sourced_sheet (f_held (frames w ! p)) (snd r)) w
          | None \<Rightarrow> w\<lparr>flow_returned := merge_sourced_sheet (flow_returned w) (snd r)\<rparr>))"

fun flow_run :: "trace_event list \<Rightarrow> flow \<Rightarrow> flow option" where
  "flow_run [] w = Some w"
| "flow_run (e # es) w = Option.bind (case e of Invoke i \<Rightarrow> flow_invoke i w | Return r \<Rightarrow> flow_return r w | Create _ \<Rightarrow> Some w) (flow_run es)"

definition trace_source_flow :: "decoders \<Rightarrow> trace \<Rightarrow> sourced_sheet \<Rightarrow> host_values \<Rightarrow> flow option" where
  "trace_source_flow D t inc h =
     Option.bind (clean_espo_sandshrew_like_trace D t h) (\<lambda>t.
     Option.bind (flow_run (events t) \<lparr>frames = [], top_sources = inc, flow_returned = [], flow_sends = []\<rparr>) (\<lambda>w.
     if frames w \<noteq> [] then None else Some w))"

fun first_owner :: "trace_event list \<Rightarrow> alkane_id option" where
  "first_owner [] = None"
| "first_owner (Invoke i # es) = (case parse_short_id (myself (invoke_ctx i)) of Some owner \<Rightarrow> Some owner | None \<Rightarrow> first_owner es)"
| "first_owner (_ # es) = first_owner es"

definition trace_root_owner :: "decoders \<Rightarrow> trace \<Rightarrow> host_values \<Rightarrow> alkane_id option" where
  "trace_root_owner D t h = first_owner (case clean_espo_sandshrew_like_trace D t h of Some t \<Rightarrow> events t | None \<Rightarrow> events t)"

definition final_trace_return_sources :: "alkane_id \<Rightarrow> sourced_sheet \<Rightarrow> sheet \<Rightarrow> sourced_sheet" where
  "final_trace_return_sources owner inc net_out = snd (foldl (pay_out owner) (inc, []) (filter (\<lambda>e. snd e \<noteq> 0) (entries net_out)))"

end
