(* ===== verification/Transfers.thy ===== *)
theory Transfers
  imports Sources
begin

text \<open>
  How the tokens that enter a transaction are allocated to its outputs: \<open>apply_transfers_multi_attributed\<close> and the
  projections built on it in \<^verbatim>\<open>src/modules/essentials/utils/balances/lib.rs\<close>.

  The protostones of a transaction are processed in order. Each has a sheet of tokens, which its trace or a
  contract projector changes, its edicts distribute and its pointer sends on, to outputs, to all outputs, or to
  the shadow output of another protostone.
\<close>

section \<open>Transactions\<close>

record edict =
  ed_block :: u128
  ed_tx :: u128
  ed_amount :: u128
  ed_output :: u128

record full_stone = protostone +
  edicts :: "edict list"
  pointer :: "u32 option"
  refund :: "u32 option"

record espo_trace =
  sandshrew_trace :: trace
  et_vout :: u32

record balance_entry =
  be_alkane :: alkane_id
  be_amount :: u128

definition ALKANES_V217_EDICT_FIX_HEIGHT :: nat where
  "ALKANES_V217_EDICT_FIX_HEIGHT = 943500"

definition is_op_return :: "bytes \<Rightarrow> bool" where
  "is_op_return spk = (spk \<noteq> [] \<and> hd spk = 0x6a)"

definition tx_has_op_return :: "tx_out list \<Rightarrow> bool" where
  "tx_has_op_return outs = list_ex (\<lambda>out. is_op_return (script_pubkey out)) outs"

definition is_valid_spend_vout :: "tx_out list \<Rightarrow> u32 \<Rightarrow> bool" where
  "is_valid_spend_vout outs vout = (unat vout < length outs \<and> \<not> is_op_return (script_pubkey (outs ! unat vout)))"

definition u128_to_u32 :: "u128 \<Rightarrow> u32 option" where
  "u128_to_u32 v = (if v < 2 ^ 32 then Some (word_of_nat v) else None)"

definition schema_id_from_parts :: "u128 \<Rightarrow> u128 \<Rightarrow> alkane_id option" where
  "schema_id_from_parts block tx = Option.bind (u128_to_u32 block) (\<lambda>b.
     if tx < 2 ^ 64 then Some \<lparr>id_block = b, id_tx = word_of_nat tx\<rparr> else None)"

text \<open>The indices of a transaction: its spendable outputs, all outputs together, and the shadow outputs of the protostones.\<close>

record layout =
  tx_outputs :: "tx_out list"
  spendable_vouts :: "u32 list"
  n_outputs :: u32
  shadow_base :: u32
  shadow_end :: u32

definition spendables :: "tx_out list \<Rightarrow> u32 list" where
  "spendables outs = map word_of_nat (filter (\<lambda>i. \<not> is_op_return (script_pubkey (outs ! i))) [0..<length outs])"

definition layout_of :: "tx_out list \<Rightarrow> nat \<Rightarrow> layout" where
  "layout_of outs stones =
     (let n = word_of_nat (length outs); base = (if n = - 1 then n else n + 1) in
      \<lparr>tx_outputs = outs, spendable_vouts = spendables outs, n_outputs = n, shadow_base = base,
       shadow_end = base + word_of_nat stones - 1\<rparr>)"

definition trace_by_shadow :: "layout \<Rightarrow> espo_trace list \<Rightarrow> (u32 \<times> trace) list" where
  "trace_by_shadow L ts = foldl (\<lambda>m t.
     let vout = (case first_invoke (events (sandshrew_trace t)) of Some i \<Rightarrow> ctx_vout (invoke_ctx i) | None \<Rightarrow> et_vout t) in
     if shadow_base L \<le> vout \<and> vout \<le> shadow_end L then AList.update vout (sandshrew_trace t) m else m) [] ts"

text \<open>The loop that adds all amounts but zeros to a sheet.\<close>

definition credit_all :: "sheet \<Rightarrow> sheet \<Rightarrow> sheet" where
  "credit_all es m = fold credit (filter (\<lambda>e. snd e \<noteq> 0) es) m"

section \<open>Routing\<close>

record routing =
  out_map :: "(u32 \<times> balance_entry list) list"
  receives :: "(u32 \<times> contract_amounts) list"
  incoming_shadow :: "sheet list"
  incoming_shadow_sources :: "sourced_sheet list"

definition balances_of :: "sheet \<Rightarrow> balance_entry list" where
  "balances_of m = map (\<lambda>(k, a). \<lparr>be_alkane = k, be_amount = a\<rparr>) (filter (\<lambda>e. snd e > 0) (entries m))"

definition push_balances :: "u32 \<Rightarrow> balance_entry list \<Rightarrow> (u32 \<times> balance_entry list) list \<Rightarrow> (u32 \<times> balance_entry list) list" where
  "push_balances v es m = AList.update v (look m v @ es) m"

definition push_sources_to_vout :: "u32 \<Rightarrow> sourced_sheet \<Rightarrow> (u32 \<times> contract_amounts) list \<Rightarrow> (u32 \<times> contract_amounts) list" where
  "push_sources_to_vout v ss m =
     foldl (\<lambda>m (t, srcs). AList.update v (add_contract_receives_from_sources (look m v) t srcs) m) m (entries ss)"

definition push_to_vout :: "u32 \<Rightarrow> sheet \<Rightarrow> sourced_sheet \<Rightarrow> routing \<Rightarrow> routing" where
  "push_to_vout v delta ss R = R\<lparr>out_map := (if delta = [] then out_map R else push_balances v (balances_of delta) (out_map R)),
     receives := push_sources_to_vout v ss (receives R)\<rparr>"

text \<open>One output receives an amount of one token, with the sources taken from the given sheet.\<close>

definition give :: "u32 \<Rightarrow> alkane_id \<Rightarrow> u128 \<Rightarrow> sourced_sheet \<times> routing \<Rightarrow> sourced_sheet \<times> routing" where
  "give v t a sr = (let r = take_sources_from_sheet (fst sr) t a in
     (fst r, (snd sr)\<lparr>out_map := push_balances v [\<lparr>be_alkane = t, be_amount = a\<rparr>] (out_map (snd sr)),
       receives := push_sources_to_vout v (add_sources_to_sheet [] t (snd r)) (receives (snd sr))\<rparr>))"

definition split_evenly :: "u32 list \<Rightarrow> alkane_id \<times> u128 \<Rightarrow> sourced_sheet \<times> routing \<Rightarrow> sourced_sheet \<times> routing" where
  "split_evenly vs e sr =
     (if snd e = 0 then sr
      else let m = length vs; per = snd e div m; extra = snd e mod m in
        foldl (\<lambda>sr (i, v). let a = (if i < extra then saturating_add per 1 else per) in
          if a = 0 then sr else give v (fst e) a sr) sr (zip [0..<m] vs))"

definition route_delta :: "layout \<Rightarrow> u32 \<Rightarrow> sheet \<Rightarrow> sourced_sheet \<Rightarrow> routing \<Rightarrow> routing" where
  "route_delta L target delta ss R =
     (if delta = [] then R
      else if target = n_outputs L then
        (if spendable_vouts L = [] then R
         else snd (foldl (\<lambda>sr e. split_evenly (spendable_vouts L) e sr) (ss, R) (entries delta)))
      else if target < n_outputs L then
        (if is_valid_spend_vout (tx_outputs L) target then push_to_vout target delta ss R else R)
      else if shadow_base L \<le> target \<and> target \<le> shadow_end L then
        let idx = unat (target - shadow_base L) in
        R\<lparr>incoming_shadow := (incoming_shadow R)[idx := credit_all (entries delta) (incoming_shadow R ! idx)],
          incoming_shadow_sources := (incoming_shadow_sources R)[idx := merge_sourced_sheet (incoming_shadow_sources R ! idx) ss]\<rparr>
      else R)"

section \<open>Edicts\<close>

text \<open>The outputs get up to \<open>cap\<close> each until nothing remains; the result includes the amount that was used.\<close>

fun capped_walk :: "u128 \<Rightarrow> alkane_id \<Rightarrow> u32 list \<Rightarrow> u128 \<Rightarrow> u128 \<Rightarrow> sourced_sheet \<times> routing \<Rightarrow> u128 \<times> sourced_sheet \<times> routing" where
  "capped_walk cap t [] remaining used sr = (used, sr)"
| "capped_walk cap t (v # vs) remaining used sr =
     (if remaining = 0 then (used, sr)
      else let a = min remaining cap in
        if a = 0 then (used, sr)
        else capped_walk cap t vs (saturating_sub remaining a) (saturating_add used a) (give v t a sr))"

text \<open>
  Before version 2.1.7 every output took its share, and the share of an \<open>OP_RETURN\<close> output was deferred to a
  later spendable one.
\<close>

record edict_walk =
  w_used :: u128
  w_deferred :: "(u128 \<times> sourced_sheet) list"
  w_last :: "nat option"

fun legacy_walk :: "u128 \<Rightarrow> alkane_id \<Rightarrow> nat \<Rightarrow> tx_out list \<Rightarrow> u128 \<Rightarrow> edict_walk \<Rightarrow> sourced_sheet \<times> routing \<Rightarrow> edict_walk \<times> sourced_sheet \<times> routing" where
  "legacy_walk cap t idx [] remaining w sr = (w, sr)"
| "legacy_walk cap t idx (out # outs) remaining w sr =
     (if remaining = 0 then (w, sr)
      else let a = min remaining cap in
        if a = 0 then (w, sr)
        else
          let left = saturating_sub remaining a; w = w\<lparr>w_used := saturating_add (w_used w) a, w_last := Some idx\<rparr> in
          if is_op_return (script_pubkey out) then
            let r = take_sources_from_sheet (fst sr) t a in
            legacy_walk cap t (idx + 1) outs left (w\<lparr>w_deferred := w_deferred w @ [(a, add_sources_to_sheet [] t (snd r))]\<rparr>) (fst r, snd sr)
          else legacy_walk cap t (idx + 1) outs left w (give (word_of_nat idx) t a sr))"

definition next_spendable :: "tx_out list \<Rightarrow> nat \<Rightarrow> nat option" where
  "next_spendable outs start = List.find (\<lambda>i. \<not> is_op_return (script_pubkey (outs ! i))) [start..<length outs]"

fun deferred_walk :: "tx_out list \<Rightarrow> alkane_id \<Rightarrow> nat \<Rightarrow> (u128 \<times> sourced_sheet) list \<Rightarrow> routing \<Rightarrow> routing" where
  "deferred_walk outs t start [] R = R"
| "deferred_walk outs t start ((a, ss) # ds) R = (case next_spendable outs start of
       None \<Rightarrow> deferred_walk outs t start ds R
     | Some i \<Rightarrow> deferred_walk outs t (i + 1) ds
         (R\<lparr>out_map := push_balances (word_of_nat i) [\<lparr>be_alkane = t, be_amount = a\<rparr>] (out_map R),
            receives := push_sources_to_vout (word_of_nat i) ss (receives R)\<rparr>))"

text \<open>The amount of a token on a sheet is lowered, and its entry dropped at zero.\<close>

definition debit :: "alkane_id \<Rightarrow> u128 \<Rightarrow> sheet \<Rightarrow> sheet" where
  "debit t a m = (let left = saturating_sub (bal m t) a in if left = 0 then AList.delete t m else AList.update t left m)"

definition multicast_edict :: "layout \<Rightarrow> nat \<Rightarrow> alkane_id \<Rightarrow> u128 \<Rightarrow> sheet \<times> sourced_sheet \<times> routing \<Rightarrow> sheet \<times> sourced_sheet \<times> routing" where
  "multicast_edict L height t amt st = (case st of (sheet, ss, R) \<Rightarrow>
     if spendable_vouts L = [] then st
     else let have' = bal sheet t in
     if have' = 0 then (AList.update t 0 sheet, ss, R)
     else if amt = 0 then
       let r = take_sources_from_sheet ss t have' in
       (AList.delete t sheet, fst r, route_delta L (n_outputs L) [(t, have')] (add_sources_to_sheet [] t (snd r)) R)
     else if height < ALKANES_V217_EDICT_FIX_HEIGHT \<and> have' \<le> saturating_mul (length (spendable_vouts L)) amt then
       let r = legacy_walk amt t 0 (tx_outputs L) have' \<lparr>w_used = 0, w_deferred = [], w_last = None\<rparr> (ss, R);
           start = (case w_last (fst r) of Some i \<Rightarrow> i + 1 | None \<Rightarrow> 0) in
       (debit t (w_used (fst r)) sheet, fst (snd r), deferred_walk (tx_outputs L) t start (w_deferred (fst r)) (snd (snd r)))
     else
       let r = capped_walk amt t (spendable_vouts L) have' 0 (ss, R) in
       (debit t (fst r) sheet, snd r))"

definition apply_single_edict :: "layout \<Rightarrow> nat \<Rightarrow> edict \<Rightarrow> sheet \<times> sourced_sheet \<times> routing \<Rightarrow> sheet \<times> sourced_sheet \<times> routing" where
  "apply_single_edict L height ed st =
     (if ed_block ed = 0 \<and> ed_tx ed > 0 then st
      else case (u128_to_u32 (ed_output ed), schema_id_from_parts (ed_block ed) (ed_tx ed)) of
        (Some out_idx, Some t) \<Rightarrow>
          (if out_idx = n_outputs L then multicast_edict L height t (ed_amount ed) st
           else case st of (sheet, ss, R) \<Rightarrow>
             let have' = bal sheet t; need = (if ed_amount ed = 0 then have' else min (ed_amount ed) have') in
             if need = 0 then st
             else let r = take_sources_from_sheet ss t need in
               (debit t need sheet, fst r, route_delta L out_idx [(t, need)] (add_sources_to_sheet [] t (snd r)) R))
      | _ \<Rightarrow> st)"

section \<open>Protostones\<close>

text \<open>The contract projector, the trait \<open>MempoolContractProjector\<close>.\<close>

record 's projector =
  project_call :: "call_context \<Rightarrow> ('s, sheet) rule"
  project_inputs :: "call_context \<Rightarrow> ('s, sheet) rule"

definition run_projector :: "(call_context \<Rightarrow> ('s, sheet) rule) option \<Rightarrow> call_context \<Rightarrow> 's \<Rightarrow> (sheet option \<times> 's) option" where
  "run_projector p ctx s = (case p of
       None \<Rightarrow> Some (None, s)
     | Some f \<Rightarrow> (case f ctx s of
         None \<Rightarrow> None
       | Some (Inl _, s') \<Rightarrow> Some (None, s')
       | Some (Inr out, s') \<Rightarrow> Some (Some out, s')))"

record application =
  seed_unalloc :: sheet
  seed_sources :: sourced_sheet
  routes :: routing
  send_contracts :: address_amounts

definition drain_all :: "sheet \<Rightarrow> sheet" where
  "drain_all m = credit_all m []"

definition context_of :: "layout \<Rightarrow> full_stone \<Rightarrow> sheet \<Rightarrow> call_context" where
  "context_of L ps sheet = \<lparr>outputs = tx_outputs L, stone = protostone.truncate ps, incoming = sheet\<rparr>"

text \<open>What the trace of a protostone takes in and gives out; a reverted trace without inputs counts as none.\<close>

definition stone_nets :: "trace option \<Rightarrow> sheet option \<times> sheet option \<times> trace_type" where
  "stone_nets t = (case t of
       None \<Rightarrow> (None, None, NOTRACE)
     | Some t \<Rightarrow> (case compute_nets t of (net_in, net_out, st) \<Rightarrow>
         (net_in, net_out, if st = REVERT \<and> (case net_in of None \<Rightarrow> True | Some m \<Rightarrow> m = []) then NOTRACE else st)))"

definition take_trace_inputs :: "sheet \<Rightarrow> sheet \<times> sourced_sheet \<Rightarrow> sheet \<times> sourced_sheet \<times> sourced_sheet" where
  "take_trace_inputs net_in st =
     foldl (\<lambda>(sheet, ss, tin) (t, a). let r = take_sources_from_sheet ss t a in (debit t a sheet, fst r, add_sources_to_sheet tin t (snd r)))
       (fst st, snd st, []) (filter (\<lambda>e. snd e \<noteq> 0) (entries net_in))"

definition settle_success ::
  "decoders \<Rightarrow> host_values \<Rightarrow> trace option \<Rightarrow> sheet option \<Rightarrow> sheet option \<Rightarrow> sheet \<times> sourced_sheet \<Rightarrow> address_amounts
     \<Rightarrow> (sheet \<times> sourced_sheet) \<times> address_amounts" where
  "settle_success D h t net_in net_out st sends =
     (let (sheet, ss, tin) = (case net_in of Some m \<Rightarrow> take_trace_inputs m st | None \<Rightarrow> (fst st, snd st, []));
          sends = (case Option.bind t (\<lambda>t. trace_source_flow D t tin h) of
              Some w \<Rightarrow> merge_address_contract_amounts sends (flow_sends w) | None \<Rightarrow> sends);
          ss = (case (Option.bind t (\<lambda>t. trace_root_owner D t h), net_out) of
              (Some owner, Some m) \<Rightarrow> merge_sourced_sheet ss (final_trace_return_sources owner tin m) | _ \<Rightarrow> ss);
          sheet = (case net_out of Some m \<Rightarrow> credit_all (entries m) sheet | None \<Rightarrow> sheet) in
      ((sheet, ss), sends))"

definition distribute :: "layout \<Rightarrow> nat \<Rightarrow> full_stone \<Rightarrow> sheet \<times> sourced_sheet \<Rightarrow> routing \<Rightarrow> routing" where
  "distribute L height ps st R = (case foldl (\<lambda>st ed. apply_single_edict L height ed st) (fst st, snd st, R) (edicts ps) of
     (sheet, ss, R) \<Rightarrow>
       if sheet = [] then R
       else let delta = snd (take_sources_for_delta ss sheet) in
         case pointer ps of
           Some ptr \<Rightarrow> route_delta L ptr sheet delta R
         | None \<Rightarrow> (case spendable_vouts L of [] \<Rightarrow> R | v # _ \<Rightarrow> push_to_vout v sheet delta R))"

text \<open>The tokens of the inputs enter the sheet of the first protostone.\<close>

definition with_seed :: "nat \<Rightarrow> application \<Rightarrow> sheet \<Rightarrow> sheet" where
  "with_seed i A sheet = (if i = 0 then credit_all (entries (drain_all (seed_unalloc A))) sheet else sheet)"

definition with_seed_sources :: "nat \<Rightarrow> application \<Rightarrow> sourced_sheet \<Rightarrow> sourced_sheet" where
  "with_seed_sources i A ss = (if i = 0 then merge_sourced_sheet ss (seed_sources A) else ss)"

definition take_seed_sources :: "nat \<Rightarrow> application \<Rightarrow> application" where
  "take_seed_sources i A = (if i = 0 then A\<lparr>seed_sources := []\<rparr> else A)"

definition take_seed :: "nat \<Rightarrow> application \<Rightarrow> application" where
  "take_seed i A = (if i = 0 then A\<lparr>seed_unalloc := [], seed_sources := []\<rparr> else A)"

definition apply_stone ::
  "decoders \<Rightarrow> host_values \<Rightarrow> layout \<Rightarrow> nat \<Rightarrow> (u32 \<times> trace) list \<Rightarrow> 's projector option \<Rightarrow> nat \<Rightarrow> full_stone
     \<Rightarrow> application \<times> 's \<Rightarrow> (application \<times> 's) option" where
  "apply_stone D h L height ts P i ps As = (case As of (A, s) \<Rightarrow>
     let R = routes A;
         sheet = credit_all (entries (incoming_shadow R ! i)) [];
         ss = merge_sourced_sheet [] (incoming_shadow_sources R ! i);
         R = R\<lparr>incoming_shadow := (incoming_shadow R)[i := []], incoming_shadow_sources := (incoming_shadow_sources R)[i := []]\<rparr>;
         t = map_of ts (shadow_base L + word_of_nat i);
         (net_in, net_out, st) = stone_nets t in
     Option.bind (if st = REVERT then Some (None, s)
       else run_projector (map_option project_inputs P) (context_of L ps (with_seed i A sheet)) s) (\<lambda>(input_projection, s).
     case input_projection of
       Some out \<Rightarrow> Some ((take_seed i A)\<lparr>routes := distribute L height ps (out, with_seed_sources i A ss) R\<rparr>, s)
     | None \<Rightarrow> (case st of
         SUCCESS \<Rightarrow>
           let r = settle_success D h t net_in net_out (sheet, with_seed_sources i A ss) (send_contracts A) in
           Some ((take_seed_sources i A)\<lparr>routes := distribute L height ps (fst r) R, send_contracts := snd r\<rparr>, s)
       | NOTRACE \<Rightarrow>
           let sheet = with_seed i A sheet in
           Option.bind (run_projector (map_option project_call P) (context_of L ps sheet) s) (\<lambda>(projection, s).
           Some ((take_seed i A)\<lparr>routes := distribute L height ps
             (case projection of Some out \<Rightarrow> out | None \<Rightarrow> sheet, with_seed_sources i A ss) R\<rparr>, s))
       | REVERT \<Rightarrow>
           Some ((take_seed_sources i A)\<lparr>routes := (case (net_in, refund ps) of
             (Some m, Some ptr) \<Rightarrow> route_delta L ptr m (snd (take_sources_for_delta (with_seed_sources i A ss) m)) R
           | _ \<Rightarrow> R)\<rparr>, s))))"

fun apply_stones ::
  "decoders \<Rightarrow> host_values \<Rightarrow> layout \<Rightarrow> nat \<Rightarrow> (u32 \<times> trace) list \<Rightarrow> 's projector option \<Rightarrow> nat \<Rightarrow> full_stone list
     \<Rightarrow> application \<times> 's \<Rightarrow> (application \<times> 's) option" where
  "apply_stones D h L height ts P i [] As = Some As"
| "apply_stones D h L height ts P i (ps # pss) As =
     Option.bind (apply_stone D h L height ts P i ps As) (apply_stones D h L height ts P (i + 1) pss)"

definition no_routes :: "nat \<Rightarrow> routing" where
  "no_routes n = \<lparr>out_map = [], receives = [], incoming_shadow = replicate n [], incoming_shadow_sources = replicate n []\<rparr>"

definition apply_transfers_multi_attributed ::
  "decoders \<Rightarrow> tx_out list \<Rightarrow> full_stone list \<Rightarrow> espo_trace list \<Rightarrow> nat \<Rightarrow> host_values \<Rightarrow> sheet \<Rightarrow> sourced_sheet
     \<Rightarrow> 's projector option \<Rightarrow> 's \<Rightarrow> (application \<times> 's) option" where
  "apply_transfers_multi_attributed D outs stones traces height h seed sources P s =
     (let L = layout_of outs (length stones) in
      apply_stones D h L height (trace_by_shadow L traces) P 0 stones
        (\<lparr>seed_unalloc = seed, seed_sources = sources, routes = no_routes (length stones), send_contracts = []\<rparr>, s))"

definition apply_transfers_multi ::
  "decoders \<Rightarrow> tx_out list \<Rightarrow> full_stone list \<Rightarrow> espo_trace list \<Rightarrow> nat \<Rightarrow> sheet
     \<Rightarrow> 's projector option \<Rightarrow> 's \<Rightarrow> ((u32 \<times> balance_entry list) list \<times> 's) option" where
  "apply_transfers_multi D outs stones traces height seed P s =
     map_option (\<lambda>(A, s). (out_map (routes A), s))
       (apply_transfers_multi_attributed D outs stones traces height ([], [], [], []) seed [] P s)"

text \<open>The projection of one transaction; \<open>parse\<close> stands for the decoders of runestones and protostones.\<close>

definition project_tx_output_balances_from_traces_with_projector ::
  "decoders \<Rightarrow> (tx_out list \<Rightarrow> full_stone list option) \<Rightarrow> tx_out list \<Rightarrow> espo_trace list \<Rightarrow> balance_entry list
     \<Rightarrow> 's projector option \<Rightarrow> 's \<Rightarrow> ((u32 \<times> balance_entry list) list \<times> 's) option" where
  "project_tx_output_balances_from_traces_with_projector D parse outs traces ins P s =
     (if \<not> tx_has_op_return outs then Some ([], s)
      else case parse outs of
        None \<Rightarrow> Some ([], s)
      | Some stones \<Rightarrow>
          if stones = [] then Some ([], s)
          else apply_transfers_multi D outs stones traces ALKANES_V217_EDICT_FIX_HEIGHT
            (fold (\<lambda>e. credit (be_alkane e, be_amount e)) (filter (\<lambda>e. be_amount e > 0) ins) []) P s)"

end
