(* ===== verification/Transfer_Accounts.thy ===== *)
theory Transfer_Accounts
  imports Transfers Fire_Accounts
begin

text \<open>
  The accounts of the allocation of tokens to outputs: what every step of the routing adds to the outputs and to
  the shadow outputs, token by token, and that only spendable outputs receive anything.
\<close>

section \<open>Sheets\<close>

definition sum_of :: "(alkane_id \<times> nat) list \<Rightarrow> alkane_id \<Rightarrow> nat" where
  "sum_of es t = sum_list (map snd (filter (\<lambda>e. fst e = t) es))"

text \<open>A sheet is a map into \<open>u128\<close>.\<close>

definition sheet_ok :: "sheet \<Rightarrow> bool" where
  "sheet_ok m = (distinct (map fst m) \<and> list_all (\<lambda>e. snd e \<le> U128_MAX) m)"

lemma sum_of_simps [simp]:
  "sum_of [] t = 0" "sum_of (e # es) t = (if fst e = t then snd e else 0) + sum_of es t"
  "sum_of (xs @ ys) t = sum_of xs t + sum_of ys t"
  by (simp_all add: sum_of_def)

lemma sum_of_nonzero [simp]: "sum_of (filter (\<lambda>e. 0 < snd e) es) t = sum_of es t"
  by (induction es) auto

lemma mset_entries [simp]: "mset (entries m) = mset m"
  by (simp add: entries_def)

lemma set_entries [simp]: "set (entries m) = set m"
  by (simp add: entries_def)

lemma distinct_entries [simp]: "distinct (map fst (entries m)) = distinct (map fst m)"
proof -
  have "mset (map fst (entries m)) = mset (map fst m)" by (simp del: mset_map add: mset_map [of fst])
  then show ?thesis by (rule mset_eq_imp_distinct_iff)
qed

lemma sum_of_mset: "sum_of xs t = sum_mset (image_mset snd (filter_mset (\<lambda>e. fst e = t) (mset xs)))"
  by (induction xs) auto

lemma sum_of_entries [simp]: "sum_of (entries m) t = sum_of m t"
  by (simp add: sum_of_mset)

lemma sum_of_bal: "distinct (map fst m) \<Longrightarrow> sum_of m t = bal m t"
  unfolding sum_of_def by (rule sum_distinct_bal)

lemma bal_le: "sheet_ok m \<Longrightarrow> bal m t \<le> U128_MAX"
  by (auto simp: sheet_ok_def bal_def list_all_iff split: option.splits dest: map_of_SomeD)

lemma sheet_ok_update [simp]:
  assumes "sheet_ok m" "a \<le> U128_MAX"
  shows "sheet_ok (AList.update t a m)"
proof -
  have "set (AList.update t a m) \<subseteq> insert (t, a) (set m)" by (induction m) auto
  then show ?thesis using assms by (fastforce simp: sheet_ok_def list_all_iff distinct_update)
qed

lemma sheet_ok_delete [simp]: "sheet_ok m \<Longrightarrow> sheet_ok (AList.delete t m)"
  by (auto simp: sheet_ok_def AList.delete_eq list_all_iff distinct_map_filter)

lemma sheet_ok_Nil [simp]: "sheet_ok []"
  by (simp add: sheet_ok_def)

lemma bal_Nil [simp]: "bal [] t = 0"
  by (simp add: bal_def)

lemma sheet_ok_credit_all [simp]: "sheet_ok m \<Longrightarrow> sheet_ok (credit_all es m)"
proof -
  have "sheet_ok m \<Longrightarrow> sheet_ok (fold credit es m)" for es by (induction es arbitrary: m) (simp_all add: credit_def)
  then show "sheet_ok m \<Longrightarrow> sheet_ok (credit_all es m)" by (simp add: credit_all_def)
qed

lemma bal_fold_credit: "bal m t \<le> U128_MAX \<Longrightarrow> bal (fold credit es m) t = min U128_MAX (bal m t + sum_of es t)"
  by (induction es arbitrary: m) (auto simp: credit_def bal_update saturating_add_def min_def)

lemma bal_credit_all: "bal m t \<le> U128_MAX \<Longrightarrow> bal (credit_all es m) t = min U128_MAX (bal m t + sum_of es t)"
  by (simp add: credit_all_def bal_fold_credit)

lemma sheet_ok_debit [simp]: "sheet_ok m \<Longrightarrow> sheet_ok (debit t a m)"
  using bal_le [of m t] by (auto simp: debit_def saturating_sub_def Let_def intro!: sheet_ok_update)

lemma bal_debit: "bal (debit t a m) x = (if x = t then bal m t - a else bal m x)"
  by (simp add: debit_def saturating_sub_def bal_update bal_delete Let_def)

lemma sheet_ok_single: "a \<le> U128_MAX \<Longrightarrow> sheet_ok [(t, a)]"
  by (simp add: sheet_ok_def)

lemma bal_single: "bal [(t, a)] x = (if x = t then a else 0)"
  by (simp add: bal_def)

section \<open>What is in flight\<close>

definition paid :: "balance_entry list \<Rightarrow> alkane_id \<Rightarrow> nat" where
  "paid es t = sum_of (map (\<lambda>e. (be_alkane e, be_amount e)) es) t"

definition allocated :: "(u32 \<times> balance_entry list) list \<Rightarrow> alkane_id \<Rightarrow> nat" where
  "allocated m t = sum_list (map (\<lambda>(v, es). paid es t) m)"

text \<open>On the outputs, and on the shadow outputs from the \<open>j\<close>-th on, which are still to be processed.\<close>

definition in_flight :: "nat \<Rightarrow> routing \<Rightarrow> alkane_id \<Rightarrow> nat" where
  "in_flight j R t = allocated (out_map R) t + sum_list (map (\<lambda>m. bal m t) (drop j (incoming_shadow R)))"

definition entry_ok :: "layout \<Rightarrow> u32 \<times> balance_entry list \<Rightarrow> bool" where
  "entry_ok L e = (fst e \<in> set (spendable_vouts L) \<and> list_all (\<lambda>b. 0 < be_amount b \<and> be_amount b \<le> U128_MAX) (snd e))"

definition routing_ok :: "layout \<Rightarrow> routing \<Rightarrow> bool" where
  "routing_ok L R = (list_all (entry_ok L) (out_map R) \<and> list_all sheet_ok (incoming_shadow R))"

lemma paid_simps [simp]:
  "paid [] t = 0" "paid (e # es) t = (if be_alkane e = t then be_amount e else 0) + paid es t" "paid (xs @ ys) t = paid xs t + paid ys t"
  by (simp_all add: paid_def)

lemma paid_balances_of: "sheet_ok m \<Longrightarrow> paid (balances_of m) t = bal m t"
proof -
  assume "sheet_ok m"
  have "map (\<lambda>e. (be_alkane e, be_amount e)) (balances_of m) = filter (\<lambda>e. snd e > 0) (entries m)"
    by (simp add: balances_of_def case_prod_beta o_def)
  then show ?thesis using \<open>sheet_ok m\<close> by (simp add: paid_def sum_of_bal sheet_ok_def)
qed

lemma allocated_push [simp]: "allocated (push_balances v es m) t = allocated m t + paid es t"
proof -
  have "sum_list (map (\<lambda>(v, es). paid es t) (AList.update v es' m)) + paid (look m v) t = sum_list (map (\<lambda>(v, es). paid es t) m) + paid es' t" for es'
    by (induction m) (auto simp: look_def)
  from this [of "look m v @ es"] show ?thesis by (simp add: allocated_def push_balances_def)
qed

lemma entries_ok_push:
  assumes "list_all (entry_ok L) m" "entry_ok L (v, es)"
  shows "list_all (entry_ok L) (push_balances v es m)"
proof -
  have "set (AList.update v x m) \<subseteq> insert (v, x) (set m)" for x by (induction m) auto
  moreover have "entry_ok L (v, look m v @ es)"
    using assms by (cases "map_of m v") (fastforce simp: entry_ok_def look_def list_all_iff dest: map_of_SomeD)+
  ultimately show ?thesis using assms(1) by (fastforce simp: push_balances_def list_all_iff)
qed

lemma balances_of_ok: "sheet_ok m \<Longrightarrow> v \<in> set (spendable_vouts L) \<Longrightarrow> entry_ok L (v, balances_of m)"
  by (auto simp: entry_ok_def balances_of_def sheet_ok_def list_all_iff)

section \<open>Routing\<close>

lemma give_flight: "in_flight j (snd (give v t a sr)) x = in_flight j (snd sr) x + (if x = t then a else 0)"
  by (simp add: give_def in_flight_def Let_def)

lemma give_ok:
  assumes "routing_ok L (snd sr)" "v \<in> set (spendable_vouts L)" "0 < a" "a \<le> U128_MAX"
  shows "routing_ok L (snd (give v t a sr))"
  using assms entries_ok_push [of L "out_map (snd sr)" v "[\<lparr>be_alkane = t, be_amount = a\<rparr>]"]
  by (simp add: routing_ok_def give_def Let_def entry_ok_def)

lemma give_shadow [simp]: "incoming_shadow (snd (give v t a sr)) = incoming_shadow (snd sr)"
  by (simp add: give_def Let_def)

lemma push_to_vout_flight: "sheet_ok delta \<Longrightarrow> in_flight j (push_to_vout v delta ss R) t = in_flight j R t + bal delta t"
  by (auto simp: push_to_vout_def in_flight_def paid_balances_of)

lemma push_to_vout_ok:
  "routing_ok L R \<Longrightarrow> sheet_ok delta \<Longrightarrow> v \<in> set (spendable_vouts L) \<Longrightarrow> routing_ok L (push_to_vout v delta ss R)"
  by (auto simp: push_to_vout_def routing_ok_def intro: entries_ok_push balances_of_ok)

text \<open>An even split hands out the whole amount.\<close>

definition share :: "nat \<Rightarrow> u128 \<Rightarrow> nat \<Rightarrow> u128" where
  "share m a i = (if i < a mod m then saturating_add (a div m) 1 else a div m)"

definition give_shares :: "(nat \<Rightarrow> u128) \<Rightarrow> alkane_id \<Rightarrow> (nat \<times> u32) list \<Rightarrow> sourced_sheet \<times> routing \<Rightarrow> sourced_sheet \<times> routing" where
  "give_shares f t ivs sr = foldl (\<lambda>sr (i, v). if f i = 0 then sr else give v t (f i) sr) sr ivs"

lemma split_evenly_shares:
  "split_evenly vs e sr = (if snd e = 0 then sr else give_shares (share (length vs) (snd e)) (fst e) (zip [0..<length vs] vs) sr)"
  unfolding split_evenly_def give_shares_def share_def Let_def ..

lemma give_shares_flight:
  "in_flight j (snd (give_shares f t ivs sr)) x = in_flight j (snd sr) x + (if x = t then sum_list (map (f \<circ> fst) ivs) else 0)"
  by (induction ivs arbitrary: sr) (auto simp: give_shares_def give_flight)

lemma give_shares_ok:
  "routing_ok L (snd sr) \<Longrightarrow> \<forall>i. f i \<le> U128_MAX \<Longrightarrow> snd ` set ivs \<subseteq> set (spendable_vouts L) \<Longrightarrow> routing_ok L (snd (give_shares f t ivs sr))"
proof (induction ivs arbitrary: sr)
  case (Cons iv ivs)
  then have "routing_ok L (snd (if f (fst iv) = 0 then sr else give (snd iv) t (f (fst iv)) sr))" by (auto intro: give_ok)
  from Cons.IH [OF this] Cons.prems show ?case by (simp add: give_shares_def case_prod_beta)
qed (simp add: give_shares_def)

lemma give_shares_shadow: "incoming_shadow (snd (give_shares f t ivs sr)) = incoming_shadow (snd sr)"
  by (induction ivs arbitrary: sr) (auto simp: give_shares_def)

lemma sum_shares:
  assumes "0 < m" "a \<le> U128_MAX"
  shows "sum_list (map (share m a) [0..<m]) = a"
proof -
  have "share m a i = a div m + (if i < a mod m then 1 else 0)" for i
  proof -
    have "a div m + 1 \<le> U128_MAX" if "i < a mod m"
    proof -
      have "a mod m \<noteq> 0" using that by simp
      then have "2 \<le> m" using assms(1) by (cases "m = 1") auto
      then have "a div m \<le> a div 2" by (simp add: div_le_mono2)
      then show ?thesis using assms(2) by (simp add: U128_MAX_def)
    qed
    then show ?thesis by (simp add: share_def saturating_add_def)
  qed
  then have "sum_list (map (share m a) [0..<m]) = (\<Sum>i = 0..<m. a div m + (if i < a mod m then 1 else 0))"
    by (simp add: interv_sum_list_conv_sum_set_nat)
  also have "\<dots> = m * (a div m) + card {i. i < m \<and> i < a mod m}" 
    by (simp add: sum.distrib sum.If_cases Int_def)
  also have "{i. i < m \<and> i < a mod m} = {..<a mod m}" using assms(1) by (auto intro: less_trans mod_less_divisor)
  finally show ?thesis by simp
qed

lemma split_evenly_flight:
  assumes "vs \<noteq> []" "snd e \<le> U128_MAX"
  shows "in_flight j (snd (split_evenly vs e sr)) x = in_flight j (snd sr) x + (if x = fst e then snd e else 0)"
proof -
  have "map (share (length vs) (snd e) \<circ> fst) (zip [0..<length vs] vs) = map (share (length vs) (snd e)) [0..<length vs]"
    by (simp flip: map_map)
  then show ?thesis using assms sum_shares [of "length vs" "snd e"] by (simp add: split_evenly_shares give_shares_flight)
qed

lemma split_evenly_ok:
  assumes "routing_ok L (snd sr)" "set vs \<subseteq> set (spendable_vouts L)" "snd e \<le> U128_MAX"
  shows "routing_ok L (snd (split_evenly vs e sr))"
proof -
  have "\<forall>i. share (length vs) (snd e) i \<le> U128_MAX"
    using le_trans [OF div_le_dividend assms(3)] by (simp add: share_def)
  moreover have "snd ` set (zip [0..<length vs] vs) \<subseteq> set (spendable_vouts L)" using assms(2) set_zip_rightD by fastforce
  ultimately show ?thesis using assms(1) by (simp add: split_evenly_shares give_shares_ok)
qed

lemma split_all:
  assumes "vs \<noteq> []" "set vs \<subseteq> set (spendable_vouts L)" "list_all (\<lambda>e. snd e \<le> U128_MAX) es" "routing_ok L (snd sr)"
  shows "in_flight j (snd (foldl (\<lambda>sr e. split_evenly vs e sr) sr es)) x = in_flight j (snd sr) x + sum_of es x
    \<and> routing_ok L (snd (foldl (\<lambda>sr e. split_evenly vs e sr) sr es))"
  using assms(3,4)
proof (induction es arbitrary: sr)
  case (Cons e es)
  have "routing_ok L (snd (split_evenly vs e sr))" using split_evenly_ok [OF Cons.prems(2) assms(2)] Cons.prems(1) by simp
  from Cons.IH [OF _ this] Cons.prems(1) show ?case by (simp add: split_evenly_flight [OF assms(1)])
qed simp

lemma split_all_shadow:
  "incoming_shadow (snd (foldl (\<lambda>sr e. split_evenly vs e sr) sr es)) = incoming_shadow (snd sr)"
  by (induction es arbitrary: sr) (auto simp: split_evenly_shares give_shares_shadow)

text \<open>The targets from which nothing is lost: an output, all outputs, or a shadow output still to come.\<close>

definition layout_ok :: "layout \<Rightarrow> bool" where
  "layout_ok L = (spendable_vouts L = spendables (tx_outputs L))"

definition reaches :: "layout \<Rightarrow> nat \<Rightarrow> nat \<Rightarrow> u32 \<Rightarrow> bool" where
  "reaches L j n target =
     (if target = n_outputs L then spendable_vouts L \<noteq> []
      else if target < n_outputs L then is_valid_spend_vout (tx_outputs L) target
      else shadow_base L \<le> target \<and> target \<le> shadow_end L
        \<and> j \<le> unat (target - shadow_base L) \<and> unat (target - shadow_base L) < n)"

lemma spendables_member: "i < length outs \<Longrightarrow> \<not> is_op_return (script_pubkey (outs ! i)) \<Longrightarrow> word_of_nat i \<in> set (spendables outs)"
  by (auto simp: spendables_def)

text \<open>A transaction has fewer than \<open>2 ^ 32\<close> outputs.\<close>

lemma spendables_valid: "v \<in> set (spendables outs) \<Longrightarrow> length outs < 2 ^ 32 \<Longrightarrow> is_valid_spend_vout outs v"
  by (auto simp: spendables_def is_valid_spend_vout_def unsigned_of_nat take_bit_nat_eq_self)

lemma valid_spendable: "layout_ok L \<Longrightarrow> is_valid_spend_vout (tx_outputs L) v \<Longrightarrow> v \<in> set (spendable_vouts L)"
  using spendables_member [of "unat v" "tx_outputs L"] by (simp add: layout_ok_def is_valid_spend_vout_def)

lemma sum_list_replace:
  fixes f :: "'a \<Rightarrow> nat"
  shows "k < length ys \<Longrightarrow> sum_list (map f (ys[k := y])) + f (ys ! k) = sum_list (map f ys) + f y"
  by (induction ys arbitrary: k) (auto split: nat.split)

text \<open>Replacing the sheet of one shadow output.\<close>

lemma shadow_replace:
  fixes f :: "sheet \<Rightarrow> nat"
  assumes "k < length ms"
  shows "sum_list (map f (drop j (ms[k := m]))) + (if j \<le> k then f (ms ! k) else 0) = sum_list (map f (drop j ms)) + (if j \<le> k then f m else 0)"
proof (cases "j \<le> k")
  case True
  then show ?thesis using sum_list_replace [of "k - j" "drop j ms" f m] assms by (simp add: drop_update_swap)
qed simp

lemma route_delta_ok:
  assumes "layout_ok L" "routing_ok L R" "sheet_ok delta"
  shows "routing_ok L (route_delta L target delta ss R)"
    and "length (incoming_shadow (route_delta L target delta ss R)) = length (incoming_shadow R)"
proof -
  have es: "list_all (\<lambda>e. snd e \<le> U128_MAX) (entries delta)" using assms(3) by (simp add: sheet_ok_def list_all_iff)
  have split: "spendable_vouts L \<noteq> [] \<Longrightarrow> routing_ok L (snd (foldl (\<lambda>sr e. split_evenly (spendable_vouts L) e sr) (ss, R) (entries delta)))"
    using split_all [of "spendable_vouts L" L "entries delta" "(ss, R)"] es assms(2) by simp
  have "list_all sheet_ok ((incoming_shadow R)[i := credit_all es (incoming_shadow R ! i)])" for i es
    using assms(2) by (cases "i < length (incoming_shadow R)") (auto simp: routing_ok_def list_all_length nth_list_update)
  then show "routing_ok L (route_delta L target delta ss R)"
    using assms split push_to_vout_ok valid_spendable by (simp add: route_delta_def Let_def) (simp add: routing_ok_def)
  show "length (incoming_shadow (route_delta L target delta ss R)) = length (incoming_shadow R)"
    by (simp add: route_delta_def Let_def split_all_shadow push_to_vout_def)
qed

lemma route_delta_flight:
  assumes "layout_ok L" "routing_ok L R" "sheet_ok delta"
  shows "in_flight j (route_delta L target delta ss R) t \<le> in_flight j R t + bal delta t"
    and "reaches L j (length (incoming_shadow R)) target \<Longrightarrow> in_flight j R t + bal delta t \<le> U128_MAX
      \<Longrightarrow> in_flight j (route_delta L target delta ss R) t = in_flight j R t + bal delta t"
proof -
  have es: "list_all (\<lambda>e. snd e \<le> U128_MAX) (entries delta)" and sum: "sum_of delta t = bal delta t"
    using assms(3) sum_of_bal by (auto simp: sheet_ok_def list_all_iff)
  have split: "spendable_vouts L \<noteq> [] \<Longrightarrow> in_flight j (snd (foldl (\<lambda>sr e. split_evenly (spendable_vouts L) e sr) (ss, R) (entries delta))) t
      = in_flight j R t + bal delta t"
    using split_all [of "spendable_vouts L" L "entries delta" "(ss, R)" j t] es assms(2) by (simp add: sum)
  define i where "i = unat (target - shadow_base L)"
  define m where "m = credit_all (entries delta) (incoming_shadow R ! i)"
  define R' where "R' = R\<lparr>incoming_shadow := (incoming_shadow R)[i := m],
      incoming_shadow_sources := (incoming_shadow_sources R)[i := merge_sourced_sheet (incoming_shadow_sources R ! i) ss]\<rparr>"
  have m: "i < length (incoming_shadow R) \<Longrightarrow> bal m t = min U128_MAX (bal (incoming_shadow R ! i) t + bal delta t)"
    using assms(2) bal_credit_all [of "incoming_shadow R ! i" t "entries delta"] bal_le [of "incoming_shadow R ! i" t]
    by (simp add: m_def sum routing_ok_def list_all_length)
  note rep = shadow_replace [of i "incoming_shadow R" "\<lambda>m. bal m t" j m]
  have shadow: "in_flight j R' t \<le> in_flight j R t + bal delta t"
    using rep m by (cases "i < length (incoming_shadow R)"; cases "j \<le> i") (simp_all add: in_flight_def R'_def list_update_beyond)
  have exact: "in_flight j R' t = in_flight j R t + bal delta t"
    if "j \<le> i" "i < length (incoming_shadow R)" "in_flight j R t + bal delta t \<le> U128_MAX"
  proof -
    have "drop j (incoming_shadow R) ! (i - j) \<in> set (drop j (incoming_shadow R))" using that(1,2) by (intro nth_mem) simp
    then have "bal (incoming_shadow R ! i) t \<le> sum_list (map (\<lambda>m. bal m t) (drop j (incoming_shadow R)))"
      using that(1,2) by (intro member_le_sum_list) simp_all
    then have "bal m t = bal (incoming_shadow R ! i) t + bal delta t" using m that(2,3) by (simp add: in_flight_def)
    then show ?thesis using rep that(1,2) by (simp add: in_flight_def R'_def)
  qed
  have route: "route_delta L target delta ss R =
     (if delta = [] then R
      else if target = n_outputs L then
        (if spendable_vouts L = [] then R
         else snd (foldl (\<lambda>sr e. split_evenly (spendable_vouts L) e sr) (ss, R) (entries delta)))
      else if target < n_outputs L then (if is_valid_spend_vout (tx_outputs L) target then push_to_vout target delta ss R else R)
      else if shadow_base L \<le> target \<and> target \<le> shadow_end L then R' else R)"
    unfolding route_delta_def Let_def R'_def m_def i_def ..
  show "in_flight j (route_delta L target delta ss R) t \<le> in_flight j R t + bal delta t"
    using split shadow push_to_vout_flight [OF assms(3)] unfolding route by simp
  show "in_flight j (route_delta L target delta ss R) t = in_flight j R t + bal delta t"
    if "reaches L j (length (incoming_shadow R)) target" "in_flight j R t + bal delta t \<le> U128_MAX"
    using that split exact push_to_vout_flight [OF assms(3)] unfolding route reaches_def i_def by simp
qed

end
