(* ===== verification/Edict_Accounts.thy ===== *)
theory Edict_Accounts
  imports Transfer_Accounts
begin

text \<open>
  Edicts and pointers: they move tokens from the sheet of a protostone to its targets, create none, and with the
  rules in force since version 2.1.7 lose none.
\<close>

section \<open>Shares with a cap\<close>

lemma capped_walk_accounts:
  assumes "capped_walk cap t vs remaining used sr = (used', sr')" "routing_ok L (snd sr)" "set vs \<subseteq> set (spendable_vouts L)"
    and "used + remaining \<le> U128_MAX"
  shows "in_flight j (snd sr') x + (if x = t then used else 0) = in_flight j (snd sr) x + (if x = t then used' else 0)
    \<and> used' \<le> used + remaining \<and> routing_ok L (snd sr') \<and> incoming_shadow (snd sr') = incoming_shadow (snd sr)"
  using assms
proof (induction cap t vs remaining used sr rule: capped_walk.induct)
  case (2 cap t v vs remaining used sr)
  show ?case
  proof (cases "remaining = 0 \<or> min remaining cap = 0")
    case False
    define a where "a = min remaining cap"
    have a: "0 < a" "a \<le> remaining" "used + a \<le> U128_MAX" using False 2(5) by (auto simp: a_def)
    have "capped_walk cap t vs (saturating_sub remaining a) (saturating_add used a) (give v t a sr) = (used', sr')"
      using 2(2) False unfolding a_def by (simp only: capped_walk.simps Let_def de_Morgan_disj if_False)
    note IH = 2(1) [OF _ a_def _ this, unfolded saturating_sub_def saturating_exact(1) [OF a(3)]]
    show ?thesis using IH give_ok [OF 2(3) _ a(1), of v t] False a 2(4,5)
      by (cases "x = t") (simp_all add: give_flight)
  next
    case True
    then have "capped_walk cap t (v # vs) remaining used sr = (used, sr)" by (auto simp: Let_def)
    then show ?thesis using 2(2,3) by simp
  qed
qed auto

section \<open>The shares of OP_RETURN outputs before version 2.1.7\<close>

definition deferred_sum :: "(u128 \<times> sourced_sheet) list \<Rightarrow> nat" where
  "deferred_sum ds = sum_list (map fst ds)"

lemma deferred_sum_simps [simp]:
  "deferred_sum [] = 0" "deferred_sum (d # ds) = fst d + deferred_sum ds" "deferred_sum (ds @ ds') = deferred_sum ds + deferred_sum ds'"
  by (simp_all add: deferred_sum_def)

lemma legacy_walk_accounts:
  assumes "legacy_walk cap t idx outs remaining w sr = (w', sr')" "routing_ok L (snd sr)" "layout_ok L"
    and "outs = drop idx (tx_outputs L)" "w_used w + remaining \<le> U128_MAX"
    and "list_all (\<lambda>d. 0 < fst d \<and> fst d \<le> U128_MAX) (w_deferred w)"
  shows "in_flight j (snd sr') x + (if x = t then deferred_sum (w_deferred w') + w_used w else 0)
      = in_flight j (snd sr) x + (if x = t then deferred_sum (w_deferred w) + w_used w' else 0)
    \<and> w_used w' \<le> w_used w + remaining \<and> routing_ok L (snd sr') \<and> incoming_shadow (snd sr') = incoming_shadow (snd sr)
    \<and> list_all (\<lambda>d. 0 < fst d \<and> fst d \<le> U128_MAX) (w_deferred w')"
  using assms
proof (induction outs arbitrary: idx remaining w sr)
  case (Cons out outs)
  have at: "idx < length (tx_outputs L)" "tx_outputs L ! idx = out" "outs = drop (idx + 1) (tx_outputs L)"
    using Cons.prems(4) by (metis drop_eq_Nil list.distinct(1) not_le, metis drop_eq_Nil list.distinct(1) list.sel(1) hd_drop_conv_nth not_le,
      metis drop_Suc tl_drop list.sel(3) Suc_eq_plus1)
  show ?case
  proof (cases "remaining = 0 \<or> min remaining cap = 0")
    case False
    define a where "a = min remaining cap"
    define v where "v = w\<lparr>w_used := saturating_add (w_used w) a, w_last := Some idx\<rparr>"
    have a: "0 < a" "a \<le> remaining" "w_used w + a \<le> U128_MAX" using False Cons.prems(5) by (auto simp: a_def)
    have v: "w_used v = w_used w + a" "w_deferred v = w_deferred w" "w_used v + (remaining - a) \<le> U128_MAX"
      using a Cons.prems(5) by (auto simp: v_def saturating_exact)
    show ?thesis
    proof (cases "is_op_return (script_pubkey out)")
      case True
      let ?r = "take_sources_from_sheet (fst sr) t a"
      let ?v = "v\<lparr>w_deferred := w_deferred v @ [(a, add_sources_to_sheet [] t (snd ?r))]\<rparr>"
      have "legacy_walk cap t (idx + 1) outs (remaining - a) ?v (fst ?r, snd sr) = (w', sr')"
        using Cons.prems(1) False True unfolding a_def v_def
        by (simp only: legacy_walk.simps Let_def saturating_sub_def de_Morgan_disj if_False if_True)
      from Cons.IH [OF this _ Cons.prems(3) at(3)] Cons.prems(2,5,6) a v
      show ?thesis by (cases "x = t") simp_all
    next
      case False2: False
      have "legacy_walk cap t (idx + 1) outs (remaining - a) v (give (word_of_nat idx) t a sr) = (w', sr')"
        using Cons.prems(1) False False2 unfolding a_def v_def
        by (simp only: legacy_walk.simps Let_def saturating_sub_def de_Morgan_disj if_False)
      moreover have "word_of_nat idx \<in> set (spendable_vouts L)"
        using spendables_member [OF at(1)] at(2) False2 Cons.prems(3) by (simp add: layout_ok_def)
      ultimately show ?thesis
        using Cons.IH [of "idx + 1" "remaining - a" v "give (word_of_nat idx) t a sr"] give_ok [OF Cons.prems(2), of "word_of_nat idx" a t]
          Cons.prems(3,5,6) a v at(3) by (cases "x = t") (simp_all add: give_flight)
    qed
  next
    case True
    then have "legacy_walk cap t idx (out # outs) remaining w sr = (w, sr)" by (auto simp: Let_def)
    then show ?thesis using Cons.prems(1,2,6) by simp
  qed
qed auto

lemma deferred_walk_accounts:
  assumes "routing_ok L R" "layout_ok L" "list_all (\<lambda>d. 0 < fst d \<and> fst d \<le> U128_MAX) ds"
  shows "in_flight j (deferred_walk (tx_outputs L) t start ds R) x \<le> in_flight j R x + (if x = t then deferred_sum ds else 0)
    \<and> routing_ok L (deferred_walk (tx_outputs L) t start ds R)
    \<and> incoming_shadow (deferred_walk (tx_outputs L) t start ds R) = incoming_shadow R"
  using assms
proof (induction "tx_outputs L" t start ds R rule: deferred_walk.induct)
  case (2 t start a ss ds R)
  show ?case
  proof (cases "next_spendable (tx_outputs L) start")
    case None
    then show ?thesis using 2(1) [OF None] 2(3-5) by auto
  next
    case (Some i)
    let ?R = "R\<lparr>out_map := push_balances (word_of_nat i) [\<lparr>be_alkane = t, be_amount = a\<rparr>] (out_map R),
            receives := push_sources_to_vout (word_of_nat i) ss (receives R)\<rparr>"
    have "i < length (tx_outputs L)" "\<not> is_op_return (script_pubkey (tx_outputs L ! i))"
      using Some by (auto simp: next_spendable_def find_Some_iff)
    then have "routing_ok L ?R"
      using 2(3-5) spendables_member entries_ok_push [of L "out_map R" "word_of_nat i" "[\<lparr>be_alkane = t, be_amount = a\<rparr>]"]
      by (simp add: routing_ok_def entry_ok_def layout_ok_def)
    from 2(2) [OF Some this] 2(4,5) Some show ?thesis by (auto simp: in_flight_def)
  qed
qed simp

section \<open>Edicts\<close>

text \<open>What a protostone being processed has of a token: on its sheet, on the outputs and on later shadow outputs.\<close>

definition purse :: "nat \<Rightarrow> alkane_id \<Rightarrow> sheet \<times> sourced_sheet \<times> routing \<Rightarrow> nat" where
  "purse j t st = bal (fst st) t + in_flight j (snd (snd st)) t"

definition state_ok :: "layout \<Rightarrow> nat \<Rightarrow> sheet \<times> sourced_sheet \<times> routing \<Rightarrow> bool" where
  "state_ok L n st = (sheet_ok (fst st) \<and> routing_ok L (snd (snd st)) \<and> length (incoming_shadow (snd (snd st))) = n)"

definition edict_safe :: "layout \<Rightarrow> nat \<Rightarrow> nat \<Rightarrow> edict \<Rightarrow> bool" where
  "edict_safe L j n ed = (case u128_to_u32 (ed_output ed) of Some v \<Rightarrow> v = n_outputs L \<or> reaches L j n v | None \<Rightarrow> True)"

text \<open>A step keeps the accounts: nothing is created, and under the given condition nothing is lost.\<close>

definition accounted :: "layout \<Rightarrow> nat \<Rightarrow> nat \<Rightarrow> bool \<Rightarrow> sheet \<times> sourced_sheet \<times> routing \<Rightarrow> sheet \<times> sourced_sheet \<times> routing \<Rightarrow> bool" where
  "accounted L n j safe st st' = (state_ok L n st' \<and> (\<forall>x. purse j x st' \<le> purse j x st)
     \<and> (safe \<longrightarrow> (\<forall>x. purse j x st \<le> U128_MAX \<longrightarrow> purse j x st' = purse j x st)))"

lemma accounted_refl: "state_ok L n st \<Longrightarrow> accounted L n j safe st st"
  by (simp add: accounted_def)

lemma accounted_trans:
  "accounted L n j safe st st' \<Longrightarrow> accounted L n j safe' st' st'' \<Longrightarrow> accounted L n j (safe \<and> safe') st st''"
  by (auto simp: accounted_def intro: order_trans)

text \<open>A part of the sheet goes to one target.\<close>

lemma route_part:
  assumes "layout_ok L" "state_ok L n (sheet, ss, R)" "need \<le> bal sheet t" "sheet_ok sheet'"
    and "\<And>x. bal sheet' x = (if x = t then bal sheet t - need else bal sheet x)"
  shows "accounted L n j (reaches L j n target) (sheet, ss, R) (sheet', ss', route_delta L target [(t, need)] ss'' R)"
proof -
  have ok: "routing_ok L R" "length (incoming_shadow R) = n" "need \<le> U128_MAX"
    using assms(2,3) bal_le [of sheet t] by (auto simp: state_ok_def)
  note one = sheet_ok_single [OF ok(3), of t]
  note flight = route_delta_flight [OF assms(1) ok(1) one, where j = j and target = target and ss = ss'', unfolded bal_single ok(2)]
  have moved: "bal sheet' x + (if x = t then need else 0) = bal sheet x" for x using assms(3,5) by simp
  have "purse j x (sheet', ss', route_delta L target [(t, need)] ss'' R) \<le> purse j x (sheet, ss, R)" for x
    using flight(1) [of x] moved [of x] by (simp add: purse_def)
  moreover have "purse j x (sheet', ss', route_delta L target [(t, need)] ss'' R) = purse j x (sheet, ss, R)"
    if "reaches L j n target" "purse j x (sheet, ss, R) \<le> U128_MAX" for x
    using flight(2) [of x] that moved [of x] by (simp add: purse_def)
  ultimately show ?thesis
    using route_delta_ok [OF assms(1) ok(1) one] assms(4) ok(2) by (simp add: accounted_def state_ok_def)
qed

text \<open>An amount that was handed out is taken off the sheet.\<close>

lemma debit_part:
  assumes "state_ok L n (sheet, ss, R)" "used \<le> bal sheet t" "routing_ok L R'" "incoming_shadow R' = incoming_shadow R"
    and "\<And>x. in_flight j R' x \<le> in_flight j R x + (if x = t then used else 0)"
    and "safe \<Longrightarrow> (\<And>x. in_flight j R' x = in_flight j R x + (if x = t then used else 0))"
  shows "accounted L n j safe (sheet, ss, R) (debit t used sheet, ss', R')"
proof -
  have moved: "bal (debit t used sheet) x + (if x = t then used else 0) = bal sheet x" for x using assms(2) by (simp add: bal_debit)
  have "purse j x (debit t used sheet, ss', R') \<le> purse j x (sheet, ss, R)" for x
    using moved [of x] assms(5) [of x] by (simp add: purse_def)
  moreover have "purse j x (debit t used sheet, ss', R') = purse j x (sheet, ss, R)" if safe for x
    using moved [of x] assms(6) [OF that, of x] by (simp add: purse_def)
  ultimately show ?thesis using assms(1,3,4) by (simp add: accounted_def state_ok_def)
qed

lemma multicast_accounts:
  assumes "layout_ok L" "state_ok L n st"
  shows "accounted L n j (ALKANES_V217_EDICT_FIX_HEIGHT \<le> height) st (multicast_edict L height t amt st)"
proof -
  obtain sheet ss R where st: "st = (sheet, ss, R)" by (cases st)
  have ok: "routing_ok L R" "sheet_ok sheet" "length (incoming_shadow R) = n" using assms(2) by (auto simp: st state_ok_def)
  define have' where "have' = bal sheet t"
  have bound: "have' \<le> U128_MAX" using bal_le [OF ok(2)] by (simp add: have'_def)
  consider (none) "spendable_vouts L = []" | (empty) "spendable_vouts L \<noteq> []" "have' = 0"
    | (all) "spendable_vouts L \<noteq> []" "have' \<noteq> 0" "amt = 0"
    | (legacy) "spendable_vouts L \<noteq> []" "have' \<noteq> 0" "amt \<noteq> 0"
        "height < ALKANES_V217_EDICT_FIX_HEIGHT \<and> have' \<le> saturating_mul (length (spendable_vouts L)) amt"
    | (capped) "spendable_vouts L \<noteq> []" "have' \<noteq> 0" "amt \<noteq> 0"
        "\<not> (height < ALKANES_V217_EDICT_FIX_HEIGHT \<and> have' \<le> saturating_mul (length (spendable_vouts L)) amt)"
    by blast
  then show ?thesis
  proof cases
    case none
    then show ?thesis using assms(2) by (simp add: multicast_edict_def st accounted_refl)
  next
    case empty
    then show ?thesis using ok by (simp add: multicast_edict_def st accounted_def state_ok_def purse_def have'_def bal_update)
  next
    case all
    let ?r = "take_sources_from_sheet ss t have'"
    have "multicast_edict L height t amt st
        = (AList.delete t sheet, fst ?r, route_delta L (n_outputs L) [(t, have')] (add_sources_to_sheet [] t (snd ?r)) R)"
      using all by (simp add: multicast_edict_def st have'_def [symmetric] Let_def)
    moreover have "accounted L n j (reaches L j n (n_outputs L)) st
        (AList.delete t sheet, fst ?r, route_delta L (n_outputs L) [(t, have')] (add_sources_to_sheet [] t (snd ?r)) R)"
      unfolding st by (rule route_part [OF assms(1)]) (use assms(2) ok(2) in \<open>auto simp: st have'_def bal_delete\<close>)
    ultimately show ?thesis using all(1) by (simp add: reaches_def accounted_def)
  next
    case legacy
    obtain w ss' R' where walk: "legacy_walk amt t 0 (tx_outputs L) have' \<lparr>w_used = 0, w_deferred = [], w_last = None\<rparr> (ss, R) = (w, ss', R')"
      by (metis prod.exhaust)
    let ?R = "deferred_walk (tx_outputs L) t (case w_last w of Some i \<Rightarrow> i + 1 | None \<Rightarrow> 0) (w_deferred w) R'"
    have "multicast_edict L height t amt st = (debit t (w_used w) sheet, ss', ?R)"
      using legacy walk by (simp add: multicast_edict_def st have'_def [symmetric] Let_def)
    moreover note acc = legacy_walk_accounts [OF walk, of L j, simplified, OF ok(1) assms(1) bound]
    moreover have later: "in_flight j ?R x \<le> in_flight j R' x + (if x = t then deferred_sum (w_deferred w) else 0)
        \<and> routing_ok L ?R \<and> incoming_shadow ?R = incoming_shadow R'" for x
      by (rule deferred_walk_accounts) (use acc assms(1) in auto)
    moreover have "in_flight j ?R x \<le> in_flight j R x + (if x = t then w_used w else 0)" for x
      using acc [of x] later [of x] by (cases "x = t") auto
    ultimately show ?thesis
      unfolding st using assms(2) legacy(4) by (simp only:) (rule debit_part; auto simp: st have'_def)
  next
    case capped
    obtain used ss' R' where walk: "capped_walk amt t (spendable_vouts L) have' 0 (ss, R) = (used, ss', R')" by (metis prod.exhaust)
    have "multicast_edict L height t amt st = (debit t used sheet, ss', R')"
      using capped walk by (auto simp: multicast_edict_def st have'_def [symmetric] Let_def)
    moreover note acc = capped_walk_accounts [OF walk, of L j, simplified, OF ok(1) bound]
    ultimately show ?thesis
      unfolding st using assms(2) by (simp only:) (rule debit_part; auto simp: st have'_def)
  qed
qed

lemma edict_accounts:
  assumes "layout_ok L" "state_ok L n st"
  shows "accounted L n j (ALKANES_V217_EDICT_FIX_HEIGHT \<le> height \<and> edict_safe L j n ed) st (apply_single_edict L height ed st)"
proof -
  obtain sheet ss R where st: "st = (sheet, ss, R)" by (cases st)
  show ?thesis
  proof (cases "ed_block ed = 0 \<and> ed_tx ed > 0 \<or> u128_to_u32 (ed_output ed) = None \<or> schema_id_from_parts (ed_block ed) (ed_tx ed) = None")
    case True
    then have "apply_single_edict L height ed st = st" by (auto simp: apply_single_edict_def split: option.splits)
    then show ?thesis using assms(2) by (simp add: accounted_refl)
  next
    case False
    then obtain v t where vt: "u128_to_u32 (ed_output ed) = Some v" "schema_id_from_parts (ed_block ed) (ed_tx ed) = Some t" by auto
    define need where "need = (if ed_amount ed = 0 then bal sheet t else min (ed_amount ed) (bal sheet t))"
    let ?r = "take_sources_from_sheet ss t need"
    let ?st = "(debit t need sheet, fst ?r, route_delta L v [(t, need)] (add_sources_to_sheet [] t (snd ?r)) R)"
    have "apply_single_edict L height ed st =
        (if v = n_outputs L then multicast_edict L height t (ed_amount ed) st else if need = 0 then st else ?st)"
      using False unfolding apply_single_edict_def st need_def Let_def vt by (simp only: option.case prod.case de_Morgan_disj if_False)
    moreover have "accounted L n j (reaches L j n v) st ?st"
      unfolding st by (rule route_part [OF assms(1)]) (use assms(2) in \<open>auto simp: st state_ok_def bal_debit need_def\<close>)
    moreover note multicast_accounts [OF assms, of j height t "ed_amount ed"]
    ultimately show ?thesis using assms(2) vt(1) by (auto simp: accounted_def edict_safe_def)
  qed
qed

lemma edicts_accounts:
  assumes "layout_ok L" "state_ok L n st"
  shows "accounted L n j (ALKANES_V217_EDICT_FIX_HEIGHT \<le> height \<and> list_all (edict_safe L j n) eds) st
    (foldl (\<lambda>st ed. apply_single_edict L height ed st) st eds)"
  using assms(2)
proof (induction eds arbitrary: st)
  case (Cons ed eds)
  note one = edict_accounts [OF assms(1) Cons.prems, of j height ed]
  then have "state_ok L n (apply_single_edict L height ed st)" by (simp add: accounted_def)
  from accounted_trans [OF one Cons.IH [OF this]] show ?case by (auto simp: accounted_def)
qed (simp add: accounted_refl)

end
