(* ===== verification/Stone_Accounts.thy ===== *)
theory Stone_Accounts
  imports Edict_Accounts
begin

text \<open>
  The accounts of a whole transaction: the protostones are processed in order, and the contract projector is used
  only through its contract, the locale below.
\<close>

section \<open>Distribution\<close>

definition stone_safe :: "layout \<Rightarrow> nat \<Rightarrow> nat \<Rightarrow> full_stone \<Rightarrow> bool" where
  "stone_safe L j n ps = (list_all (edict_safe L j n) (edicts ps)
     \<and> (case pointer ps of Some ptr \<Rightarrow> reaches L j n ptr | None \<Rightarrow> spendable_vouts L \<noteq> []))"

lemma distribute_accounts:
  assumes "layout_ok L" "routing_ok L R" "sheet_ok sheet" "length (incoming_shadow R) = n"
  shows "routing_ok L (distribute L height ps (sheet, ss) R)" (is "routing_ok L ?R")
    and "length (incoming_shadow (distribute L height ps (sheet, ss) R)) = n"
    and "in_flight j (distribute L height ps (sheet, ss) R) x \<le> in_flight j R x + bal sheet x"
    and "ALKANES_V217_EDICT_FIX_HEIGHT \<le> height \<Longrightarrow> stone_safe L j n ps \<Longrightarrow> in_flight j R x + bal sheet x \<le> U128_MAX
      \<Longrightarrow> in_flight j (distribute L height ps (sheet, ss) R) x = in_flight j R x + bal sheet x"
proof -
  obtain sh ss' R' where st: "foldl (\<lambda>st ed. apply_single_edict L height ed st) (sheet, ss, R) (edicts ps) = (sh, ss', R')"
    by (metis prod.exhaust)
  have "state_ok L n (sheet, ss, R)" using assms(2-4) by (simp add: state_ok_def)
  note acc = edicts_accounts [OF assms(1) this, where j = j and height = height and eds = "edicts ps", unfolded st]
  have ok: "sheet_ok sh" "routing_ok L R'" "length (incoming_shadow R') = n"
    and le: "bal sh x + in_flight j R' x \<le> bal sheet x + in_flight j R x"
    using acc by (auto simp: accounted_def state_ok_def purse_def)
  have eq: "bal sh x + in_flight j R' x = bal sheet x + in_flight j R x"
    if "ALKANES_V217_EDICT_FIX_HEIGHT \<le> height" "stone_safe L j n ps" "in_flight j R x + bal sheet x \<le> U128_MAX"
    using acc that by (auto simp: accounted_def purse_def stone_safe_def)
  let ?delta = "snd (take_sources_for_delta ss' sh)"
  have dist: "?R = (if sh = [] then R' else case pointer ps of Some ptr \<Rightarrow> route_delta L ptr sh ?delta R'
      | None \<Rightarrow> (case spendable_vouts L of [] \<Rightarrow> R' | v # _ \<Rightarrow> push_to_vout v sh ?delta R'))"
    unfolding distribute_def fst_conv snd_conv st by (simp add: Let_def)
  note route = route_delta_ok [OF assms(1) ok(2,1)] route_delta_flight [OF assms(1) ok(2,1)]
    push_to_vout_flight [OF ok(1)] push_to_vout_ok [OF ok(2,1)]
  show "routing_ok L ?R" "length (incoming_shadow ?R) = n"
    unfolding dist using ok route by (auto simp: push_to_vout_def split: option.split list.split)
  show "in_flight j ?R x \<le> in_flight j R x + bal sheet x"
    unfolding dist using le route(3) [of j _ ?delta x] route(5)
    by (auto split: option.split list.split intro: order_trans [OF route(3)])
  show "in_flight j ?R x = in_flight j R x + bal sheet x"
    if "ALKANES_V217_EDICT_FIX_HEIGHT \<le> height" "stone_safe L j n ps" "in_flight j R x + bal sheet x \<le> U128_MAX"
    unfolding dist using eq [OF that] that route(4,5) ok(3) by (auto simp: stone_safe_def split: option.split list.split)
qed

section \<open>Traces\<close>

lemma net_of_ok [simp]: "sheet_ok (net_of ts)"
proof -
  have "sheet_ok m \<Longrightarrow> sheet_ok (fold credit es m)" for es m by (induction es arbitrary: m) (simp_all add: credit_def)
  then show ?thesis by (simp add: net_of_def)
qed

lemma stone_nets_ok:
  assumes "stone_nets t = (net_in, net_out, st)"
  shows "net_in = Some m \<Longrightarrow> sheet_ok m" "net_out = Some m \<Longrightarrow> sheet_ok m"
  using assms by (auto simp: stone_nets_def compute_nets_def split: option.splits if_splits prod.splits)

text \<open>What the trace of a protostone adds to its tokens: the balances it returns, or the refund after a revert.\<close>

definition trace_credit :: "trace option \<Rightarrow> alkane_id \<Rightarrow> nat" where
  "trace_credit t x = (case stone_nets t of (net_in, net_out, st) \<Rightarrow>
     let amount = (\<lambda>m. case m of Some m \<Rightarrow> bal m x | None \<Rightarrow> 0) in
     case st of SUCCESS \<Rightarrow> amount net_out | REVERT \<Rightarrow> amount net_in | NOTRACE \<Rightarrow> 0)"

lemma take_trace_inputs_sheet: "fst (take_trace_inputs m st) = fold (\<lambda>(t, a). debit t a) (filter (\<lambda>e. snd e \<noteq> 0) (entries m)) (fst st)"
proof -
  have "fst (foldl (\<lambda>(sheet, ss, tin) (t, a). let r = take_sources_from_sheet ss t a in (debit t a sheet, fst r, add_sources_to_sheet tin t (snd r)))
       (sheet, ss, tin) es) = fold (\<lambda>(t, a). debit t a) es sheet" for sheet ss tin es
    by (induction es arbitrary: sheet ss tin) (auto simp: Let_def)
  then show ?thesis by (simp add: take_trace_inputs_def)
qed

lemma fold_debit: "sheet_ok m \<Longrightarrow> sheet_ok (fold (\<lambda>(t, a). debit t a) es m) \<and> bal (fold (\<lambda>(t, a). debit t a) es m) x \<le> bal m x"
proof (induction es arbitrary: m)
  case (Cons e es)
  have "bal (debit (fst e) (snd e) m) x \<le> bal m x" by (simp add: bal_debit)
  then show ?case using Cons.IH [of "debit (fst e) (snd e) m"] Cons.prems by (auto simp: case_prod_beta)
qed simp

lemma settle_success_accounts:
  assumes "sheet_ok sheet" "\<And>m. net_out = Some m \<Longrightarrow> sheet_ok m"
  shows "sheet_ok (fst (fst (settle_success D h t net_in net_out (sheet, ss) sends)))
    \<and> bal (fst (fst (settle_success D h t net_in net_out (sheet, ss) sends))) x \<le> bal sheet x + (case net_out of Some m \<Rightarrow> bal m x | None \<Rightarrow> 0)"
proof -
  define sh where "sh = (case net_in of Some m \<Rightarrow> fst (take_trace_inputs m (sheet, ss)) | None \<Rightarrow> sheet)"
  have sh: "sheet_ok sh" "bal sh x \<le> bal sheet x" using assms(1) fold_debit by (auto simp: sh_def take_trace_inputs_sheet split: option.split)
  have "fst (fst (settle_success D h t net_in net_out (sheet, ss) sends)) = (case net_out of Some m \<Rightarrow> credit_all (entries m) sh | None \<Rightarrow> sh)"
    by (simp add: settle_success_def sh_def Let_def split: option.split prod.split)
  moreover have "bal (credit_all (entries m) sh) x \<le> bal sh x + bal m x" if "net_out = Some m" for m
    using bal_credit_all [of sh x "entries m"] bal_le [OF sh(1), of x] assms(2) [OF that] by (simp add: sum_of_bal sheet_ok_def)
  ultimately show ?thesis using sh by (fastforce split: option.split)
qed

section \<open>The state of a transaction\<close>

definition app_ok :: "layout \<Rightarrow> nat \<Rightarrow> application \<Rightarrow> bool" where
  "app_ok L n A = (routing_ok L (routes A) \<and> length (incoming_shadow (routes A)) = n \<and> sheet_ok (seed_unalloc A))"

text \<open>Before the \<open>i\<close>-th protostone; the tokens of the inputs wait for the first.\<close>

definition holdings :: "nat \<Rightarrow> application \<Rightarrow> alkane_id \<Rightarrow> nat" where
  "holdings i A t = in_flight i (routes A) t + (if i = 0 then bal (seed_unalloc A) t else 0)"

definition opened :: "nat \<Rightarrow> routing \<Rightarrow> routing" where
  "opened i R = R\<lparr>incoming_shadow := (incoming_shadow R)[i := []], incoming_shadow_sources := (incoming_shadow_sources R)[i := []]\<rparr>"

definition own_sheet :: "nat \<Rightarrow> application \<Rightarrow> sheet" where
  "own_sheet i A = credit_all (entries (incoming_shadow (routes A) ! i)) []"

lemma opened_accounts:
  assumes "app_ok L n A" "i < n"
  shows "routing_ok L (opened i (routes A))" "length (incoming_shadow (opened i (routes A))) = n" "sheet_ok (own_sheet i A)"
    and "in_flight (i + 1) (opened i (routes A)) t + bal (own_sheet i A) t = in_flight i (routes A) t"
proof -
  let ?R = "routes A"
  have ok: "routing_ok L ?R" "length (incoming_shadow ?R) = n" "sheet_ok (incoming_shadow ?R ! i)"
    using assms by (auto simp: app_ok_def routing_ok_def list_all_length)
  have "list_all sheet_ok ((incoming_shadow ?R)[i := []])" 
    using ok(1) set_update_subset_insert [of "incoming_shadow ?R" i "[]"] by (auto simp: routing_ok_def list_all_iff)
  then show "routing_ok L (opened i ?R)" "length (incoming_shadow (opened i ?R)) = n" "sheet_ok (own_sheet i A)"
    using ok by (simp_all add: opened_def routing_ok_def own_sheet_def)
  have "bal (own_sheet i A) t = bal (incoming_shadow ?R ! i) t"
    using bal_credit_all [of "[]" t "entries (incoming_shadow ?R ! i)"] bal_le [OF ok(3), of t] ok(3)
    by (simp add: own_sheet_def sum_of_bal sheet_ok_def)
  moreover have "drop i (incoming_shadow ?R) = incoming_shadow ?R ! i # drop (i + 1) (incoming_shadow ?R)"
    using assms(2) ok(2) by (simp add: Cons_nth_drop_Suc)
  ultimately show "in_flight (i + 1) (opened i ?R) t + bal (own_sheet i A) t = in_flight i ?R t"
    by (simp add: in_flight_def opened_def)
qed

lemma with_seed_accounts:
  assumes "app_ok L n A" "sheet_ok sheet"
  shows "sheet_ok (with_seed i A sheet)" "bal (with_seed i A sheet) t \<le> bal sheet t + (if i = 0 then bal (seed_unalloc A) t else 0)"
    and "bal sheet t + (if i = 0 then bal (seed_unalloc A) t else 0) \<le> U128_MAX
      \<Longrightarrow> bal (with_seed i A sheet) t = bal sheet t + (if i = 0 then bal (seed_unalloc A) t else 0)"
proof -
  have seed: "sheet_ok (seed_unalloc A)" using assms(1) by (simp add: app_ok_def)
  then have sum: "sum_of (seed_unalloc A) t = bal (seed_unalloc A) t" by (simp add: sum_of_bal sheet_ok_def)
  then have drained: "sheet_ok (drain_all (seed_unalloc A))" "bal (drain_all (seed_unalloc A)) t = bal (seed_unalloc A) t"
    using bal_credit_all [of "[]" t "seed_unalloc A"] bal_le [OF seed, of t] by (simp_all add: drain_all_def)
  have "bal (with_seed i A sheet) t = (if i = 0 then min U128_MAX (bal sheet t + bal (seed_unalloc A) t) else bal sheet t)"
    using bal_credit_all [of sheet t "entries (drain_all (seed_unalloc A))"] bal_le [OF assms(2), of t] drained
    by (simp add: with_seed_def sum_of_bal sheet_ok_def)
  then show "bal (with_seed i A sheet) t \<le> bal sheet t + (if i = 0 then bal (seed_unalloc A) t else 0)"
    "bal sheet t + (if i = 0 then bal (seed_unalloc A) t else 0) \<le> U128_MAX
      \<Longrightarrow> bal (with_seed i A sheet) t = bal sheet t + (if i = 0 then bal (seed_unalloc A) t else 0)"
    by (auto split: if_splits)
  show "sheet_ok (with_seed i A sheet)" using assms(2) by (simp add: with_seed_def)
qed

text \<open>Processing a protostone with the sheet it ends up with.\<close>

lemma app_distribute:
  assumes "app_ok L n A" "i < n" "layout_ok L" "sheet_ok sheet" "seed_unalloc A' = seed_unalloc A \<or> seed_unalloc A' = []"
    and "routes A' = distribute L height ps (sheet, ss) (opened i (routes A))"
  shows "app_ok L n A'" "holdings (i + 1) A' t \<le> in_flight (i + 1) (opened i (routes A)) t + bal sheet t"
proof -
  note dist = distribute_accounts [OF assms(3) opened_accounts(1) [OF assms(1,2)] assms(4) opened_accounts(2) [OF assms(1,2)]]
  show "app_ok L n A'" using dist(1,2) assms(1,5,6) by (auto simp: app_ok_def)
  show "holdings (i + 1) A' t \<le> in_flight (i + 1) (opened i (routes A)) t + bal sheet t"
    using dist(3) [where j = "i + 1" and x = t] assms(6) by (simp add: holdings_def)
qed

lemma app_refund:
  assumes "app_ok L n A" "i < n" "layout_ok L" "sheet_ok m" "seed_unalloc A' = seed_unalloc A"
    and "routes A' = route_delta L ptr m ss (opened i (routes A)) \<or> routes A' = opened i (routes A)"
  shows "app_ok L n A'" "holdings (i + 1) A' t \<le> in_flight (i + 1) (opened i (routes A)) t + bal m t"
proof -
  note ok = opened_accounts(1,2) [OF assms(1,2)]
  note route = route_delta_ok [OF assms(3) ok(1) assms(4)] route_delta_flight(1) [OF assms(3) ok(1) assms(4)]
  show "app_ok L n A'" using route(1,2) ok assms(1,5,6) by (auto simp: app_ok_def)
  show "holdings (i + 1) A' t \<le> in_flight (i + 1) (opened i (routes A)) t + bal m t"
    using route(3) [where j = "i + 1" and t = t] assms(6) by (auto simp: holdings_def)
qed

text \<open>The ways to process a protostone.\<close>

lemma apply_stone_cases:
  assumes "apply_stone D h L height ts P i ps (A, s) = Some (A', s')"
  obtains (inputs) out ss' where "True"
      "run_projector (map_option project_inputs P) (context_of L ps (with_seed i A (own_sheet i A))) s = Some (Some out, s')"
      "routes A' = distribute L height ps (out, ss') (opened i (routes A))" "seed_unalloc A' = seed_unalloc A \<or> seed_unalloc A' = []"
  | (success) net_in net_out sends ss' sheet where "stone_nets (map_of ts (shadow_base L + word_of_nat i)) = (net_in, net_out, SUCCESS)"
      "run_projector (map_option project_inputs P) (context_of L ps (with_seed i A (own_sheet i A))) s = Some (None, s')"
      "sheet = fst (fst (settle_success D h (map_of ts (shadow_base L + word_of_nat i)) net_in net_out
         (own_sheet i A, with_seed_sources i A (merge_sourced_sheet [] (incoming_shadow_sources (routes A) ! i))) sends))"
      "routes A' = distribute L height ps (sheet, ss') (opened i (routes A))" "seed_unalloc A' = seed_unalloc A \<or> seed_unalloc A' = []"
  | (plain) net_in net_out s1 r ss' where "stone_nets (map_of ts (shadow_base L + word_of_nat i)) = (net_in, net_out, NOTRACE)"
      "run_projector (map_option project_inputs P) (context_of L ps (with_seed i A (own_sheet i A))) s = Some (None, s1)"
      "run_projector (map_option project_call P) (context_of L ps (with_seed i A (own_sheet i A))) s1 = Some (r, s')"
      "routes A' = distribute L height ps (case r of Some out \<Rightarrow> out | None \<Rightarrow> with_seed i A (own_sheet i A), ss') (opened i (routes A))"
      "seed_unalloc A' = seed_unalloc A \<or> seed_unalloc A' = []"
  | (revert) net_in net_out m ptr ss' where "stone_nets (map_of ts (shadow_base L + word_of_nat i)) = (net_in, net_out, REVERT)"
      "s' = s" "net_in = Some m \<or> m = []"
      "routes A' = route_delta L ptr m ss' (opened i (routes A)) \<or> routes A' = opened i (routes A)" "seed_unalloc A' = seed_unalloc A"
proof -
  obtain net_in net_out st where nets: "stone_nets (map_of ts (shadow_base L + word_of_nat i)) = (net_in, net_out, st)" by (metis prod.exhaust)
  let ?ss = "merge_sourced_sheet [] (incoming_shadow_sources (routes A) ! i)"
  note step = assms [unfolded apply_stone_def Let_def prod.case, folded own_sheet_def opened_def, unfolded nets prod.case]
  show thesis
  proof (cases "st = REVERT")
    case True
    then show thesis using step nets
      by (auto simp: take_seed_sources_def split: option.splits if_splits intro: revert [of net_in net_out] revert [of net_in net_out "[]"])
  next
    case False
    then obtain r s1 where run: "run_projector (map_option project_inputs P) (context_of L ps (with_seed i A (own_sheet i A))) s = Some (r, s1)"
      using step by (auto simp: bind_eq_Some_conv)
    show thesis
    proof (cases r)
      case (Some out)
      then show thesis using step False run by (intro inputs [of out "with_seed_sources i A ?ss"]) (auto simp: take_seed_def)
    next
      case None
      show thesis
      proof (cases st)
        case NOTRACE
        then show thesis using step run None nets
          by (auto simp: bind_eq_Some_conv take_seed_def intro!: plain [of net_in net_out s1])
      next
        case SUCCESS
        obtain sh ss' sends where r: "settle_success D h (map_of ts (shadow_base L + word_of_nat i)) net_in net_out
            (own_sheet i A, with_seed_sources i A ?ss) (send_contracts A) = ((sh, ss'), sends)" by (metis prod.exhaust)
        show thesis
          by (rule success [where sends = "send_contracts A" and ss' = ss' and sheet = sh])
            (use step run None nets SUCCESS in \<open>auto simp: take_seed_sources_def r\<close>)
      qed (use False in simp)
    qed
  qed
qed

section \<open>Projectors\<close>

text \<open>
  What the code relies on a projector for: from the incoming balances and what the projected contracts hold it makes
  no new units of the token \<open>x\<close>, and a call it does not project gives the contracts nothing.
\<close>

locale fair_projector =
  fixes P :: "'s projector option" and inv :: "'s \<Rightarrow> bool" and wealth :: "'s \<Rightarrow> nat" and x :: alkane_id
  assumes projects: "P = Some p \<Longrightarrow> f = project_call p \<or> f = project_inputs p \<Longrightarrow> inv s \<Longrightarrow> sheet_ok (incoming ctx)
      \<Longrightarrow> f ctx s = Some (Inr out, s') \<Longrightarrow> inv s' \<and> sheet_ok out \<and> bal out x + wealth s' \<le> bal (incoming ctx) x + wealth s"
    and declines: "P = Some p \<Longrightarrow> f = project_call p \<or> f = project_inputs p \<Longrightarrow> inv s \<Longrightarrow> sheet_ok (incoming ctx)
      \<Longrightarrow> f ctx s = Some (Inl u, s') \<Longrightarrow> inv s' \<and> wealth s' \<le> wealth s"
begin

lemma run_projector_fair:
  assumes "run_projector (map_option f P) ctx s = Some (r, s')" "f = project_call \<or> f = project_inputs" "inv s" "sheet_ok (incoming ctx)"
  shows "inv s' \<and> (case r of Some out \<Rightarrow> sheet_ok out \<and> bal out x + wealth s' \<le> bal (incoming ctx) x + wealth s | None \<Rightarrow> wealth s' \<le> wealth s)"
proof (cases P)
  case (Some p)
  then show ?thesis
    using assms projects [OF Some, of "f p" s ctx] declines [OF Some, of "f p" s ctx]
    by (auto simp: run_projector_def split: option.splits sum.splits prod.splits)
qed (use assms in \<open>auto simp: run_projector_def\<close>)

lemma apply_stone_fair:
  assumes "apply_stone D h L height ts P i ps (A, s) = Some (A', s')" "layout_ok L" "app_ok L n A" "i < n" "inv s"
  shows "app_ok L n A' \<and> inv s' \<and> holdings (i + 1) A' x + wealth s'
    \<le> holdings i A x + wealth s + trace_credit (map_of ts (shadow_base L + word_of_nat i)) x"
proof -
  define H where "H = holdings i A x"
  note own = opened_accounts [OF assms(3,4)]
  note seed = with_seed_accounts [OF assms(3) own(3), where i = i]
  have H: "in_flight (i + 1) (opened i (routes A)) x + bal (own_sheet i A) x \<le> H"
      "in_flight (i + 1) (opened i (routes A)) x + bal (with_seed i A (own_sheet i A)) x \<le> H"
    using own(4) [of x] seed(2) [of x] by (auto simp: H_def holdings_def)
  have ctx: "sheet_ok (incoming (context_of L ps (with_seed i A (own_sheet i A))))" using seed(1) by (simp add: context_of_def)
  have fair: "app_ok L n A' \<and> holdings (i + 1) A' x + wealth s' \<le> H + wealth s + c"
    if "sheet_ok sheet" "routes A' = distribute L height ps (sheet, ss') (opened i (routes A))"
      "seed_unalloc A' = seed_unalloc A \<or> seed_unalloc A' = []" "bal sheet x + wealth s' \<le> bal m x + wealth s + c"
      "in_flight (i + 1) (opened i (routes A)) x + bal m x \<le> H" for sheet ss' m c
    using app_distribute(1) [OF assms(3,4,2) that(1,3,2)] app_distribute(2) [OF assms(3,4,2) that(1,3,2), of x] that(4,5) by simp
  show ?thesis
    using assms(1)
  proof (cases rule: apply_stone_cases)
    case (inputs out ss')
    note run = run_projector_fair [OF inputs(2) _ assms(5) ctx]
    have "app_ok L n A' \<and> holdings (i + 1) A' x + wealth s' \<le> H + wealth s + 0"
      by (rule fair [OF _ inputs(3,4) _ H(2)]) (use run in \<open>simp_all add: context_of_def\<close>)
    then show ?thesis using run by (simp add: H_def)
  next
    case (success net_in net_out sends ss' sheet)
    note run = run_projector_fair [OF success(2) _ assms(5) ctx]
    have sheet: "sheet_ok sheet" "bal sheet x \<le> bal (own_sheet i A) x + trace_credit (map_of ts (shadow_base L + word_of_nat i)) x"
      using settle_success_accounts [OF own(3), of net_out] stone_nets_ok(2) [OF success(1)] success(1,3)
      by (auto simp: trace_credit_def Let_def)
    have "app_ok L n A' \<and> holdings (i + 1) A' x + wealth s' \<le> H + wealth s + trace_credit (map_of ts (shadow_base L + word_of_nat i)) x"
      by (rule fair [OF sheet(1) success(4,5) _ H(1)]) (use run sheet(2) in simp)
    then show ?thesis using run by (simp add: H_def)
  next
    case (plain net_in net_out s1 r ss')
    note run = run_projector_fair [OF plain(2) _ assms(5) ctx]
    then have "inv s1" by simp
    note run' = run_projector_fair [OF plain(3) _ this ctx]
    have "app_ok L n A' \<and> holdings (i + 1) A' x + wealth s' \<le> H + wealth s + 0"
      by (rule fair [OF _ plain(4,5) _ H(2)]) (use run run' seed(1) in \<open>auto simp: context_of_def split: option.splits\<close>)
    then show ?thesis using run' by (simp add: H_def)
  next
    case (revert net_in net_out m ptr ss')
    have m: "sheet_ok m" "bal m x \<le> trace_credit (map_of ts (shadow_base L + word_of_nat i)) x"
      using stone_nets_ok(1) [OF revert(1)] revert(1,3) by (auto simp: trace_credit_def Let_def)
    then show ?thesis
      using app_refund(1) [OF assms(3,4,2) m(1) revert(5,4)] app_refund(2) [OF assms(3,4,2) m(1) revert(5,4), of x] assms(5) H(1) revert(2) by (simp add: H_def)
  qed
qed

lemma apply_stones_fair:
  assumes "apply_stones D h L height ts P i pss (A, s) = Some (A', s')" "layout_ok L" "app_ok L n A" "i + length pss = n" "inv s"
  shows "app_ok L n A' \<and> inv s' \<and> holdings n A' x + wealth s'
    \<le> holdings i A x + wealth s + (\<Sum>k\<leftarrow>[i..<n]. trace_credit (map_of ts (shadow_base L + word_of_nat k)) x)"
  using assms
proof (induction pss arbitrary: i A s)
  case (Cons ps pss)
  obtain A1 s1 where h: "apply_stone D h L height ts P i ps (A, s) = Some (A1, s1)"
    "apply_stones D h L height ts P (i + 1) pss (A1, s1) = Some (A', s')"
    using Cons.prems(1) by (auto simp: bind_eq_Some_conv)
  have "i < n" using Cons.prems(4) by simp
  note one = apply_stone_fair [OF h(1) Cons.prems(2,3) this Cons.prems(5)]
  then have "app_ok L n A1" "inv s1" by simp_all
  note rest = Cons.IH [OF h(2) Cons.prems(2) this(1) _ this(2)]
  have "[i..<n] = i # [i + 1..<n]" using \<open>i < n\<close> by (simp add: upt_conv_Cons)
  then show ?case using one rest Cons.prems(4) by simp
qed simp

lemma transfers_fair:
  assumes "apply_transfers_multi_attributed D outs stones traces height h seed sources P s = Some (A', s')" "sheet_ok seed" "inv s"
  defines "L \<equiv> layout_of outs (length stones)"
  shows "routing_ok L (routes A') \<and> inv s' \<and> allocated (out_map (routes A')) x + wealth s'
    \<le> bal seed x + wealth s + (\<Sum>k\<leftarrow>[0..<length stones]. trace_credit (map_of (trace_by_shadow L traces) (shadow_base L + word_of_nat k)) x)"
proof -
  let ?n = "length stones"
  let ?A = "\<lparr>seed_unalloc = seed, seed_sources = sources, routes = no_routes ?n, send_contracts = []\<rparr>"
  have run: "apply_stones D h L height (trace_by_shadow L traces) P 0 stones (?A, s) = Some (A', s')"
    using assms(1) by (simp add: apply_transfers_multi_attributed_def Let_def L_def)
  have "layout_ok L" by (simp add: L_def layout_ok_def layout_of_def Let_def)
  moreover have "app_ok L ?n ?A" using assms(2) by (simp add: app_ok_def no_routes_def routing_ok_def list_all_length)
  moreover have "holdings 0 ?A x = bal seed x" by (simp add: holdings_def in_flight_def no_routes_def allocated_def sum_list_replicate)
  ultimately have fair: "app_ok L ?n A'" "inv s'" "holdings ?n A' x + wealth s'
      \<le> bal seed x + wealth s + (\<Sum>k\<leftarrow>[0..<?n]. trace_credit (map_of (trace_by_shadow L traces) (shadow_base L + word_of_nat k)) x)"
    using apply_stones_fair [OF run _ _ _ assms(3), of ?n] by auto
  moreover have "allocated (out_map (routes A')) x \<le> holdings ?n A' x" by (simp add: holdings_def in_flight_def)
  ultimately show ?thesis by (auto simp: app_ok_def)
qed

end

section \<open>Without contracts\<close>

text \<open>Without a projector the contract holds trivially.\<close>

interpretation none: fair_projector None "\<lambda>_. True" "\<lambda>_. 0" x for x
  by unfold_locales simp_all

text \<open>Without traces and projector, protostones whose edicts and pointer lead somewhere lose nothing.\<close>

lemma plain_stone_exact:
  assumes "apply_stone D h L height [] None i ps (A, s) = Some (A', s')" "layout_ok L" "app_ok L n A" "i < n"
    and "ALKANES_V217_EDICT_FIX_HEIGHT \<le> height" "stone_safe L (i + 1) n ps" "holdings i A x \<le> U128_MAX"
  shows "holdings (i + 1) A' x = holdings i A x"
proof -
  have nets: "stone_nets None = (None, None, NOTRACE)" by (simp add: stone_nets_def)
  obtain ss' where r: "routes A' = distribute L height ps (with_seed i A (own_sheet i A), ss') (opened i (routes A))"
    using assms(1) by (cases rule: apply_stone_cases) (auto simp: run_projector_def nets)
  note own = opened_accounts [OF assms(3,4)]
  note dist = distribute_accounts(4) [OF assms(2) own(1) with_seed_accounts(1) [OF assms(3) own(3)] own(2) assms(5,6)]
  have "bal (with_seed i A (own_sheet i A)) x = bal (own_sheet i A) x + (if i = 0 then bal (seed_unalloc A) x else 0)"
    using with_seed_accounts(3) [OF assms(3) own(3), of x i] own(4) [of x] assms(7) by (simp add: holdings_def split: if_splits)
  then show ?thesis using dist [of x] own(4) [of x] assms(7) by (simp add: holdings_def r)
qed

lemma plain_stones_exact:
  assumes "apply_stones D h L height [] None i pss (A, s) = Some (A', s')" "layout_ok L" "app_ok L n A" "i + length pss = n"
    and "ALKANES_V217_EDICT_FIX_HEIGHT \<le> height" "\<forall>k < length pss. stone_safe L (i + k + 1) n (pss ! k)" "holdings i A x \<le> U128_MAX"
  shows "holdings n A' x = holdings i A x"
  using assms
proof (induction pss arbitrary: i A s)
  case (Cons ps pss)
  obtain A1 s1 where h: "apply_stone D h L height [] None i ps (A, s) = Some (A1, s1)"
    "apply_stones D h L height [] None (i + 1) pss (A1, s1) = Some (A', s')"
    using Cons.prems(1) by (auto simp: bind_eq_Some_conv)
  have i: "i < n" "i + 1 + length pss = n" using Cons.prems(4) by simp_all
  have "stone_safe L (i + 1) n ps" using Cons.prems(6) by force
  then have one: "holdings (i + 1) A1 x = holdings i A x" using plain_stone_exact [OF h(1) Cons.prems(2,3) i(1) Cons.prems(5)] Cons.prems(7) by simp
  have "app_ok L n A1" using none.apply_stone_fair [OF h(1) Cons.prems(2,3) i(1)] by simp
  moreover have "\<forall>k < length pss. stone_safe L (i + 1 + k + 1) n (pss ! k)" using Cons.prems(6) by force
  ultimately show ?case using Cons.IH [OF h(2) Cons.prems(2) _ i(2) Cons.prems(5)] one Cons.prems(7) by simp
qed simp

lemma stones_return: "\<exists>A'. apply_stones D h L height ts None i pss (A, s) = Some (A', s)"
proof (induction pss arbitrary: i A)
  case (Cons ps pss)
  have "\<exists>A1. apply_stone D h L height ts None i ps (A, s) = Some (A1, s)"
    by (auto simp: apply_stone_def run_projector_def Let_def split: prod.split trace_type.split)
  then show ?case using Cons.IH by fastforce
qed simp

end
