(* ===== verification/Registry_Accounts.thy ===== *)
theory Registry_Accounts
  imports Registry_Steps Stone_Accounts
begin

text \<open>
  The registry of contract rules is a fair projector for every token that no rule mints. This joins the projection
  of single calls to the allocation of the tokens of a transaction.
\<close>

section \<open>Sheets stay sheets\<close>

lemma sheet_ok_add [simp]: "sheet_ok sh \<Longrightarrow> sheet_ok (add_to_sheet sh t a)"
  by (simp add: add_to_sheet_def)

lemma sheet_ok_remove [simp]: "sheet_ok sh \<Longrightarrow> sheet_ok (fst (remove_from_sheet sh t a))"
proof -
  assume ok: "sheet_ok sh"
  have "map_of sh t = Some n \<Longrightarrow> n \<le> U128_MAX" for n using bal_le [OF ok, of t] by (simp add: bal_def)
  then show ?thesis using ok by (auto simp: remove_from_sheet_def saturating_sub_def Let_def split: option.split intro!: sheet_ok_update intro: le_trans [OF diff_le_self])
qed

lemma frbtc_sheet_ok: "frbtc_project X ctx r = Some (Inr out, r') \<Longrightarrow> sheet_ok (incoming ctx) \<Longrightarrow> sheet_ok out"
  by (auto simp: frbtc_project_def frbtc_unwrap_def Let_def run_iffs split: if_splits)

lemma amm_step_sheet_ok: "amm_step u r inc out r' \<Longrightarrow> sheet_ok inc \<Longrightarrow> sheet_ok out"
  by (induction rule: amm_step.induct) (simp_all add: swap_sheet_def)

lemma backing_sheet_ok: "add_treasury_redemption_backing out a d r = (r', out') \<Longrightarrow> sheet_ok out \<Longrightarrow> sheet_ok out'"
  by (auto simp: add_treasury_redemption_backing_def Let_def split: if_splits option.splits prod.splits)

lemma fire_sheet_ok:
  assumes "fire_project X ctx r = Some (Inr out, r')" "sheet_ok (incoming ctx)"
  shows "sheet_ok out"
  using assms by (auto simp: fire_project_def project_fire_token_def project_staking_def project_redemption_def project_bonding_def
      project_treasury_def project_distributor_def project_position_token_def project_read_or_admin_call_def without_token_def
      run_iffs Let_def split: if_splits prod.splits dest: backing_sheet_ok)

section \<open>The deployments do not change\<close>

lemma deployments_put [simp]: "deployments (put_sheet owner sh r) = deployments r"
  by (simp add: put_sheet_def)

lemma deployments_add [simp]: "deployments (add_contract_balance owner t a r) = deployments r"
  by (simp add: add_contract_balance_def)

lemma deployments_take: "take_contract_balance owner t a r = (r', n) \<Longrightarrow> deployments r' = deployments r"
  by (auto simp: take_contract_balance_def Let_def split: if_splits)

lemma deployments_backing: "add_treasury_redemption_backing out a d r = (r', out') \<Longrightarrow> deployments r' = deployments r"
  by (auto simp: add_treasury_redemption_backing_def Let_def split: if_splits option.splits prod.splits dest: deployments_take)

lemma deployments_deposit [simp]: "deployments (fold (\<lambda>(t, a). add_contract_balance owner t a) inc r) = deployments r"
  by (induction inc arbitrary: r) auto

lemma fire_deployments_kept:
  assumes "fire_project X ctx r = Some (Inr out, r')"
  shows "deployments r' = deployments r"
  using assms by (auto simp: fire_project_def project_fire_token_def project_staking_def project_redemption_def project_bonding_def
      project_treasury_def project_distributor_def project_position_token_def project_read_or_admin_call_def mint_fire_def burn_fire_def
      run_iffs Let_def split: if_splits prod.splits option.splits dest: deployments_backing deployments_take)

section \<open>The registry as a projector\<close>

definition registry_projector :: "codec \<Rightarrow> registry projector" where
  "registry_projector X = \<lparr>project_call = registry_project X, project_inputs = project_from_inputs X\<rparr>"

text \<open>No rule of the registry mints \<open>x\<close>: it is not frBTC, FIRE or the staking position, and not the share of a pool.\<close>

definition not_minted :: "alkane_id \<Rightarrow> registry \<Rightarrow> bool" where
  "not_minted x g = (x \<noteq> FRBTC_ALKANE_ID \<and> map_of (reserves (amm g)) x = None
     \<and> (\<forall>d. deployments (fire g) = Some d \<longrightarrow> x \<noteq> fire_token d \<and> x \<noteq> epoch0_position d))"

definition rules_ok :: "alkane_id \<Rightarrow> registry \<Rightarrow> bool" where
  "rules_ok x g = (pools_ok (reserves (amm g)) \<and> not_minted x g)"

definition contracts_wealth :: "alkane_id \<Rightarrow> registry \<Rightarrow> nat" where
  "contracts_wealth x g = held (reserves (amm g)) x + contracts_held (fire g) x"

lemma dom_None: "dom (map_of m') = dom (map_of m) \<Longrightarrow> map_of m x = None \<Longrightarrow> map_of m' x = None"
  by (metis domIff)

lemma registry_frbtc_fair:
  assumes "frbtc_project X ctx (frbtc g) = Some (Inr out, frbtc g)" "amm g' = amm g" "fire g' = fire g" "rules_ok x g" "sheet_ok (incoming ctx)"
  shows "rules_ok x g' \<and> sheet_ok out \<and> bal out x + contracts_wealth x g' \<le> bal (incoming ctx) x + contracts_wealth x g"
  using frbtc_project_effect [OF assms(1)] frbtc_sheet_ok [OF assms(1,5)] assms(2-4)
  by (simp add: rules_ok_def not_minted_def contracts_wealth_def)

lemma registry_amm_fair:
  assumes "amm_project X ctx (amm g) = Some (Inr out, amm g')" "fire g' = fire g" "rules_ok x g" "sheet_ok (incoming ctx)"
  shows "rules_ok x g' \<and> sheet_ok out \<and> bal out x + contracts_wealth x g' \<le> bal (incoming ctx) x + contracts_wealth x g"
proof -
  note step = amm_project_step [OF assms(1)]
  have ok: "pools_ok (reserves (amm g))" "map_of (reserves (amm g)) x = None" using assms(3) by (simp_all add: rules_ok_def not_minted_def)
  have "rules_ok x g'"
    using amm_step_pools_ok [OF step ok(1)] dom_None [OF conjunct1 [OF amm_step_dom [OF step]] ok(2)] assms(2,3)
    by (simp add: rules_ok_def not_minted_def)
  moreover have "bal out x + held (reserves (amm g')) x \<le> bal (incoming ctx) x + held (reserves (amm g)) x"
    using amm_step_conserves [OF step ok(1), of x] amm_step_dom [OF step] ok(2) by simp
  ultimately show ?thesis using amm_step_sheet_ok [OF step assms(4)] assms(2) by (simp add: contracts_wealth_def)
qed

lemma registry_fire_fair:
  assumes "amm_project X ctx (amm g) = Some (Inl (), amm g')" "fire_project X ctx (fire g) = Some (Inr out, fire g')"
    and "rules_ok x g" "sheet_ok (incoming ctx)"
  shows "rules_ok x g' \<and> sheet_ok out \<and> bal out x + contracts_wealth x g' \<le> bal (incoming ctx) x + contracts_wealth x g"
proof -
  have low: "only_lowers (amm g) (amm g')" by (rule amm_project_only_lowers [OF assms(1)])
  have "rules_ok x g'"
    using low dom_None [of "reserves (amm g')" "reserves (amm g)" x] fire_deployments_kept [OF assms(2)] assms(3)
    by (simp add: rules_ok_def not_minted_def only_lowers_def)
  moreover have "fire_keeps x (incoming ctx) (fire g) out (fire g')"
    using fire_project_keeps [OF assms(2), of x] assms(3,4) by (simp add: rules_ok_def not_minted_def sheet_ok_def)
  moreover have "held (reserves (amm g')) x \<le> held (reserves (amm g)) x" using low by (simp add: only_lowers_def)
  ultimately show ?thesis using fire_sheet_ok [OF assms(2,4)] by (simp add: fire_keeps_def contracts_wealth_def)
qed

lemma registry_declined_fair:
  assumes "registry_project X ctx g = Some (Inl u, g') \<or> project_from_inputs X ctx g = Some (Inl u, g')" "rules_ok x g"
  shows "rules_ok x g' \<and> contracts_wealth x g' \<le> contracts_wealth x g"
  using registry_declines [OF assms(1)] assms(2) dom_None [of "reserves (amm g')" "reserves (amm g)" x]
  by (auto simp: rules_ok_def not_minted_def only_lowers_def contracts_wealth_def)

interpretation reg: fair_projector "Some (registry_projector X)" "rules_ok x" "contracts_wealth x" x for X x
proof unfold_locales
  fix p f s ctx out s'
  assume p: "Some (registry_projector X) = Some p" "f = project_call p \<or> f = project_inputs p"
    and s: "rules_ok x s" "sheet_ok (incoming ctx)" and run: "f ctx s = Some (Inr out, s')"
  have "registry_project X ctx s = Some (Inr out, s') \<or> project_from_inputs X ctx s = Some (Inr out, s')"
    using p run by (auto simp: registry_projector_def)
  then show "rules_ok x s' \<and> sheet_ok out \<and> bal out x + contracts_wealth x s' \<le> bal (incoming ctx) x + contracts_wealth x s"
  proof
    assume "registry_project X ctx s = Some (Inr out, s')"
    then show ?thesis
      by (cases rule: registry_project_cases) (use s registry_frbtc_fair registry_amm_fair registry_fire_fair in blast)+
  next
    assume "project_from_inputs X ctx s = Some (Inr out, s')"
    then show ?thesis
      by (cases rule: project_from_inputs_cases) (use s registry_frbtc_fair registry_amm_fair in blast)+
  qed
next
  fix p f s ctx u s'
  assume p: "Some (registry_projector X) = Some p" "f = project_call p \<or> f = project_inputs p"
    and s: "rules_ok x s" and run: "f ctx s = Some (Inl u, s')"
  then show "rules_ok x s' \<and> contracts_wealth x s' \<le> contracts_wealth x s"
    by (intro registry_declined_fair [of X ctx s u s']) (auto simp: registry_projector_def)
qed

end
