(* ===== verification/Trace_Clean.thy ===== *)
theory Trace_Clean
  imports Trace
begin

text \<open>
  The removal of host functions' returns finds a removal exactly when there is one: some candidates whose
  removal leaves a properly nested trace.
\<close>

section \<open>Nesting\<close>

text \<open>Calls and returns are properly nested, with \<open>d\<close> calls open before the first event.\<close>

fun nested :: "nat \<Rightarrow> clean_view list \<Rightarrow> bool" where
  "nested d [] = (d = 0)"
| "nested d (VInvoke # vs) = nested (d + 1) vs"
| "nested d (VReturn x # vs) = (d > 0 \<and> nested (d - 1) vs)"
| "nested d (VOther # vs) = nested d vs"

fun kept_from :: "nat list \<Rightarrow> nat \<Rightarrow> 'a list \<Rightarrow> 'a list" where
  "kept_from R idx [] = []"
| "kept_from R idx (v # vs) = (if idx \<in> set R then kept_from R (idx + 1) vs else v # kept_from R (idx + 1) vs)"

lemma kept_kept_from: "kept R vs = kept_from R 0 vs"
proof -
  have "map snd (filter (\<lambda>(i, _). i \<notin> set R) (zip [idx..<idx + length vs] vs)) = kept_from R idx vs" for idx
  proof (induction vs arbitrary: idx)
    case (Cons v vs)
    have "[idx..<idx + length (v # vs)] = idx # [Suc idx..<Suc idx + length vs]" by (simp add: upt_conv_Cons del: upt_Suc)
    then show ?case using Cons [of "Suc idx"] by (simp del: upt_Suc)
  qed simp
  from this [of 0] show ?thesis by (simp add: kept_def)
qed

lemma count_simps [simp]:
  "invokes [] = 0" "returns [] = 0"
  "invokes (VInvoke # vs) = invokes vs + 1" "invokes (VReturn x # vs) = invokes vs" "invokes (VOther # vs) = invokes vs"
  "returns (VInvoke # vs) = returns vs" "returns (VReturn x # vs) = returns vs + 1" "returns (VOther # vs) = returns vs"
  by (simp_all add: invokes_def returns_def is_return_def)

lemma nested_counts: "nested d vs \<Longrightarrow> d + invokes vs = returns vs"
  by (induction d vs rule: nested.induct) auto

lemma validate_nested:
  assumes "0 \<le> depth" "int ni - int nr = depth"
  shows "validate_loop R idx vs ni nr depth \<longleftrightarrow> nested (nat depth) (kept_from R idx vs)"
  using assms
proof (induction R idx vs ni nr depth rule: validate_loop.induct)
  case (2 removed idx v vs ni nr depth)
  then show ?case by (cases v) (auto simp: nat_add_distrib nat_diff_distrib)
qed auto

section \<open>The candidates that are removed\<close>

lemma removal_loop_candidates:
  assumes "removal_loop cand idx vs removed stack seen depth = Some (rem, n)"
  shows "set rem \<subseteq> set removed \<union> set stack \<union> {i. idx \<le> i \<and> i < idx + length vs \<and> cand (vs ! (i - idx))}"
  using assms
proof (induction cand idx vs removed stack seen depth rule: removal_loop.induct)
  case (2 cand idx v vs removed stack seen depth)
  have shift: "{i. idx + 1 \<le> i \<and> i < idx + 1 + length vs \<and> cand (vs ! (i - (idx + 1)))}
      \<subseteq> {i. idx \<le> i \<and> i < idx + length (v # vs) \<and> cand ((v # vs) ! (i - idx))}"
    by (auto simp: nth_Cons')
  have own: "cand v \<Longrightarrow> idx \<in> {i. idx \<le> i \<and> i < idx + length (v # vs) \<and> cand ((v # vs) ! (i - idx))}" by simp
  show ?case
  proof (cases v)
    case VInvoke
    then show ?thesis using 2(1) 2(5) shift by fastforce
  next
    case VOther
    then show ?thesis using 2(4) 2(5) shift by fastforce
  next
    case (VReturn x)
    let ?s = "if cand v then idx # stack else stack" and ?n = "if cand v then seen + 1 else seen"
    have s: "set ?s \<subseteq> set stack \<union> {i. idx \<le> i \<and> i < idx + length (v # vs) \<and> cand ((v # vs) ! (i - idx))}" using own by auto
    show ?thesis
    proof (cases "depth - 1 < 0")
      case True
      then obtain j st where j: "?s = j # st"
        and loop: "removal_loop cand (idx + 1) vs (List.insert j removed) st ?n (depth - 1 + 1) = Some (rem, n)"
        using 2(5) VReturn by (auto simp: Let_def split: list.splits)
      have "set rem \<subseteq> set (List.insert j removed) \<union> set st \<union> {i. idx + 1 \<le> i \<and> i < idx + 1 + length vs \<and> cand (vs ! (i - (idx + 1)))}"
        using 2(2) [OF VReturn refl refl refl True j loop] .
      moreover have "set (List.insert j removed) \<union> set st = set removed \<union> set ?s" by (simp add: j)
      ultimately show ?thesis using shift s by blast
    next
      case False
      then have "removal_loop cand (idx + 1) vs removed ?s ?n (depth - 1) = Some (rem, n)" using 2(5) VReturn by (simp add: Let_def)
      from 2(3) [OF VReturn refl refl refl False this] show ?thesis using shift s by blast
    qed
  qed
qed auto

section \<open>Removing the latest candidate is always good enough\<close>

definition run_ok :: "nat \<Rightarrow> nat list \<Rightarrow> nat list \<Rightarrow> bool" where
  "run_ok idx removed stack = (distinct (removed @ stack) \<and> (\<forall>i \<in> set (removed @ stack). i < idx))"

text \<open>A step of the loop at a return.\<close>

lemma removal_loop_return:
  "removal_loop cand idx (VReturn x # vs) removed stack seen depth =
     (let st = (if cand (VReturn x) then idx # stack else stack); n = (if cand (VReturn x) then seen + 1 else seen) in
      if depth < 1 then (case st of [] \<Rightarrow> None | j # st' \<Rightarrow> removal_loop cand (idx + 1) vs (List.insert j removed) st' n depth)
      else removal_loop cand (idx + 1) vs removed st n (depth - 1))"
  by (auto simp: Let_def split: list.split)

lemma removed_subset: "removal_loop cand idx vs removed stack seen depth = Some (rem, n) \<Longrightarrow> set removed \<subseteq> set rem"
proof (induction cand idx vs removed stack seen depth rule: removal_loop.induct)
  case (2 cand idx v vs removed stack seen depth)
  then show ?case by (cases v) (fastforce simp: Let_def split: if_splits list.splits)+
qed simp

lemma run_ok_push: "run_ok idx removed stack \<Longrightarrow> run_ok (idx + 1) removed (if c then idx # stack else stack)"
  by (auto simp: run_ok_def less_Suc_eq)

lemma run_ok_pop: "run_ok idx removed (j # st) \<Longrightarrow> run_ok idx (List.insert j removed) st \<and> length (List.insert j removed) = length removed + 1"
  by (auto simp: run_ok_def)

lemma run_ok_Suc: "run_ok idx removed stack \<Longrightarrow> run_ok (idx + 1) removed stack"
  by (auto simp: run_ok_def less_Suc_eq)

text \<open>The loop finds as many candidates as any removal that nests the trace.\<close>

lemma removal_loop_finds:
  assumes "nested (nat depth + slack) (kept_from R idx vs)" "0 \<le> depth" "slack \<le> length stack" "run_ok idx removed stack"
    and "seen = length removed + length stack"
    and "\<forall>i \<in> set R. idx \<le> i \<longrightarrow> i < idx + length vs \<longrightarrow> cand (vs ! (i - idx))" "\<And>v. cand v \<Longrightarrow> is_return v"
  shows "\<exists>rem n. removal_loop cand idx vs removed stack seen depth = Some (rem, n) \<and> length rem \<le> n
    \<and> depth + int (invokes vs) + int (length rem) = int (returns vs) + int (length removed)"
  using assms(1-6)
proof (induction vs arbitrary: idx removed stack seen depth slack)
  case (Cons v vs)
  have tail: "\<forall>i \<in> set R. idx + 1 \<le> i \<longrightarrow> i < idx + 1 + length vs \<longrightarrow> cand (vs ! (i - (idx + 1)))"
  proof (intro ballI impI)
    fix i assume "i \<in> set R" "idx + 1 \<le> i" "i < idx + 1 + length vs"
    then show "cand (vs ! (i - (idx + 1)))" using Cons.prems(6) [rule_format, of i] by (simp add: nth_Cons')
  qed
  have here: "idx \<in> set R \<Longrightarrow> cand v" using Cons.prems(6) by force
  note IH = Cons.IH [OF _ _ _ _ _ tail]
  show ?case
  proof (cases v)
    case VInvoke
    then have "idx \<notin> set R" using here assms(7) [of v] by (auto simp: is_return_def)
    then have "nested (nat (depth + 1) + slack) (kept_from R (idx + 1) vs)"
      using Cons.prems(1,2) VInvoke by (simp add: nat_add_distrib)
    from IH [OF this _ Cons.prems(3) run_ok_Suc [OF Cons.prems(4)] Cons.prems(5)] Cons.prems(2) VInvoke show ?thesis by force
  next
    case VOther
    then have "idx \<notin> set R" using here assms(7) [of v] by (auto simp: is_return_def)
    then have "nested (nat depth + slack) (kept_from R (idx + 1) vs)" using Cons.prems(1) VOther by simp
    from IH [OF this Cons.prems(2,3) run_ok_Suc [OF Cons.prems(4)] Cons.prems(5)] VOther show ?thesis by force
  next
    case (VReturn x)
    define st where "st = (if cand v then idx # stack else stack)"
    define n where "n = (if cand v then seen + 1 else seen)"
    have ok: "run_ok (idx + 1) removed st" unfolding st_def by (rule run_ok_push [OF Cons.prems(4)])
    have n: "n = length removed + length st" and len: "length stack \<le> length st" "idx \<in> set R \<Longrightarrow> length st = length stack + 1"
      using Cons.prems(5) here by (auto simp: n_def st_def)
    obtain slack' where slack': "nested (nat depth + slack' - 1) (kept_from R (idx + 1) vs)" "slack' \<le> length st" "0 < nat depth + slack'"
      using Cons.prems(1,3) VReturn len by (cases "idx \<in> set R") (auto intro: that [of "slack + 1"] that [of slack])
    show ?thesis
    proof (cases "depth < 1")
      case True
      then have "depth = 0" using Cons.prems(2) by simp
      then obtain j st' where j: "st = j # st'" using slack'(2,3) by (cases st) auto
      note pop = run_ok_pop [OF ok [unfolded j]]
      from slack' \<open>depth = 0\<close> have "nested (nat depth + (slack' - 1)) (kept_from R (idx + 1) vs)" "slack' - 1 \<le> length st'"
        by (simp_all add: j)
      from IH [OF this(1) Cons.prems(2) this(2), of "List.insert j removed" n] pop n j
      obtain rem m where "removal_loop cand (idx + 1) vs (List.insert j removed) st' n depth = Some (rem, m)" "length rem \<le> m"
        "depth + int (invokes vs) + int (length rem) = int (returns vs) + int (length (List.insert j removed))" by auto
      moreover have "removal_loop cand idx (v # vs) removed stack seen depth = removal_loop cand (idx + 1) vs (List.insert j removed) st' n depth"
        using True j unfolding VReturn removal_loop_return by (simp add: Let_def st_def n_def VReturn split: if_splits)
      ultimately show ?thesis using pop VReturn by auto
    next
      case False
      then have "nested (nat (depth - 1) + slack') (kept_from R (idx + 1) vs)" using slack'(1) by (simp add: nat_diff_distrib)
      from IH [OF this _ slack'(2) ok n] False
      obtain rem m where "removal_loop cand (idx + 1) vs removed st n (depth - 1) = Some (rem, m)" "length rem \<le> m"
        "depth - 1 + int (invokes vs) + int (length rem) = int (returns vs) + int (length removed)" by auto
      moreover have "removal_loop cand idx (v # vs) removed stack seen depth = removal_loop cand (idx + 1) vs removed st n (depth - 1)"
        using False unfolding VReturn removal_loop_return by (simp add: Let_def st_def n_def VReturn)
      ultimately show ?thesis using VReturn by auto
    qed
  qed
qed (auto simp: run_ok_def)

text \<open>What it removes nests the trace.\<close>

lemma removal_loop_nests:
  assumes "removal_loop cand idx vs removed stack seen depth = Some (rem, n)" "0 \<le> depth" "run_ok idx removed stack"
    and "depth + int (invokes vs) + int (length rem) = int (returns vs) + int (length removed)" "\<And>v. cand v \<Longrightarrow> is_return v"
  shows "nested (nat depth + card (set rem \<inter> set stack)) (kept_from rem idx vs)"
  using assms(1-4)
proof (induction vs arbitrary: idx removed stack seen depth)
  case Nil
  then have "rem = removed" "depth = 0" "set removed \<inter> set stack = {}" by (auto simp: run_ok_def)
  then show ?case by simp
next
  case (Cons v vs)
  have bound: "set rem \<subseteq> set removed \<union> set stack \<union> {i. idx \<le> i \<and> i < idx + length (v # vs) \<and> cand ((v # vs) ! (i - idx))}"
    by (rule removal_loop_candidates [OF Cons.prems(1)])
  have fresh: "idx \<notin> set removed \<union> set stack" using Cons.prems(3) by (auto simp: run_ok_def)
  have here: "idx \<in> set rem \<Longrightarrow> cand v" using bound fresh by auto
  show ?case
  proof (cases v)
    case VInvoke
    then have "idx \<notin> set rem" using here assms(5) [of v] by (auto simp: is_return_def)
    moreover have "nested (nat (depth + 1) + card (set rem \<inter> set stack)) (kept_from rem (idx + 1) vs)"
      by (rule Cons.IH [OF _ _ run_ok_Suc [OF Cons.prems(3)]]) (use Cons.prems(1,2,4) VInvoke in auto)
    ultimately show ?thesis using VInvoke Cons.prems(2) by (simp add: nat_add_distrib)
  next
    case VOther
    then have "idx \<notin> set rem" using here assms(5) [of v] by (auto simp: is_return_def)
    moreover have "nested (nat depth + card (set rem \<inter> set stack)) (kept_from rem (idx + 1) vs)"
      by (rule Cons.IH [OF _ _ run_ok_Suc [OF Cons.prems(3)]]) (use Cons.prems(1,2,4) VOther in auto)
    ultimately show ?thesis using VOther by simp
  next
    case (VReturn x)
    define st where "st = (if cand v then idx # stack else stack)"
    define m where "m = (if cand v then seen + 1 else seen)"
    have ok: "run_ok (idx + 1) removed st" unfolding st_def by (rule run_ok_push [OF Cons.prems(3)])
    have grow: "card (set rem \<inter> set st) = card (set rem \<inter> set stack) + (if idx \<in> set rem then 1 else 0)"
      using here fresh by (auto simp: st_def)
    have goal: ?thesis if "nested d (kept_from rem (idx + 1) vs)" "nat depth + card (set rem \<inter> set st) = d + 1" for d
      using that grow VReturn by (cases "idx \<in> set rem") auto
    show ?thesis
    proof (cases "depth < 1")
      case True
      then have d: "depth = 0" using Cons.prems(2) by simp
      obtain j st' where j: "st = j # st'" and loop: "removal_loop cand (idx + 1) vs (List.insert j removed) st' m depth = Some (rem, n)"
        using Cons.prems(1) True unfolding VReturn removal_loop_return
        by (auto simp: Let_def st_def m_def VReturn split: list.splits if_splits)
      note pop = run_ok_pop [OF ok [unfolded j]]
      have "j \<in> set rem" "j \<notin> set st'" using removed_subset [OF loop] ok by (auto simp: run_ok_def j)
      then have "card (set rem \<inter> set st) = card (set rem \<inter> set st') + 1" by (simp add: j)
      moreover have "nested (nat depth + card (set rem \<inter> set st')) (kept_from rem (idx + 1) vs)"
        by (rule Cons.IH [OF loop]) (use Cons.prems(2,4) VReturn pop in auto)
      ultimately show ?thesis using goal d by auto
    next
      case False
      then have loop: "removal_loop cand (idx + 1) vs removed st m (depth - 1) = Some (rem, n)"
        using Cons.prems(1) unfolding VReturn removal_loop_return by (simp add: Let_def st_def m_def VReturn)
      have "nested (nat (depth - 1) + card (set rem \<inter> set st)) (kept_from rem (idx + 1) vs)"
        by (rule Cons.IH [OF loop _ ok]) (use False Cons.prems(4) VReturn in auto)
      then show ?thesis using goal False by (auto simp: nat_diff_distrib)
    qed
  qed
qed

section \<open>Attempts\<close>

definition rebalances :: "(clean_view \<Rightarrow> bool) \<Rightarrow> clean_view list \<Rightarrow> nat list \<Rightarrow> bool" where
  "rebalances cand vs R = ((\<forall>i \<in> set R. i < length vs \<and> cand (vs ! i)) \<and> nested 0 (kept R vs))"

lemma removal_attempt_sound:
  assumes "removal_attempt cand vs = Some R"
  shows "rebalances cand vs R"
proof -
  obtain n where "removal_loop cand 0 vs [] [] 0 0 = Some (R, n)" "validate_loop R 0 vs 0 0 0"
    using assms by (auto simp: removal_attempt_def Let_def split: option.splits if_splits)
  then show ?thesis using removal_loop_candidates [of cand 0 vs "[]" "[]" 0 0 R n] validate_nested [of 0 0 0 R 0 vs]
    by (auto simp: rebalances_def kept_kept_from)
qed

lemma removal_attempt_complete:
  assumes "rebalances cand vs R" "invokes vs < returns vs" "\<And>v. cand v \<Longrightarrow> is_return v"
  shows "removal_attempt cand vs \<noteq> None"
proof -
  have "nested 0 (kept_from R 0 vs)" "\<forall>i \<in> set R. i < length vs \<longrightarrow> cand (vs ! i)"
    using assms(1) by (auto simp: rebalances_def kept_kept_from)
  with removal_loop_finds [of 0 0 R 0 vs "[]" "[]" 0 cand] assms(3)
  obtain rem n where loop: "removal_loop cand 0 vs [] [] 0 0 = Some (rem, n)" "length rem \<le> n"
    "int (invokes vs) + int (length rem) = int (returns vs)" by (auto simp: run_ok_def)
  then have "length rem = returns vs - invokes vs" by linarith
  moreover have "nested 0 (kept_from rem 0 vs)"
    using removal_loop_nests [OF loop(1)] loop(3) assms(3) by (simp add: run_ok_def)
  ultimately show ?thesis
    using loop(1,2) validate_nested [of 0 0 0 rem 0 vs] by (simp add: removal_attempt_def)
qed

lemma candidate_is_return: "candidate D h f v \<Longrightarrow> is_return v"
  by (auto simp: candidate_def is_return_def split: clean_view.splits)

end
