(* ===== verification/Transfer_Properties.thy ===== *)
theory Transfer_Properties
  imports Projection_Properties Registry_Accounts Trace_Clean
begin

text \<open>
  The properties of the allocation of tokens to the outputs of a transaction and of the traces it reads. The witnesses
  run a transaction with one spendable output, which calls the pool of \<open>Projection_Properties\<close>.
\<close>

section \<open>Transactions\<close>

text \<open>What the traces of a transaction add to its tokens.\<close>

definition granted :: "tx_out list \<Rightarrow> full_stone list \<Rightarrow> espo_trace list \<Rightarrow> alkane_id \<Rightarrow> nat" where
  "granted outs stones traces x = (let L = layout_of outs (length stones) in
     \<Sum>k\<leftarrow>[0..<length stones]. trace_credit (map_of (trace_by_shadow L traces) (shadow_base L + word_of_nat k)) x)"

definition stones_of :: "(tx_out list \<Rightarrow> full_stone list option) \<Rightarrow> tx_out list \<Rightarrow> full_stone list" where
  "stones_of parse outs = (case parse outs of Some stones \<Rightarrow> stones | None \<Rightarrow> [])"

lemma seed_accounts:
  defines "seed ins \<equiv> fold (\<lambda>e. credit (be_alkane e, be_amount e)) (filter (\<lambda>e. be_amount e > 0) ins) []"
  shows "sheet_ok (seed ins)" "bal (seed ins) x \<le> paid ins x"
proof -
  have "fold (\<lambda>e. credit (be_alkane e, be_amount e)) es m = fold credit (map (\<lambda>e. (be_alkane e, be_amount e)) es) m" for es :: "balance_entry list" and m
    by (simp add: fold_map o_def)
  moreover have "map (\<lambda>e. (be_alkane e, be_amount e)) (filter (\<lambda>e. be_amount e > 0) ins)
      = filter (\<lambda>e. snd e \<noteq> 0) (map (\<lambda>e. (be_alkane e, be_amount e)) ins)" by (simp add: filter_map o_def)
  ultimately have seed: "seed ins = credit_all (map (\<lambda>e. (be_alkane e, be_amount e)) ins) []" by (simp only: seed_def credit_all_def)
  show "sheet_ok (seed ins)" by (simp add: seed)
  show "bal (seed ins) x \<le> paid ins x" using bal_credit_all [of "[]" x] by (simp add: seed paid_def)
qed

text \<open>
  C3. The projection of an unconfirmed transaction creates no tokens that no rule of the registry mints: take a token
  other than frBTC, FIRE, the staking position and the shares of any pool, and fewer than \<open>2 ^ 32\<close> outputs. What the transaction allocates of it to its outputs, together with what pools and contracts hold
  afterwards, is at most what its inputs carried, what pools and contracts held before, and what the traces
  of the transaction return or refund. Only spendable outputs receive tokens.
\<close>

theorem projected_transaction_creates_no_tokens:
  assumes "project_tx_output_balances_from_traces_with_projector D parse outs traces ins (Some (registry_projector X)) g = Some (m, g')"
    and "rules_ok x g" "length outs < 2 ^ 32"
  shows "allocated m x + contracts_wealth x g' \<le> paid ins x + contracts_wealth x g + granted outs (stones_of parse outs) traces x
    \<and> rules_ok x g' \<and> (\<forall>v es. (v, es) \<in> set m \<longrightarrow> is_valid_spend_vout outs v)"
proof -
  consider (empty) "m = []" "g' = g"
    | (run) stones A where "stones_of parse outs = stones" "m = out_map (routes A)"
        "apply_transfers_multi_attributed D outs stones traces ALKANES_V217_EDICT_FIX_HEIGHT ([], [], [], [])
           (fold (\<lambda>e. credit (be_alkane e, be_amount e)) (filter (\<lambda>e. be_amount e > 0) ins) []) [] (Some (registry_projector X)) g = Some (A, g')"
    using assms(1) by (auto simp: project_tx_output_balances_from_traces_with_projector_def apply_transfers_multi_def stones_of_def
        split: if_splits option.splits)
  then show ?thesis
  proof cases
    case empty
    then show ?thesis using assms(2) by (simp add: allocated_def)
  next
    case (run stones A)
    note fair = reg.transfers_fair [OF run(3) seed_accounts(1) assms(2)]
    have "entry_ok (layout_of outs (length stones)) e" if "e \<in> set m" for e
      using fair that run(2) by (auto simp: routing_ok_def list_all_iff)
    then have "is_valid_spend_vout outs v" if "(v, es) \<in> set m" for v es
      using that by (force simp: entry_ok_def layout_of_def Let_def dest: spendables_valid [OF _ assms(3)])
    then show ?thesis using fair seed_accounts(2) [of ins x] run(1,2) by (auto simp: granted_def Let_def)
  qed
qed

definition no_decoders :: decoders where
  "no_decoders = \<lparr>hex_decode = \<lambda>_. None, decodes_header = \<lambda>_. False, decodes_coinbase = \<lambda>_. False\<rparr>"

definition small_outs :: "tx_out list" where
  "small_outs = [\<lparr>script_pubkey = [1], sats = 546\<rparr>, \<lparr>script_pubkey = [0x6a], sats = 0\<rparr>]"

definition small_stone :: full_stone where
  "small_stone = \<lparr>protocol_tag = 1, message = [2, 9, 3], edicts = [], pointer = Some 0, refund = Some 0\<rparr>"

definition small_input :: "balance_entry list" where
  "small_input = [\<lparr>be_alkane = coin 1, be_amount = 20\<rparr>]"

lemma small_swap_projects:
  "project_tx_output_balances_from_traces_with_projector no_decoders (\<lambda>_. Some [small_stone]) small_outs [] small_input
     (Some (registry_projector plain_codec)) small_registry
   = Some ([(0, [\<lparr>be_alkane = coin 3, be_amount = 49\<rparr>])], small_registry\<lparr>amm := after_swap, applied := True\<rparr>)"
  by code_simp

theorem projected_transaction_creates_no_tokens_witness:
  "allocated [(0, [\<lparr>be_alkane = coin 3, be_amount = 49\<rparr>])] (coin 3)
     + contracts_wealth (coin 3) (small_registry\<lparr>amm := after_swap, applied := True\<rparr>)
   \<le> contracts_wealth (coin 3) small_registry \<and> is_valid_spend_vout small_outs 0"
proof -
  have h: "rules_ok (coin 3) small_registry"
  proof -
    have "deployments (fire small_registry) = None" "pools_ok (reserves (amm small_registry))" "coin 3 \<noteq> FRBTC_ALKANE_ID"
      "map_of (reserves (amm small_registry)) (coin 3) = None" by code_simp+
    then show ?thesis by (simp add: rules_ok_def not_minted_def)
  qed
  have "length small_outs < 2 ^ 32" "paid small_input (coin 3) = 0" "granted small_outs (stones_of (\<lambda>_. Some [small_stone]) small_outs) [] (coin 3) = 0"
    by code_simp+
  then show ?thesis using projected_transaction_creates_no_tokens [OF small_swap_projects h] by auto
qed

text \<open>
  C16. In a confirmed block the allocation always succeeds and is well typed: whatever the traces say, each allocation goes
  to an existing output that is not an \<open>OP_RETURN\<close>, has a positive amount that fits \<open>u128\<close>, and the sheets
  that wait on shadow outputs have one \<open>u128\<close> amount per token.
\<close>

theorem allocations_well_typed:
  assumes "sheet_ok seed" "length outs < 2 ^ 32"
  shows "\<exists>A. apply_transfers_multi_attributed D outs stones traces height h seed sources None s = Some (A, s)
    \<and> (\<forall>v es b. (v, es) \<in> set (out_map (routes A)) \<longrightarrow> b \<in> set es \<longrightarrow>
         is_valid_spend_vout outs v \<and> 0 < be_amount b \<and> be_amount b \<le> U128_MAX)
    \<and> list_all sheet_ok (incoming_shadow (routes A))"
proof -
  let ?L = "layout_of outs (length stones)"
  obtain A where run: "apply_transfers_multi_attributed D outs stones traces height h seed sources None s = Some (A, s)"
    using stones_return that unfolding apply_transfers_multi_attributed_def Let_def by fast
  have "routing_ok ?L (routes A)" using none.transfers_fair [OF run assms(1)] by simp
  moreover have "is_valid_spend_vout outs v" if "v \<in> set (spendable_vouts ?L)" for v
    using spendables_valid [OF _ assms(2)] that by (simp add: layout_of_def Let_def)
  ultimately show ?thesis using run by (fastforce simp: routing_ok_def entry_ok_def list_all_iff)
qed

theorem allocations_well_typed_witness:
  "\<exists>A. apply_transfers_multi_attributed no_decoders small_outs [small_stone] [] 0 ([], [], [], []) [(coin 1, 20)] [] None () = Some (A, ())
    \<and> list_all sheet_ok (incoming_shadow (routes A))"
proof -
  have "sheet_ok [(coin 1, 20)]" "length small_outs < 2 ^ 32" by code_simp+
  from allocations_well_typed [OF this, of no_decoders "[small_stone]" "[]" 0 "([], [], [], [])" "[]" "()"] show ?thesis by auto
qed

text \<open>
  C6. Nothing is lost: without traces and contracts, from the height of the edict fix on, a transaction whose edicts and
  pointers lead to spendable outputs, to all outputs, or to shadow outputs still to be processed allocates
  exactly the tokens of its inputs.
\<close>

theorem allocation_loses_nothing:
  assumes "sheet_ok seed" "stones \<noteq> []" "ALKANES_V217_EDICT_FIX_HEIGHT \<le> height"
    and "\<forall>k < length stones. stone_safe (layout_of outs (length stones)) (k + 1) (length stones) (stones ! k)"
  shows "\<exists>m. apply_transfers_multi D outs stones [] height seed None s = Some (m, s) \<and> (\<forall>x. allocated m x = bal seed x)"
proof -
  let ?n = "length stones" and ?L = "layout_of outs (length stones)"
  let ?A = "\<lparr>seed_unalloc = seed, seed_sources = [], routes = no_routes ?n, send_contracts = []\<rparr>"
  obtain A where run: "apply_stones D ([], [], [], []) ?L height [] None 0 stones (?A, s) = Some (A, s)" using stones_return that by fast
  have ok: "layout_ok ?L" "app_ok ?L ?n ?A"
    using assms(1) by (simp_all add: layout_ok_def layout_of_def Let_def app_ok_def no_routes_def routing_ok_def list_all_length)
  have start: "holdings 0 ?A x = bal seed x" for x by (simp add: holdings_def in_flight_def no_routes_def allocated_def sum_list_replicate)
  have "holdings ?n A x = bal seed x" for x
    using plain_stones_exact [OF run ok _ assms(3), of x] assms(4) start [of x] bal_le [OF assms(1), of x] by simp
  moreover have "length (incoming_shadow (routes A)) = ?n" using none.apply_stones_fair [OF run ok] by (simp add: app_ok_def)
  ultimately have "allocated (out_map (routes A)) x = bal seed x" for x using assms(2) by (simp add: holdings_def in_flight_def)
  then show ?thesis using run by (simp add: apply_transfers_multi_def apply_transfers_multi_attributed_def trace_by_shadow_def Let_def)
qed

theorem allocation_loses_nothing_witness:
  "\<exists>m. apply_transfers_multi no_decoders small_outs [small_stone] [] 943500 [(coin 1, 20)] None () = Some (m, ())
    \<and> allocated m (coin 1) = 20"
proof -
  have "sheet_ok [(coin 1, 20)]" "[small_stone] \<noteq> []" "ALKANES_V217_EDICT_FIX_HEIGHT \<le> 943500"
    "stone_safe (layout_of small_outs 1) 1 1 small_stone" "bal [(coin 1, 20)] (coin 1) = 20" by code_simp+
  with allocation_loses_nothing [of "[(coin 1, 20)]" "[small_stone]" 943500 small_outs no_decoders "()"] show ?thesis by force
qed

section \<open>Traces\<close>

lemma kept_map: "kept R (map f xs) = map f (kept R xs)"
proof -
  have "kept_from R i (map f xs) = map f (kept_from R i xs)" for i by (induction xs arbitrary: i) simp_all
  then show ?thesis by (simp add: kept_kept_from)
qed

lemma kept_none: "kept [] xs = xs"
proof -
  have "kept_from [] i xs = xs" for i by (induction xs arbitrary: i) simp_all
  then show ?thesis by (simp add: kept_kept_from)
qed

lemma candidate_fuzzy: "candidate D h False v \<Longrightarrow> candidate D h True v"
  by (auto simp: candidate_def split: clean_view.splits option.splits)

text \<open>
  C9. Host functions leave returns without an invocation. When a trace has more returns than invocations, cleaning it
  succeeds exactly when some of the returns that may be a host function's can be removed to leave a properly
  nested trace, and the result is such a trace.
\<close>

theorem clean_trace_rebalances:
  assumes "invokes (sandshrew_event_views D (events t)) < returns (sandshrew_event_views D (events t))"
  shows "case clean_espo_sandshrew_like_trace D t h of
      Some t' \<Rightarrow> nested 0 (sandshrew_event_views D (events t'))
        \<and> (\<exists>R. events t' = kept R (events t) \<and> rebalances (candidate D h True) (sandshrew_event_views D (events t)) R)
    | None \<Rightarrow> \<not> (\<exists>R. rebalances (candidate D h True) (sandshrew_event_views D (events t)) R)"
proof -
  let ?vs = "sandshrew_event_views D (events t)"
  have sound: "rebalances (candidate D h True) ?vs R" if "orphan_return_removals D ?vs h = Some R" for R
    using that assms removal_attempt_sound [of "candidate D h True" ?vs R] removal_attempt_sound [of "candidate D h False" ?vs R] candidate_fuzzy
    by (auto simp: orphan_return_removals_def rebalances_def split: option.splits if_splits)
  have complete: "orphan_return_removals D ?vs h \<noteq> None" if "rebalances (candidate D h True) ?vs R" for R
    using removal_attempt_complete [OF that assms candidate_is_return] assms by (auto simp: orphan_return_removals_def split: option.splits)
  show ?thesis
  proof (cases "orphan_return_removals D ?vs h")
    case None
    then show ?thesis using complete by (auto simp: clean_espo_sandshrew_like_trace_def)
  next
    case (Some R)
    note R = sound [OF Some]
    have "nested 0 (sandshrew_event_views D (kept R (events t)))"
      using R by (simp add: rebalances_def sandshrew_event_views_def kept_map)
    moreover obtain t' where "clean_espo_sandshrew_like_trace D t h = Some t'" "events t' = kept R (events t)"
      using Some by (cases "R = []") (simp_all add: clean_espo_sandshrew_like_trace_def kept_none)
    ultimately show ?thesis using R by auto
  qed
qed

definition host_return :: trace_event where
  "host_return = Return \<lparr>status = Success, response = \<lparr>alkanes = [], resp_data = ''0x07'', storage = []\<rparr>\<rparr>"

definition one_call :: trace_event where
  "one_call = Invoke \<lparr>call_type = ''call'', invoke_ctx = \<lparr>myself = \<lparr>sid_block = ''0x2'', sid_tx = ''0x9''\<rparr>, caller = \<lparr>sid_block = ''0x0'', sid_tx = ''0x0''\<rparr>,
     call_inputs = [], incoming_alkanes = [], ctx_vout = 3\<rparr>, fuel = 0\<rparr>"

definition host_trace :: trace where
  "host_trace = \<lparr>outpoint = [], events = [one_call, host_return, Return \<lparr>status = Success, response = \<lparr>alkanes = [], resp_data = ''0x'', storage = []\<rparr>\<rparr>]\<rparr>"

definition seven_decoder :: decoders where
  "seven_decoder = no_decoders\<lparr>hex_decode := \<lambda>_. Some [7]\<rparr>"

theorem clean_trace_rebalances_witness:
  "\<exists>t'. clean_espo_sandshrew_like_trace seven_decoder host_trace ([7], [], [], []) = Some t'
    \<and> nested 0 (sandshrew_event_views seven_decoder (events t'))"
proof -
  have h: "invokes (sandshrew_event_views seven_decoder (events host_trace)) < returns (sandshrew_event_views seven_decoder (events host_trace))"
    "rebalances (candidate seven_decoder ([7], [], [], []) True) (sandshrew_event_views seven_decoder (events host_trace)) [1]" by code_simp+
  from clean_trace_rebalances [OF h(1), of "([7], [], [], [])"] h(2) show ?thesis by (auto split: option.splits)
qed

end
