(* ===== verification/Spec2Isabelle.thy ===== *)
theory Spec2Isabelle
  imports Tree_Properties Store_Properties Swap_Properties Projection_Properties Transfer_Properties
begin

text \<open>
  A verification library for espo, an indexer for alkanes (smart contracts on Bitcoin). The paths below are
  relative to the repository's root directory.

  \<^bold>\<open>The program.\<close> espo follows the Bitcoin chain, lets a set of modules index every block into one RocksDB
  database, and answers queries about the latest block, earlier blocks and the unconfirmed transactions.
  Five parts of it are modelled:

  \<^enum> The versioned tree (\<^verbatim>\<open>src/runtime/tree_db.rs\<close>) keeps the state of every block as a persistent B+ tree whose
    nodes are stored under their SHA-256 digests. It begins, finishes, aborts and rewinds blocks, pins a
    root for readers, and serves point, range, page and prefix reads at any root.
  \<^enum> The handles of the modules (\<^verbatim>\<open>src/runtime/mdb.rs\<close>) give each module a prefix of the key space, through the
    tree or directly; the typed pointers (\<^verbatim>\<open>src/runtime/pointers.rs\<close>) page through lists over a handle; the
    registry (\<^verbatim>\<open>src/modules/defs.rs\<close>) assigns the prefixes; a reorganisation (\<^verbatim>\<open>src/modules/reorg.rs\<close>) rolls
    all modules and the tree back.
  \<^enum> The swap planner (\<^verbatim>\<open>src/modules/ammdata/utils/pathfinder.rs\<close>) finds routes and profitable cycles through the
    pools of a snapshot.
  \<^enum> The projection of unconfirmed calls (\<^verbatim>\<open>src/runtime/mempool_projection/\<close>) predicts what a call to frBTC, to
    an AMM pool or factory, or to a FIRE contract does with the tokens it is sent.
  \<^enum> The allocation of tokens (\<^verbatim>\<open>src/modules/essentials/utils/balances/lib.rs\<close>) decides which output of a transaction
    receives which tokens, from its protostones, the traces of its calls (\<^verbatim>\<open>src/alkanes/\<close>) or, for an unconfirmed
    transaction, the projection.

  \<^bold>\<open>Shared vocabulary.\<close> \<open>Prelude\<close> has byte strings, big-endian numbers, results and the two shapes of
  computation: a reader \<open>(error + value) option\<close> and a stateful computation that also returns the state it
  leaves, on the error path too. The outer \<open>None\<close> stands for a panic or a call that does not return. \<open>U128\<close>
  has the saturating, checked and wrapping operations on token amounts.

  \<^bold>\<open>The tree.\<close> \<open>Tree_Node\<close> has nodes, pages, keys and the record \<open>env\<close> of third-party services (RocksDB,
  SHA-256, Borsh) with \<open>env_ok\<close>, their documented behaviour. \<open>Tree_Search\<close> has the binary search in a node
  and the end of a prefix (locale \<open>child_search\<close>); \<open>Ordered_Kv\<close> the contract of an ordered map (locale
  \<open>ordered_kv\<close>); \<open>Tree_Leaf\<close> the leaf case of \<open>mutate_node\<close>; \<open>Tree_Spec\<close> trees as values and their mutation,
  with ordering, balance and fan-out kept. \<open>Tree_Store\<close> has \<open>mutate_node\<close> and \<open>apply_single\<close> on stored
  nodes, \<open>Tree_Batch\<close> batches with pending nodes, garbage collection and flush, \<open>Tree_Read\<close> point and
  grouped reads, \<open>Tree_Range\<close> the scans (locale \<open>leaf_walk\<close>, interpreted by both directions), \<open>Tree_Blocks\<close>
  the block life cycle. \<open>Versioned_Store\<close> specifies the database as a store of trees per block and proves
  that every operation simulates it; \<open>Store_Observations\<close> says what readers see of it, \<open>Tree_Frame\<close> that
  the tree touches only its own keys. \<open>Tree_Properties\<close> has the properties: refinement for every sequence of
  operations, restarts included; finished blocks never change; batches, rewinds, pins and aborts do what
  their names say; every read returns exactly the live entries it should, in order. Reads and mutations
  follow stored identifiers and are partial functions; the theorems state that they return.

  \<^bold>\<open>Handles, pointers, modules.\<close> \<open>Mdb\<close> has the operations of a handle, \<open>Mdb_Namespace\<close> and \<open>Mdb_Writes\<close> that
  a handle is an ordered map of its own which no other handle disturbs. \<open>Pointers\<close> has the pointers and the
  contract of a descending page (locale \<open>desc_pages\<close>, interpreted at the head and at a block). \<open>Reorg\<close> has
  modules, registration and rollback. \<open>Store_Properties\<close> has the properties: isolation, agreement of both
  storage paths, pages that enumerate and end, rollback of all modules.

  \<^bold>\<open>The planner.\<close> \<open>Pathfinder\<close> has quotes, the pool graph, both searches and the planners, \<open>Mev_Cycles\<close> the
  cycle search. \<open>Swap_Quotes\<close> shows that a quote never drains a pool and that the exact-output quote is
  least; \<open>Best_First\<close> verifies the loop of both searches once (locale \<open>best_first\<close>); \<open>Swap_Routes\<close> and
  \<open>Mev_Search\<close> describe what is found. \<open>Swap_Properties\<close> has the properties: plans are chains of swaps at
  pool prices within the limits and at least as good as a direct pool; the enumerated cycles are exactly the
  simple ones; a cycle plan is profitable, and best where the scan covers the whole cap. The searches
  terminate by the hop limit, so no fuel is needed.

  \<^bold>\<open>The projection.\<close> \<open>Projection\<close> has sheets of balances, the decoding of a call (the decoders of the alkanes
  crates are the record \<open>codec\<close>) and the frBTC rule; \<open>Amm_Projection\<close> the pools and the factory;
  \<open>Fire_Projection\<close> the FIRE contracts and the registry of rules. A rule is started from indexed data, which
  is an argument of \<open>amm_new\<close>, \<open>fire_new\<close> and \<open>frbtc_new\<close>. \<open>Amm_Steps\<close> abstracts a projected AMM call to a step
  relation; \<open>Amm_Accounts\<close>, \<open>Amm_Shares\<close>, \<open>Amm_Errors\<close> and \<open>Fire_Accounts\<close> prove conservation of tokens, the
  value of shares, and the effect of failures. \<open>Projection_Properties\<close> has the properties: no rule creates
  tokens, pool shares keep their value, failed calls are clean, frBTC follows the satoshis, and exactly
  which factory swaps panic.

  \<^bold>\<open>The allocation.\<close> \<open>Trace\<close> has traces, the amounts they take in and give out, and the removal of the returns that
  host functions leave without an invocation; \<open>Trace_Clean\<close> shows that a removal is found whenever there is
  one. \<open>Sources\<close> has the queues that remember which address or contract a token came from, and their flow
  through the calls of a trace. \<open>Transfers\<close> has \<open>apply_transfers_multi_attributed\<close>: one definition per nested
  function and per phase of its loop. \<open>Transfer_Accounts\<close> counts what an operation allocates or sends to a
  later protostone, \<open>Edict_Accounts\<close> follows the three walks of an edict, \<open>Stone_Accounts\<close> the loop over the
  protostones, once for every projector that conserves tokens (locale \<open>fair_projector\<close>, interpreted by no
  projector at all there and by the registry in \<open>Registry_Accounts\<close>, over the case analysis of \<open>Registry_Steps\<close>).
  \<open>Transfer_Properties\<close> has the properties: an unconfirmed transaction creates no tokens, allocations go to
  spendable outputs only, nothing is lost where edicts and pointers lead somewhere, and the exact condition
  under which a trace can be cleaned.

  \<^bold>\<open>Hypotheses.\<close> \<open>env_ok\<close> and \<open>hash_len\<close> state documented behaviour of RocksDB, SHA-256 and Borsh; collision
  freedom is assumed of the nodes of a run only, never of all byte strings. \<open>Mem_Env\<close> and \<open>Mem_World\<close> give an
  environment and worlds in which they hold, and every property with hypotheses has a witness on them.

  \<^bold>\<open>Not modelled.\<close> The modules' own index tables (essentials, ammdata beside the planner, runes, subfrost,
  tokendata, pizzafun, oylapi, explorerextensions), which fill pointers from traces decoded by third-party
  crates; the mempool service, the block fetcher, metashrew and bitcoind access, RPC servers and the
  explorer, which are network and file I/O; configuration and start-up; locks and threads (\<open>RwLock\<close>, the
  global cells): the operations are modelled as the atomic calls the locks make them; metrics and logging;
  the vendored peer-to-peer library.
\<close>

end
